(* ===== verification/Prelude.thy ===== *)
theory Prelude
  imports
    Main
    "HOL-Library.Word"
    "HOL-Library.Char_ord"
    "HOL-Library.List_Lexorder"
    "HOL-Library.Sublist"
    "HOL-Library.Multiset"
begin

text \<open>
  Shared vocabulary of the development: the machine types of the Rust code, the
  fragment of the Rust standard library on strings and integers that the modelled
  components call, and the generic lemmas on lists, strings and words they share.

  Strings are byte strings (\<^typ>\<open>string\<close>), as Rust's UTF-8 strings are compared,
  searched and measured bytewise. White space is ASCII white space. A
  \<^verbatim>\<open>u64\<close> whose wrap-around matters is a \<^typ>\<open>64 word\<close>; a \<^verbatim>\<open>usize\<close> that
  only counts elements held in memory is a \<^typ>\<open>nat\<close>, and the saturating
  operations on it name \<open>usize_max\<close>.
\<close>

named_theorems rust_simps "equations of the modelled Rust library functions"

section \<open>Types\<close>

type_synonym u8 = "8 word"
type_synonym u32 = "32 word"
type_synonym u64 = "64 word"
type_synonym bytes = "u8 list"

text \<open>A Rust \<^verbatim>\<open>Result<T, String>\<close>: \<open>Inl\<close> is the error message.\<close>

type_synonym 'a result = "string + 'a"

definition u64_max :: nat where
  "u64_max = 2 ^ 64 - 1"

text \<open>\<^verbatim>\<open>usize\<close> on the 64-bit targets the repository builds for.\<close>

definition usize_max :: nat where
  "usize_max = 2 ^ 64 - 1"

definition u32_max :: nat where
  "u32_max = 2 ^ 32 - 1"

definition u128_max :: nat where
  "u128_max = 2 ^ 128 - 1"

section \<open>Rust standard library: integers\<close>

definition usize_saturating_add :: "nat \<Rightarrow> nat \<Rightarrow> nat" where
  "usize_saturating_add a b = min (a + b) usize_max"

definition usize_saturating_mul :: "nat \<Rightarrow> nat \<Rightarrow> nat" where
  "usize_saturating_mul a b = min (a * b) usize_max"

text \<open>\<^verbatim>\<open>saturating_sub\<close> on an unsigned integer is subtraction on \<^typ>\<open>nat\<close>.\<close>

definition word_saturating_add :: "'a::len word \<Rightarrow> 'a word \<Rightarrow> 'a word" where
  "word_saturating_add a b = (if unat a + unat b < 2 ^ LENGTH('a) then a + b else - 1)"

definition word_saturating_sub :: "'a::len word \<Rightarrow> 'a word \<Rightarrow> 'a word" where
  "word_saturating_sub a b = (if b \<le> a then a - b else 0)"

definition div_ceil :: "nat \<Rightarrow> nat \<Rightarrow> nat" where
  "div_ceil a b = (if a mod b = 0 then a div b else a div b + 1)"

definition clamp_nat :: "nat \<Rightarrow> nat \<Rightarrow> nat \<Rightarrow> nat" where
  "clamp_nat x lo hi = (if x < lo then lo else if hi < x then hi else x)"

section \<open>Rust standard library: strings\<close>

definition is_ascii_digit :: "char \<Rightarrow> bool" where
  "is_ascii_digit c = (48 \<le> (of_char c :: nat) \<and> (of_char c :: nat) \<le> 57)"

definition is_ascii_upper :: "char \<Rightarrow> bool" where
  "is_ascii_upper c = (65 \<le> (of_char c :: nat) \<and> (of_char c :: nat) \<le> 90)"

definition is_ascii_lower :: "char \<Rightarrow> bool" where
  "is_ascii_lower c = (97 \<le> (of_char c :: nat) \<and> (of_char c :: nat) \<le> 122)"

definition is_ascii_alphanumeric :: "char \<Rightarrow> bool" where
  "is_ascii_alphanumeric c = (is_ascii_digit c \<or> is_ascii_upper c \<or> is_ascii_lower c)"

definition is_ws :: "char \<Rightarrow> bool" where
  "is_ws c = (let n = (of_char c :: nat) in n = 32 \<or> (9 \<le> n \<and> n \<le> 13))"

definition to_ascii_lowercase :: "string \<Rightarrow> string" where
  "to_ascii_lowercase s =
     map (\<lambda>c. if is_ascii_upper c then char_of ((of_char c :: nat) + 32) else c) s"

text \<open>\<^verbatim>\<open>Display\<close> of an unsigned integer: decimal, no leading zeros.\<close>

definition digit_char :: "nat \<Rightarrow> char" where
  "digit_char d = char_of (48 + d)"

fun show_nat :: "nat \<Rightarrow> string" where
  "show_nat n = (if n < 10 then [digit_char n] else show_nat (n div 10) @ [digit_char (n mod 10)])"

declare show_nat.simps [simp del]

abbreviation show_u64 :: "u64 \<Rightarrow> string" where
  "show_u64 w \<equiv> show_nat (unat w)"

definition digits_value :: "string \<Rightarrow> nat" where
  "digits_value s = foldl (\<lambda>acc c. 10 * acc + ((of_char c :: nat) - 48)) 0 s"

text \<open>\<^verbatim>\<open>str::parse\<close> at an unsigned type: an optional plus sign, then at least one
  digit, and the value must fit.\<close>

definition parse_uint :: "nat \<Rightarrow> string \<Rightarrow> nat option" where
  "parse_uint bound s =
     (let t = (case s of [] \<Rightarrow> [] | c # r \<Rightarrow> if c = CHR ''+'' then r else s)
      in if t = [] \<or> \<not> list_all is_ascii_digit t then None
         else if digits_value t \<le> bound then Some (digits_value t) else None)"

text \<open>\<^verbatim>\<open>split_once(pat)\<close>: the text before and after the first occurrence.\<close>

fun split_once :: "string \<Rightarrow> string \<Rightarrow> (string \<times> string) option" where
  "split_once p [] = (if p = [] then Some ([], []) else None)"
| "split_once p (c # cs) =
     (if prefix p (c # cs) then Some ([], drop (length p) (c # cs))
      else map_option (\<lambda>(a, b). (c # a, b)) (split_once p cs))"

definition contains :: "string \<Rightarrow> string \<Rightarrow> bool" where
  "contains p s = (split_once p s \<noteq> None)"

definition strip_prefix :: "string \<Rightarrow> string \<Rightarrow> string option" where
  "strip_prefix p s = (if prefix p s then Some (drop (length p) s) else None)"

fun split_on :: "char \<Rightarrow> string \<Rightarrow> string list" where
  "split_on d [] = [[]]"
| "split_on d (c # cs) =
     (if c = d then [] # split_on d cs
      else case split_on d cs of [] \<Rightarrow> [[c]] | w # ws \<Rightarrow> (c # w) # ws)"

definition split_whitespace :: "string \<Rightarrow> string list" where
  "split_whitespace s =
     filter (\<lambda>w. w \<noteq> []) (split_on CHR '' '' (map (\<lambda>c. if is_ws c then CHR '' '' else c) s))"

definition trim_start :: "string \<Rightarrow> string" where
  "trim_start s = dropWhile is_ws s"

definition trim_end_with :: "(char \<Rightarrow> bool) \<Rightarrow> string \<Rightarrow> string" where
  "trim_end_with P s = rev (dropWhile P (rev s))"

definition trim :: "string \<Rightarrow> string" where
  "trim s = trim_end_with is_ws (trim_start s)"

definition trim_matches_char :: "char \<Rightarrow> string \<Rightarrow> string" where
  "trim_matches_char q s = trim_end_with (\<lambda>c. c = q) (dropWhile (\<lambda>c. c = q) s)"

text \<open>\<^verbatim>\<open>[String]::join(sep)\<close>.\<close>

fun join :: "string \<Rightarrow> string list \<Rightarrow> string" where
  "join sep [] = []"
| "join sep [w] = w"
| "join sep (w # ws) = w @ sep @ join sep ws"

section \<open>Lemmas on the library functions\<close>

lemma word_saturating_sub_unat [rust_simps]:
  "unat (word_saturating_sub a b) = unat a - unat b"
  by (auto simp: word_saturating_sub_def unat_sub word_le_nat_alt)

lemma word_saturating_add_unat [rust_simps]:
  fixes a b :: "'a::len word"
  shows "unat (word_saturating_add a b) = min (unat a + unat b) (2 ^ LENGTH('a) - 1)"
  proof (cases "unat a + unat b < 2 ^ LENGTH('a)")
  case True
  then show ?thesis by (simp add: word_saturating_add_def unat_word_ariths)
next
  case False
  have "unat (- 1 :: 'a word) = 2 ^ LENGTH('a) - 1" by (simp add: unsigned_minus_1_eq_mask mask_eq_exp_minus_1)
  then show ?thesis using False by (simp add: word_saturating_add_def)
qed

lemma unat_le_u64_max [simp]: "unat (w :: u64) \<le> u64_max"
  using unsigned_less [of w, where ?'a = nat] by (simp add: u64_max_def)

lemma usize_saturating_add_le: "usize_saturating_add a b \<le> usize_max"
  by (simp add: usize_saturating_add_def)

lemma clamp_nat_bounds: "lo \<le> hi \<Longrightarrow> lo \<le> clamp_nat x lo hi \<and> clamp_nat x lo hi \<le> hi"
  by (auto simp: clamp_nat_def)

text \<open>Rounding up is the lower adjoint of multiplication.\<close>

lemma div_ceil_le_iff: "0 < b \<Longrightarrow> div_ceil a b \<le> c \<longleftrightarrow> a \<le> b * c"
proof (cases "a mod b = 0")
  case True
  assume "0 < b"
  with True show ?thesis by (auto simp: div_ceil_def)
next
  case False
  assume b: "0 < b"
  have "a div b < c \<longleftrightarrow> a < c * b" using b by (rule div_less_iff_less_mult)
  moreover have "a \<noteq> c * b" using False by auto
  ultimately show ?thesis using False by (auto simp: div_ceil_def mult.commute)
qed

lemma div_ceil_mono: "0 < b \<Longrightarrow> a \<le> a' \<Longrightarrow> div_ceil a b \<le> div_ceil a' b"
  using div_ceil_le_iff [of b a "div_ceil a' b"] div_ceil_le_iff [of b a' "div_ceil a' b"] by simp

lemma of_char_digit [simp]: "d < 10 \<Longrightarrow> (of_char (digit_char d) :: nat) = 48 + d"
  by (simp add: digit_char_def)

lemma digit_char_is_digit [simp]: "d < 10 \<Longrightarrow> is_ascii_digit (digit_char d)"
  by (simp add: is_ascii_digit_def)

lemma show_nat_digits: "list_all is_ascii_digit (show_nat n)"
proof (induction n rule: show_nat.induct)
  case (1 n)
  then show ?case by (subst show_nat.simps) auto
qed

lemma show_nat_nonempty [simp]: "show_nat n \<noteq> []"
  by (subst show_nat.simps) simp

lemma digits_value_snoc: "digits_value (s @ [c]) = 10 * digits_value s + (of_char c - 48)"
  by (simp add: digits_value_def)

lemma digits_value_show_nat [simp]: "digits_value (show_nat n) = n"
proof (induction n rule: show_nat.induct)
  case (1 n)
  show ?case
  proof (cases "n < 10")
    case True
    then show ?thesis by (subst show_nat.simps) (simp add: digits_value_def)
  next
    case False
    with 1 show ?thesis by (subst show_nat.simps) (simp add: digits_value_snoc)
  qed
qed

lemma plus_not_digit: "\<not> is_ascii_digit CHR ''+''"
  by (simp add: is_ascii_digit_def)

lemma parse_uint_digits:
  assumes "list_all is_ascii_digit s" and "s \<noteq> []"
  shows "parse_uint bound s = (if digits_value s \<le> bound then Some (digits_value s) else None)"
proof -
  obtain c r where s: "s = c # r" using assms(2) by (cases s) auto
  have "c \<noteq> CHR ''+''" using assms(1) s plus_not_digit by auto
  then show ?thesis using assms s by (simp add: parse_uint_def)
qed

lemma parse_uint_show_nat [rust_simps]:
  "parse_uint bound (show_nat n) = (if n \<le> bound then Some n else None)"
  by (simp add: parse_uint_digits show_nat_digits)

lemma parse_uint_le: "parse_uint bound s = Some n \<Longrightarrow> n \<le> bound"
  by (auto simp: parse_uint_def Let_def split: if_splits)

lemma show_nat_inj [simp]: "show_nat m = show_nat n \<longleftrightarrow> m = n"
  by (metis digits_value_show_nat)

lemma show_nat_no_char: "\<not> is_ascii_digit c \<Longrightarrow> c \<notin> set (show_nat n)"
  using show_nat_digits [of n] by (auto simp: list_all_iff)

lemma split_once_Some: "split_once p s = Some (a, b) \<Longrightarrow> s = a @ p @ b"
proof (induction p s arbitrary: a b rule: split_once.induct)
  case (1 p)
  then show ?case by (auto split: if_splits)
next
  case (2 p c cs)
  then show ?case by (auto split: if_splits elim!: prefixE)
qed

lemma split_once_append:
  assumes "hd p \<notin> set a" and "p \<noteq> []"
  shows "split_once p (a @ p @ b) = Some (a, b)"
  using assms
proof (induction a)
  case Nil
  then show ?case by (cases p) auto
next
  case (Cons c a)
  have "\<not> prefix p (c # a @ p @ b)" using Cons.prems by (cases p) auto
  then show ?case using Cons by simp
qed

lemma split_once_char: "d \<notin> set a \<Longrightarrow> split_once [d] (a @ d # b) = Some (a, b)"
  using split_once_append [of "[d]" a b] by simp

lemma contains_iff: "contains p s \<longleftrightarrow> (\<exists>a b. s = a @ p @ b)"
proof
  assume "contains p s"
  then show "\<exists>a b. s = a @ p @ b" by (auto simp: contains_def dest: split_once_Some)
next
  assume "\<exists>a b. s = a @ p @ b"
  then obtain a b where s: "s = a @ p @ b" by blast
  have "split_once p (a @ p @ b) \<noteq> None"
  proof (induction a)
    case Nil
    then show ?case by (cases p; cases b) auto
  next
    case (Cons c a)
    then show ?case by auto
  qed
  then show "contains p s" by (simp add: contains_def s)
qed

lemma split_on_nonempty [simp]: "split_on d s \<noteq> []"
  by (induction s) (auto split: list.splits)

lemma split_on_no_sep: "d \<notin> set s \<Longrightarrow> split_on d s = [s]"
  by (induction s) auto

lemma split_on_append: "d \<notin> set w \<Longrightarrow> split_on d (w @ d # s) = w # split_on d s"
  by (induction w) auto

lemma split_on_join:
  assumes "ws \<noteq> []" and "\<And>w. w \<in> set ws \<Longrightarrow> d \<notin> set w"
  shows "split_on d (join [d] ws) = ws"
  using assms
proof (induction "[d]" ws rule: join.induct)
  case 1
  then show ?case by simp
next
  case (2 w)
  then show ?case by (simp add: split_on_no_sep)
next
  case (3 w v vs)
  then show ?case by (simp add: split_on_append)
qed

lemma split_on_parts: "w \<in> set (split_on d s) \<Longrightarrow> d \<notin> set w"
  by (induction s arbitrary: w) (auto split: if_splits list.splits)

lemma trim_id:
  assumes "s \<noteq> [] \<Longrightarrow> \<not> is_ws (hd s)" and "s \<noteq> [] \<Longrightarrow> \<not> is_ws (last s)"
  shows "trim s = s"
proof (cases "s = []")
  case True
  then show ?thesis by (simp add: trim_def trim_end_with_def trim_start_def)
next
  case False
  have "dropWhile is_ws s = s" using False assms(1) by (cases s) auto
  moreover have "dropWhile is_ws (rev s) = rev s"
    using False assms(2) by (cases s rule: rev_cases) auto
  ultimately show ?thesis by (simp add: trim_def trim_end_with_def trim_start_def)
qed

lemma trim_no_ws: "list_all (\<lambda>c. \<not> is_ws c) s \<Longrightarrow> trim s = s"
  by (rule trim_id) (auto simp: list_all_iff)

lemma digit_not_ws: "is_ascii_digit c \<Longrightarrow> \<not> is_ws c"
  by (auto simp: is_ascii_digit_def is_ws_def Let_def)

lemma trim_show_nat [simp]: "trim (show_nat n) = show_nat n"
proof (rule trim_no_ws)
  show "list_all (\<lambda>c. \<not> is_ws c) (show_nat n)"
    using show_nat_digits [of n] digit_not_ws by (auto simp: list_all_iff)
qed

lemma append_sep_inj:
  fixes c :: char
  assumes "c \<notin> set a" and "c \<notin> set a'"
  shows "a @ c # x = a' @ c # x' \<longleftrightarrow> a = a' \<and> x = x'"
proof
  assume eq: "a @ c # x = a' @ c # x'"
  have "split_once [c] (a' @ c # x') = Some (a, x)"
    using split_once_char [OF assms(1), of x] by (simp only: eq)
  then show "a = a' \<and> x = x'" using split_once_char [OF assms(2), of x'] by simp
qed simp

lemma colon_not_digit: "CHR '':'' \<notin> set (show_nat n)"
  by (rule show_nat_no_char) (simp add: is_ascii_digit_def)

lemma u32_bound: "unat (x :: u32) < 2 ^ 32"
  using unsigned_less [of x] by simp

lemma u32_suc: "(x :: u32) \<noteq> - 1 \<Longrightarrow> unat (x + 1) = Suc (unat x)"
  using u32_bound [of x]
  by (simp add: unat_word_ariths word_unat_eq_iff unsigned_minus_1_eq_mask mask_eq_exp_minus_1)

lemma u32_max_word: "h \<le> u32_max \<Longrightarrow> unat (of_nat h :: u32) = h"
  by (simp add: u32_max_def unat_of_nat take_bit_nat_eq_self)

lemma u32_max_top: "h \<le> u32_max \<Longrightarrow> (of_nat h :: u32) = - 1 \<longleftrightarrow> h = u32_max"
proof -
  assume "h \<le> u32_max"
  then have "(of_nat h :: u32) = - 1 \<longleftrightarrow> h = unat (- 1 :: u32)" by (simp add: word_unat_eq_iff u32_max_word)
  then show ?thesis by (simp add: unsigned_minus_1_eq_mask mask_eq_exp_minus_1 u32_max_def)
qed

end
