(* ===== verification/Interfaces.thy ===== *)
theory Interfaces
  imports Prelude
begin

text \<open>
  The interfaces the components share. \<open>operation_system\<close> is a component with a
  start state, an operation interpreter and an invariant every admissible operation
  keeps; its lemma carries the invariant to every run. \<open>once_store\<close> hands out the keys
  of a chain, each at most once, in any order of requests. \<open>mailbox\<close> is the delivery
  contract of the delivery service and of both message relays: a fetch shows the
  oldest pending record of a recipient without removing it, and an acknowledgement
  removes exactly the records that carry the acknowledged identifier.
\<close>

section \<open>Systems of operations\<close>

definition run_ops :: "('s \<Rightarrow> 'op \<Rightarrow> 's) \<Rightarrow> 's \<Rightarrow> 'op list \<Rightarrow> 's" where
  "run_ops step s ops = foldl step s ops"

fun admissible :: "('s \<Rightarrow> 'op \<Rightarrow> bool) \<Rightarrow> ('s \<Rightarrow> 'op \<Rightarrow> 's) \<Rightarrow> 's \<Rightarrow> 'op list \<Rightarrow> bool" where
  "admissible ok step s [] = True"
| "admissible ok step s (x # xs) = (ok s x \<and> admissible ok step (step s x) xs)"

lemma run_ops_simps [simp]:
  "run_ops step s [] = s"
  "run_ops step s (x # xs) = run_ops step (step s x) xs"
  "run_ops step s (xs @ ys) = run_ops step (run_ops step s xs) ys"
  by (simp_all add: run_ops_def)

lemma admissible_append [simp]:
  "admissible ok step s (xs @ ys) \<longleftrightarrow>
     admissible ok step s xs \<and> admissible ok step (run_ops step s xs) ys"
  by (induction xs arbitrary: s) auto

lemma admissible_True [simp]: "admissible (\<lambda>_ _. True) step s ops"
  by (induction ops arbitrary: s) auto

locale operation_system =
  fixes init :: 's
    and step :: "'s \<Rightarrow> 'op \<Rightarrow> 's"
    and ok :: "'s \<Rightarrow> 'op \<Rightarrow> bool"
    and inv :: "'s \<Rightarrow> bool"
  assumes inv_init: "inv init"
    and inv_step: "inv s \<Longrightarrow> ok s x \<Longrightarrow> inv (step s x)"
begin

lemma inv_run_from: "inv s \<Longrightarrow> admissible ok step s ops \<Longrightarrow> inv (run_ops step s ops)"
  by (induction ops arbitrary: s) (auto intro: inv_step)

lemma inv_run: "admissible ok step init ops \<Longrightarrow> inv (run_ops step init ops)"
  by (rule inv_run_from [OF inv_init])

end

section \<open>Stores that hand out each key once\<close>

text \<open>The answers to a sequence of requests.\<close>

fun serve_all :: "('s \<Rightarrow> 'g \<Rightarrow> 'r \<times> 's) \<Rightarrow> 's \<Rightarrow> 'g list \<Rightarrow> ('g \<times> 'r) list \<times> 's" where
  "serve_all request s [] = ([], s)"
| "serve_all request s (g # gs) =
     (case request s g of (res, s1) \<Rightarrow> apfst (\<lambda>rs. (g, res) # rs) (serve_all request s1 gs))"

text \<open>A sequence of requests to a provider whose operations may not return.\<close>

fun attempt_all :: "('q \<Rightarrow> 's \<Rightarrow> ('r \<times> 's) option) \<Rightarrow> 'q list \<Rightarrow> 's \<Rightarrow> (('q \<times> 'r) list \<times> 's) option" where
  "attempt_all request [] s = Some ([], s)"
| "attempt_all request (q # qs) s =
     (case request q s of
        None \<Rightarrow> None
      | Some (r, s1) \<Rightarrow> map_option (apfst (Cons (q, r))) (attempt_all request qs s1))"

lemma attempt_all_snoc:
  "attempt_all request qs s = Some (rs, s1) \<Longrightarrow> request q s1 = Some (r, s2) \<Longrightarrow>
     attempt_all request (qs @ [q]) s = Some (rs @ [(q, r)], s2)"
  by (induction qs arbitrary: s rs) (auto split: option.splits)

lemma attempt_all_requests: "attempt_all request qs s = Some (rs, s') \<Longrightarrow> map fst rs = qs"
  by (induction qs arbitrary: s rs) (auto split: option.splits)

definition served :: "('g \<times> ('e + 'k)) list \<Rightarrow> ('g \<times> 'k) list" where
  "served rs = concat (map (\<lambda>(g, res). case res of Inr k \<Rightarrow> [(g, k)] | Inl _ \<Rightarrow> []) rs)"

lemma served_simps [simp]:
  "served [] = []"
  "served ((g, Inr k) # rs) = (g, k) # served rs"
  "served ((g, Inl e) # rs) = served rs"
  by (simp_all add: served_def)

locale once_store =
  fixes request :: "'s \<Rightarrow> 'g \<Rightarrow> ('e + 'k) \<times> 's"
    and healthy :: "'s \<Rightarrow> bool"
    and open_for :: "'s \<Rightarrow> 'g set"
    and key :: "'g \<Rightarrow> 'k"
  assumes served_law: "healthy s \<Longrightarrow> request s g = (Inr k, s') \<Longrightarrow>
      healthy s' \<and> k = key g \<and> g \<in> open_for s \<and> open_for s' \<subseteq> open_for s - {g}"
    and refused_law: "healthy s \<Longrightarrow> request s g = (Inl e, s') \<Longrightarrow> healthy s' \<and> open_for s' \<subseteq> open_for s"
begin

lemma served_in_order:
  "healthy s \<Longrightarrow> serve_all request s gs = (rs, s') \<Longrightarrow>
     distinct (map fst (served rs)) \<and> fst ` set (served rs) \<subseteq> open_for s \<and>
     (\<forall>(g, k) \<in> set (served rs). k = key g)"
proof (induction gs arbitrary: s rs)
  case Nil
  then show ?case by simp
next
  case (Cons g gs)
  obtain res s1 where r: "request s g = (res, s1)" by (cases "request s g")
  obtain rs1 where a: "serve_all request s1 gs = (rs1, s')" and rs: "rs = (g, res) # rs1"
    using Cons.prems(2) r by (auto simp: apfst_def map_prod_def split: prod.splits)
  show ?case
  proof (cases res)
    case (Inl e)
    then have "healthy s1" "open_for s1 \<subseteq> open_for s" using refused_law Cons.prems(1) r by blast+
    then show ?thesis using Cons.IH [OF _ a] rs Inl by auto
  next
    case (Inr k)
    then have l: "healthy s1" "k = key g" "g \<in> open_for s" "open_for s1 \<subseteq> open_for s - {g}"
      using served_law Cons.prems(1) r by blast+
    then show ?thesis using Cons.IH [OF l(1) a] rs Inr by auto
  qed
qed

end

section \<open>Mailboxes that replay until acknowledged\<close>

text \<open>A client that fetches the next record and acknowledges it, \<open>n\<close> times.\<close>

fun drain ::
  "('s \<Rightarrow> string \<Rightarrow> 'm option) \<Rightarrow> ('s \<Rightarrow> string \<Rightarrow> string \<Rightarrow> bool \<times> 's) \<Rightarrow> ('m \<Rightarrow> string)
     \<Rightarrow> nat \<Rightarrow> 's \<Rightarrow> string \<Rightarrow> 'm list \<times> 's" where
  "drain fetch ack mid 0 s r = ([], s)"
| "drain fetch ack mid (Suc n) s r =
     (case fetch s r of
        None \<Rightarrow> ([], s)
      | Some m \<Rightarrow>
          let s' = snd (ack s r (mid m)); (ms, s'') = drain fetch ack mid n s' r
          in (m # ms, s''))"

definition peek_front :: "'m list \<Rightarrow> 'm option" where
  "peek_front q = (case q of [] \<Rightarrow> None | m # _ \<Rightarrow> Some m)"

definition retain_other :: "('m \<Rightarrow> string) \<Rightarrow> string \<Rightarrow> 'm list \<Rightarrow> 'm list" where
  "retain_other mid i q = filter (\<lambda>m. mid m \<noteq> i) q"

text \<open>An inbox that is not in the map is an empty inbox.\<close>

definition queue_of :: "(string \<rightharpoonup> 'a list) \<Rightarrow> string \<Rightarrow> 'a list" where
  "queue_of inboxes recipient = (case inboxes recipient of Some q \<Rightarrow> q | None \<Rightarrow> [])"

lemma queue_of_simps [simp]:
  "queue_of Map.empty r = []"
  "queue_of (m(r' \<mapsto> q)) r = (if r = r' then q else queue_of m r)"
  by (simp_all add: queue_of_def)

lemma peek_front_simps [simp]:
  "peek_front [] = None" "peek_front (m # q) = Some m"
  by (simp_all add: peek_front_def)

lemma peek_front_None_iff [simp]: "peek_front q = None \<longleftrightarrow> q = []"
  by (cases q) auto

lemma peek_front_SomeE: "peek_front q = Some m \<Longrightarrow> \<exists>q'. q = m # q'"
  by (cases q) auto

lemma retain_other_fresh: "i \<notin> mid ` set q \<Longrightarrow> retain_other mid i q = q"
  by (auto simp: retain_other_def filter_id_conv)

lemma retain_other_head:
  "distinct (map mid (m # q)) \<Longrightarrow> retain_other mid (mid m) (m # q) = q"
  using retain_other_fresh [of "mid m" mid q] by (simp add: retain_other_def)

lemma retain_other_shrinks:
  "length (retain_other mid i q) \<noteq> length q \<longleftrightarrow> i \<in> mid ` set q"
proof (cases "i \<in> mid ` set q")
  case True
  then obtain m where "m \<in> set q" and "\<not> mid m \<noteq> i" by auto
  then have "length (filter (\<lambda>m. mid m \<noteq> i) q) < length q" by (rule length_filter_less)
  then show ?thesis using True by (simp add: retain_other_def)
next
  case False
  then show ?thesis by (simp add: retain_other_fresh)
qed

lemma filter_head: "filter P xs = y # ys \<Longrightarrow> y \<in> set xs \<and> P y"
  by (metis filter_eq_ConsD in_set_conv_decomp)

lemma find_filter: "List.find P xs = peek_front (filter P xs)"
  by (induction xs) auto

lemma filter_eq_once: "distinct xs \<Longrightarrow> filter (\<lambda>x. x = r) xs = [] \<or> filter (\<lambda>x. x = r) xs = [r]"
  by (induction xs) (auto simp: filter_empty_conv)

lemma filter_eq_if:
  "distinct xs \<Longrightarrow> filter (\<lambda>x. x = r) xs = (if r \<in> set xs then [r] else [])"
  by (induction xs) (auto simp: filter_empty_conv)

text \<open>
  The weaker contract: only the record shown by the last fetch is acknowledged.
\<close>

locale head_mailbox =
  fixes pending :: "'s \<Rightarrow> string \<Rightarrow> 'm list"
    and fetch :: "'s \<Rightarrow> string \<Rightarrow> 'm option"
    and ack :: "'s \<Rightarrow> string \<Rightarrow> string \<Rightarrow> bool \<times> 's"
    and mid :: "'m \<Rightarrow> string"
    and healthy :: "'s \<Rightarrow> bool"
  assumes fetch_pending: "healthy s \<Longrightarrow> fetch s r = peek_front (pending s r)"
    and ack_head: "healthy s \<Longrightarrow> pending s r = m # q \<Longrightarrow> distinct (map mid (pending s r)) \<Longrightarrow>
      fst (ack s r (mid m)) \<and> pending (snd (ack s r (mid m))) r = q"
    and ack_frame: "healthy s \<Longrightarrow> r' \<noteq> r \<Longrightarrow> pending (snd (ack s r i)) r' = pending s r'"
    and ack_healthy: "healthy s \<Longrightarrow> healthy (snd (ack s r i))"
begin

lemma drain_all:
  assumes "healthy s" and "distinct (map mid (pending s r))"
  shows "fst (drain fetch ack mid (length (pending s r)) s r) = pending s r \<and>
         fetch (snd (drain fetch ack mid (length (pending s r)) s r)) r = None"
  using assms
proof (induction "pending s r" arbitrary: s)
  case Nil
  have "pending s r = []" by (rule Nil.hyps [symmetric])
  then show ?case using Nil.prems by (simp add: fetch_pending)
next
  case (Cons m q)
  let ?s = "snd (ack s r (mid m))"
  note p = Cons.hyps(2) [symmetric]
  have q: "pending ?s r = q" using ack_head [OF Cons.prems(1) p Cons.prems(2)] by simp
  have d: "distinct (map mid (pending ?s r))" using Cons.prems(2) q p by simp
  have "fetch s r = Some m" using Cons.prems(1) p by (simp add: fetch_pending)
  then show ?case
    using Cons.hyps(1) [OF q [symmetric] ack_healthy [OF Cons.prems(1)] d] q p
    by (simp add: Let_def split_beta)
qed

lemma drain_frame:
  "healthy s \<Longrightarrow> r' \<noteq> r \<Longrightarrow> pending (snd (drain fetch ack mid n s r)) r' = pending s r'"
proof (induction n arbitrary: s)
  case (Suc n)
  then show ?case
    by (cases "fetch s r") (simp_all add: Let_def split_beta ack_frame ack_healthy)
qed simp

end

text \<open>The full contract: any record may be acknowledged, in any order.\<close>

locale mailbox =
  fixes pending :: "'s \<Rightarrow> string \<Rightarrow> 'm list"
    and fetch :: "'s \<Rightarrow> string \<Rightarrow> 'm option"
    and ack :: "'s \<Rightarrow> string \<Rightarrow> string \<Rightarrow> bool \<times> 's"
    and mid :: "'m \<Rightarrow> string"
    and healthy :: "'s \<Rightarrow> bool"
  assumes fetch_front: "healthy s \<Longrightarrow> fetch s r = peek_front (pending s r)"
    and ack_pending: "healthy s \<Longrightarrow> pending (snd (ack s r i)) r' =
      (if r' = r then retain_other mid i (pending s r) else pending s r')"
    and ack_result: "healthy s \<Longrightarrow> fst (ack s r i) \<longleftrightarrow> i \<in> mid ` set (pending s r)"
    and ack_keeps_healthy: "healthy s \<Longrightarrow> healthy (snd (ack s r i))"
begin

lemma ack_again: "healthy s \<Longrightarrow> \<not> fst (ack (snd (ack s r i)) r i)"
  by (auto simp: ack_result ack_keeps_healthy ack_pending retain_other_def)

end

sublocale mailbox \<subseteq> head_mailbox
proof unfold_locales
  show "healthy s \<Longrightarrow> fetch s r = peek_front (pending s r)" for s r by (rule fetch_front)
  show "healthy s \<Longrightarrow> pending s r = m # q \<Longrightarrow> distinct (map mid (pending s r)) \<Longrightarrow>
      fst (ack s r (mid m)) \<and> pending (snd (ack s r (mid m))) r = q" for s r m q
    by (simp add: ack_result ack_pending retain_other_head)
  show "healthy s \<Longrightarrow> r' \<noteq> r \<Longrightarrow> pending (snd (ack s r i)) r' = pending s r'" for s r r' i
    by (simp add: ack_pending)
  show "healthy s \<Longrightarrow> healthy (snd (ack s r i))" for s r i by (rule ack_keeps_healthy)
qed

text \<open>A mailbox into which a publisher pushes records for many recipients.\<close>

definition push_all ::
  "('s \<Rightarrow> string \<Rightarrow> 'm \<Rightarrow> 's) \<Rightarrow> (string \<Rightarrow> 'm) \<Rightarrow> 's \<Rightarrow> string list \<Rightarrow> 's" where
  "push_all push mk s rs = foldl (\<lambda>s r. push s r (mk r)) s rs"

locale push_mailbox = mailbox +
  fixes push :: "'s \<Rightarrow> string \<Rightarrow> 'm \<Rightarrow> 's"
  assumes push_pending:
    "pending (push s r m) r' = (if r' = r then pending s r @ [m] else pending s r')"
begin

lemma pending_push_all:
  "pending (push_all push mk s rs) r = pending s r @ map mk (filter (\<lambda>x. x = r) rs)"
  by (induction rs arbitrary: s) (auto simp: push_all_def push_pending)

lemma push_all_once:
  assumes "distinct rs" and "r \<in> set rs"
  shows "pending (push_all push mk s rs) r = pending s r @ [mk r]"
proof -
  have "filter (\<lambda>x. x = r) rs = [r]" using assms
    by (induction rs) (auto simp: filter_empty_conv)
  then show ?thesis by (simp add: pending_push_all)
qed

lemma push_all_outside: "r \<notin> set rs \<Longrightarrow> pending (push_all push mk s rs) r = pending s r"
  by (auto simp: pending_push_all filter_empty_conv)

end

end
