(* ===== verification/Service_Metrics.thy ===== *)
theory Service_Metrics
  imports Interfaces
begin

text \<open>
  Request metrics of the services (\<^verbatim>\<open>src/OpenMLS_containerized/src/service_metrics.rs\<close>;
  the Signal copy differs in the name of one environment variable): the per-endpoint
  counters, the bounded window of latency samples, the percentile summary. Time is
  an argument: the guard's elapsed milliseconds are given to \<open>finish\<close>. Counters
  are \<^typ>\<open>nat\<close>; a \<^verbatim>\<open>u64\<close> count of requests does not overflow in practice.
\<close>

section \<open>State and operations\<close>

definition DEFAULT_WARN_IN_FLIGHT :: nat where
  "DEFAULT_WARN_IN_FLIGHT = 128"

definition DEFAULT_LATENCY_SAMPLE_LIMIT :: nat where
  "DEFAULT_LATENCY_SAMPLE_LIMIT = 4096"

record EndpointMetrics =
  request_count :: nat
  error_count :: nat
  non_success_count :: nat
  client_error_count :: nat
  server_error_count :: nat
  not_found_count :: nat
  in_flight :: nat
  max_in_flight :: nat
  latencies_ms :: "nat list"

record ServiceMetrics =
  endpoints :: "string \<rightharpoonup> EndpointMetrics"
  warn_in_flight :: nat
  latency_sample_limit :: nat

record EndpointMetricsSnapshot =
  snap_request_count :: nat
  snap_error_count :: nat
  snap_non_success_count :: nat
  snap_client_error_count :: nat
  snap_server_error_count :: nat
  snap_not_found_count :: nat
  snap_in_flight :: nat
  snap_max_in_flight :: nat
  snap_latency_sample_count :: nat
  snap_latency_p50_ms :: "nat option"
  snap_latency_p95_ms :: "nat option"
  snap_latency_p99_ms :: "nat option"
  snap_latency_max_ms :: "nat option"

definition endpoint_metrics_default :: EndpointMetrics where
  "endpoint_metrics_default = \<lparr>request_count = 0, error_count = 0, non_success_count = 0,
     client_error_count = 0, server_error_count = 0, not_found_count = 0,
     in_flight = 0, max_in_flight = 0, latencies_ms = []\<rparr>"

text \<open>The argument is the value of the environment variable, if it is set.\<close>

definition service_metrics_new :: "string option \<Rightarrow> ServiceMetrics" where
  "service_metrics_new env =
     \<lparr>endpoints = Map.empty,
      warn_in_flight =
        (case Option.bind env (parse_uint u64_max) of
           Some v \<Rightarrow> v | None \<Rightarrow> DEFAULT_WARN_IN_FLIGHT),
      latency_sample_limit = DEFAULT_LATENCY_SAMPLE_LIMIT\<rparr>"

definition endpoint_entry :: "ServiceMetrics \<Rightarrow> string \<Rightarrow> EndpointMetrics" where
  "endpoint_entry m e =
     (case endpoints m e of Some x \<Rightarrow> x | None \<Rightarrow> endpoint_metrics_default)"

text \<open>\<open>start\<close> also tells whether the in-flight warning is printed.\<close>

definition metrics_start :: "ServiceMetrics \<Rightarrow> string \<Rightarrow> bool \<times> ServiceMetrics" where
  "metrics_start m e =
     (let x = endpoint_entry m e;
          x1 = x\<lparr>request_count := request_count x + 1, in_flight := in_flight x + 1\<rparr>;
          x2 = x1\<lparr>max_in_flight := max (max_in_flight x1) (in_flight x1)\<rparr>
      in (warn_in_flight m < in_flight x2, m\<lparr>endpoints := (endpoints m)(e \<mapsto> x2)\<rparr>))"

fun pop_front_until :: "nat \<Rightarrow> 'a list \<Rightarrow> 'a list" where
  "pop_front_until limit [] = []"
| "pop_front_until limit (x # xs) =
     (if limit < length (x # xs) then pop_front_until limit xs else x # xs)"

definition in_range :: "nat \<Rightarrow> nat \<Rightarrow> nat \<Rightarrow> bool" where
  "in_range lo hi n = (lo \<le> n \<and> n < hi)"

definition count_status :: "nat option \<Rightarrow> EndpointMetrics \<Rightarrow> EndpointMetrics" where
  "count_status status x =
     (case status of
        None \<Rightarrow> x
      | Some st \<Rightarrow>
          (let x1 = (if \<not> in_range 200 300 st then x\<lparr>non_success_count := non_success_count x + 1\<rparr> else x);
               x2 = (if in_range 400 500 st then x1\<lparr>client_error_count := client_error_count x1 + 1\<rparr> else x1);
               x3 = (if in_range 500 600 st then x2\<lparr>server_error_count := server_error_count x2 + 1\<rparr> else x2)
           in if st = 404 then x3\<lparr>not_found_count := not_found_count x3 + 1\<rparr> else x3))"

definition metrics_finish ::
  "ServiceMetrics \<Rightarrow> string \<Rightarrow> nat \<Rightarrow> nat option \<Rightarrow> ServiceMetrics" where
  "metrics_finish m e latency status =
     (let x = endpoint_entry m e;
          x1 = (if in_flight x > 0 then x\<lparr>in_flight := in_flight x - 1\<rparr> else x);
          is_error = (case status of Some st \<Rightarrow> \<not> in_range 200 300 st | None \<Rightarrow> False);
          x2 = (if is_error then x1\<lparr>error_count := error_count x1 + 1\<rparr> else x1);
          x3 = count_status status x2;
          x4 = x3\<lparr>latencies_ms :=
                 pop_front_until (latency_sample_limit m) (latencies_ms x3 @ [latency])\<rparr>
      in m\<lparr>endpoints := (endpoints m)(e \<mapsto> x4)\<rparr>)"

definition guard_finish :: "ServiceMetrics \<Rightarrow> string \<Rightarrow> nat \<Rightarrow> bool \<Rightarrow> ServiceMetrics" where
  "guard_finish m e latency error =
     metrics_finish m e latency (if error then Some 500 else Some 200)"

definition guard_finish_http_status ::
  "ServiceMetrics \<Rightarrow> string \<Rightarrow> nat \<Rightarrow> nat \<Rightarrow> ServiceMetrics" where
  "guard_finish_http_status m e latency status = metrics_finish m e latency (Some status)"

definition percentile :: "nat list \<Rightarrow> nat \<Rightarrow> nat option" where
  "percentile latencies pct =
     (let len = length latencies; idx = div_ceil ((len - 1) * pct) 100
      in if idx < len then Some (latencies ! idx) else None)"

definition latency_percentiles ::
  "nat list \<Rightarrow> nat option \<times> nat option \<times> nat option \<times> nat option" where
  "latency_percentiles ls =
     (if ls = [] then (None, None, None, None)
      else let s = sort ls
           in (percentile s 50, percentile s 95, percentile s 99, Some (last s)))"

definition metrics_snapshot :: "ServiceMetrics \<Rightarrow> string \<rightharpoonup> EndpointMetricsSnapshot" where
  "metrics_snapshot m e =
     map_option (\<lambda>x.
       let (p50, p95, p99, mx) = latency_percentiles (latencies_ms x)
       in \<lparr>snap_request_count = request_count x, snap_error_count = error_count x,
           snap_non_success_count = non_success_count x,
           snap_client_error_count = client_error_count x,
           snap_server_error_count = server_error_count x,
           snap_not_found_count = not_found_count x,
           snap_in_flight = in_flight x, snap_max_in_flight = max_in_flight x,
           snap_latency_sample_count = length (latencies_ms x),
           snap_latency_p50_ms = p50, snap_latency_p95_ms = p95,
           snap_latency_p99_ms = p99, snap_latency_max_ms = mx\<rparr>) (endpoints m e)"

section \<open>Runs of the service\<close>

datatype metrics_op =
    Start string
  | Finish string nat "nat option"

fun metrics_step :: "ServiceMetrics \<Rightarrow> metrics_op \<Rightarrow> ServiceMetrics" where
  "metrics_step m (Start e) = snd (metrics_start m e)"
| "metrics_step m (Finish e latency status) = metrics_finish m e latency status"

text \<open>What the counters of one endpoint promise each other.\<close>

definition endpoint_inv :: "nat \<Rightarrow> EndpointMetrics \<Rightarrow> bool" where
  "endpoint_inv limit x \<longleftrightarrow>
     in_flight x \<le> max_in_flight x \<and> max_in_flight x \<le> request_count x \<and>
     error_count x = non_success_count x \<and>
     client_error_count x + server_error_count x \<le> non_success_count x \<and>
     not_found_count x \<le> client_error_count x \<and>
     length (latencies_ms x) \<le> limit"

definition metrics_inv :: "ServiceMetrics \<Rightarrow> bool" where
  "metrics_inv m \<longleftrightarrow>
     latency_sample_limit m = DEFAULT_LATENCY_SAMPLE_LIMIT \<and>
     (\<forall>e x. endpoints m e = Some x \<longrightarrow> endpoint_inv (latency_sample_limit m) x)"

section \<open>Lemmas\<close>

lemma pop_front_until_drop: "pop_front_until limit xs = drop (length xs - limit) xs"
proof (induction limit xs rule: pop_front_until.induct)
  case (2 limit x xs)
  show ?case
  proof (cases "limit < length (x # xs)")
    case True
    then have "length (x # xs) - limit = Suc (length xs - limit)" by (simp add: Suc_diff_le)
    with 2 True show ?thesis by simp
  next
    case False
    then show ?thesis by simp
  qed
qed simp

lemma length_pop_front_until: "length (pop_front_until limit xs) \<le> limit"
  by (simp add: pop_front_until_drop)

lemma endpoint_inv_default: "endpoint_inv limit endpoint_metrics_default"
  by (simp add: endpoint_inv_def endpoint_metrics_default_def)

lemma endpoint_inv_entry:
  "metrics_inv m \<Longrightarrow> endpoint_inv (latency_sample_limit m) (endpoint_entry m e)"
  by (auto simp: metrics_inv_def endpoint_entry_def endpoint_inv_default split: option.splits)

lemma metrics_inv_update:
  assumes "metrics_inv m" and "endpoint_inv (latency_sample_limit m) x"
  shows "metrics_inv (m\<lparr>endpoints := (endpoints m)(e \<mapsto> x)\<rparr>)"
  using assms by (auto simp: metrics_inv_def)

lemma metrics_start_inv: "metrics_inv m \<Longrightarrow> metrics_inv (snd (metrics_start m e))"
  using endpoint_inv_entry [of m e]
  by (auto simp: metrics_start_def Let_def endpoint_inv_def intro!: metrics_inv_update)

lemma metrics_finish_inv: "metrics_inv m \<Longrightarrow> metrics_inv (metrics_finish m e latency status)"
  using endpoint_inv_entry [of m e]
    length_pop_front_until [of "latency_sample_limit m" "latencies_ms (endpoint_entry m e) @ [latency]"]
  by (auto simp: metrics_finish_def count_status_def Let_def endpoint_inv_def in_range_def
      intro!: metrics_inv_update split: option.splits)

lemma metrics_inv_new: "metrics_inv (service_metrics_new env)"
  by (simp add: metrics_inv_def service_metrics_new_def)

interpretation service_metrics: operation_system
  "service_metrics_new env" metrics_step "\<lambda>_ _. True" metrics_inv
proof unfold_locales
  show "metrics_inv (service_metrics_new env)" by (rule metrics_inv_new)
  show "metrics_inv m \<Longrightarrow> True \<Longrightarrow> metrics_inv (metrics_step m x)" for m x
    by (cases x) (simp_all add: metrics_start_inv metrics_finish_inv)
qed

text \<open>
  After any sequence of request starts and finishes, on every endpoint the requests in
  flight never exceed their recorded maximum, that never exceeds the number of requests,
  the error counters agree with each other, and the latency window holds at most 4096 samples.
\<close>

theorem metrics_counters_consistent:
  "\<forall>e \<in> dom (endpoints (run_ops metrics_step (service_metrics_new env) ops)).
     endpoint_inv 4096 (the (endpoints (run_ops metrics_step (service_metrics_new env) ops) e))"
  using service_metrics.inv_run [of env ops]
  by (auto simp: metrics_inv_def DEFAULT_LATENCY_SAMPLE_LIMIT_def)

theorem metrics_counters_consistent_witness:
  "''a'' \<in> dom (endpoints (run_ops metrics_step (service_metrics_new None)
      [Start ''a'', Finish ''a'' 5 (Some 404)])) \<and>
   endpoint_inv 4096 (the (endpoints (run_ops metrics_step (service_metrics_new None)
      [Start ''a'', Finish ''a'' 5 (Some 404)]) ''a''))"
proof -
  have "''a'' \<in> dom (endpoints (run_ops metrics_step (service_metrics_new None)
      [Start ''a'', Finish ''a'' 5 (Some 404)]))"
    by (simp add: metrics_start_def metrics_finish_def Let_def)
  then show ?thesis using metrics_counters_consistent by blast
qed

lemma percentile_index_bound:
  "0 < n \<Longrightarrow> pct \<le> 100 \<Longrightarrow> div_ceil ((n - 1) * pct) 100 < n"
proof -
  assume "0 < n" and "pct \<le> 100"
  then have "div_ceil ((n - 1) * pct) 100 \<le> n - 1" by (simp add: div_ceil_le_iff)
  with \<open>0 < n\<close> show ?thesis by simp
qed

lemma percentile_Some:
  "s \<noteq> [] \<Longrightarrow> pct \<le> 100 \<Longrightarrow>
     percentile s pct = Some (s ! div_ceil ((length s - 1) * pct) 100)"
  using percentile_index_bound [of "length s" pct] by (simp add: percentile_def Let_def)

lemma percentile_mono:
  assumes "sorted s" and "s \<noteq> []" and "p \<le> q" and "q \<le> 100"
  shows "the (percentile s p) \<le> the (percentile s q)"
proof -
  have "div_ceil ((length s - 1) * p) 100 \<le> div_ceil ((length s - 1) * q) 100"
    using assms(3) by (intro div_ceil_mono) simp_all
  then show ?thesis
    using assms percentile_index_bound [of "length s" q]
    by (simp add: percentile_Some sorted_nth_mono)
qed

lemma last_sorted_Max:
  fixes s :: "nat list"
  assumes "s \<noteq> []"
  shows "last (sort s) = Max (set s)"
proof -
  have "sort s \<noteq> []" using assms by (metis length_0_conv length_sort)
  then have l: "last (sort s) \<in> set s" by (metis last_in_set set_sort)
  have "x \<le> last (sort s)" if "x \<in> set s" for x
  proof -
    have "x \<in> set (sort s)" using that by simp
    then obtain i where "i < length (sort s)" and x: "x = sort s ! i" by (metis in_set_conv_nth)
    then show ?thesis
      using sorted_nth_mono [OF sorted_sort, of i "length (sort s) - 1" s] \<open>sort s \<noteq> []\<close>
      by (simp add: last_conv_nth x)
  qed
  then show ?thesis using l by (intro Max_eqI [symmetric]) auto
qed

text \<open>
  For a non-empty window of samples the latency summary always returns its four values
  (no index is out of range), each is one of the samples, they are ordered p50, p95, p99,
  maximum, and the maximum is the largest sample.
\<close>

theorem latency_percentiles_ordered:
  assumes "ls \<noteq> []"
  shows "\<exists>p50 p95 p99. latency_percentiles ls = (Some p50, Some p95, Some p99, Some (Max (set ls)))
    \<and> {p50, p95, p99} \<subseteq> set ls \<and> p50 \<le> p95 \<and> p95 \<le> p99 \<and> p99 \<le> Max (set ls)"
proof -
  let ?s = "sort ls" and ?i = "\<lambda>p. div_ceil ((length ls - 1) * p) 100"
  have ne: "?s \<noteq> []" using assms by (metis length_0_conv length_sort)
  have i: "?i p < length ls" if "p \<le> 100" for p
    using percentile_index_bound that assms by simp
  have eq: "percentile ?s p = Some (?s ! ?i p)" if "p \<le> 100" for p
    using percentile_Some [OF ne that] by simp
  have mem: "?s ! ?i p \<in> set ls" if "p \<le> 100" for p
    using i [OF that] by (metis length_sort nth_mem set_sort)
  have "?s ! ?i p \<le> ?s ! ?i q" if "p \<le> q" "q \<le> 100" for p q
    using percentile_mono [OF sorted_sort ne that] that by (simp add: eq)
  then show ?thesis
    using assms mem [of 50] mem [of 95] mem [of 99]
    by (simp add: latency_percentiles_def Let_def eq last_sorted_Max)
qed

theorem latency_percentiles_ordered_witness:
  "[30, 10, 20::nat] \<noteq> [] \<and> (\<exists>p50 p95 p99.
     latency_percentiles [30, 10, 20] = (Some p50, Some p95, Some p99, Some (Max (set [30, 10, 20::nat])))
    \<and> {p50, p95, p99} \<subseteq> set [30, 10, 20] \<and> p50 \<le> p95 \<and> p95 \<le> p99 \<and> p99 \<le> Max (set [30, 10, 20::nat]))"
  using latency_percentiles_ordered [of "[30, 10, 20]"] by blast

end
