(* ===== verification/Delivery_Service.thy ===== *)
theory Delivery_Service
  imports Service_Metrics "HOL-Library.Product_Lexorder"
begin

text \<open>
  The MLS delivery service (\<^verbatim>\<open>src/OpenMLS_containerized/src/delivery_service.rs\<close>): key
  package directory, group states with their epoch, commit delivery in its two modes
  (an inbox per recipient, or one log per group with a cursor per recipient), welcome
  and ratchet-tree inboxes. Every method is one definition on the whole state; an
  \<^verbatim>\<open>Arc<Mutex<VecDeque>>\<close> held in a map is the list under its key. A method is
  atomic here; the theory \<open>Delivery_Concurrency\<close> splits a publication into the steps
  its locks allow.

  The iteration order of a \<^verbatim>\<open>HashMap\<close> is not determined by the code. A method
  that iterates over the group log takes it as the argument \<open>order\<close>: the group
  identifiers in the order they are visited. \<open>hex\<close> is the encoder of the \<^verbatim>\<open>hex\<close> crate.
\<close>

section \<open>State\<close>

record GroupInfo =
  gi_current_epoch :: u64
  gi_members :: "string list"

record GroupState =
  current_epoch :: u64
  members :: "string list"

datatype CommitDeliveryMode = PerRecipient | GroupLog

record GroupLogCommit =
  lc_epoch :: u64
  lc_sender :: string
  lc_recipients :: "string list"
  lc_bytes :: bytes

record CommitDeliveryRecord =
  cd_id :: string
  cd_group_id :: string
  cd_epoch :: u64
  cd_sender :: string
  cd_bytes :: bytes

record PendingCommitDelivery =
  pd_id :: string
  pd_group_id :: string
  pd_epoch :: u64
  pd_sender :: string
  pd_commit_hex :: string

record PendingCommit =
  pc_group_id :: string
  pc_epoch :: u64
  pc_sender :: string
  pc_commit_hex :: string

record DeliveryService =
  key_packages :: "string \<rightharpoonup> bytes"
  commit_inboxes :: "string \<rightharpoonup> CommitDeliveryRecord list"
  commit_cursors :: "string \<times> string \<rightharpoonup> u64"
  group_commit_log :: "string \<rightharpoonup> GroupLogCommit list"
  welcome_inboxes :: "string \<rightharpoonup> bytes list"
  ratchet_tree_inboxes :: "string \<rightharpoonup> bytes list"
  groups :: "string \<rightharpoonup> GroupState"
  delivery_mode :: CommitDeliveryMode
  ds_metrics :: ServiceMetrics

section \<open>Operations\<close>

definition with_delivery_mode :: "ServiceMetrics \<Rightarrow> CommitDeliveryMode \<Rightarrow> DeliveryService" where
  "with_delivery_mode metrics mode =
     \<lparr>key_packages = Map.empty, commit_inboxes = Map.empty, commit_cursors = Map.empty,
      group_commit_log = Map.empty, welcome_inboxes = Map.empty,
      ratchet_tree_inboxes = Map.empty, groups = Map.empty,
      delivery_mode = mode, ds_metrics = metrics\<rparr>"

text \<open>The argument is the value of \<^verbatim>\<open>OPENMLS_DS_DELIVERY_MODE\<close>, if it is set.\<close>

definition delivery_service_new :: "ServiceMetrics \<Rightarrow> string option \<Rightarrow> DeliveryService" where
  "delivery_service_new metrics env =
     (let v = to_ascii_lowercase (case env of Some s \<Rightarrow> s | None \<Rightarrow> ''per-recipient'')
      in with_delivery_mode metrics
           (if v = ''group-log'' \<or> v = ''group_log'' \<or> v = ''grouplog'' then GroupLog
            else PerRecipient))"

definition publish_key_package :: "DeliveryService \<Rightarrow> string \<Rightarrow> bytes \<Rightarrow> DeliveryService" where
  "publish_key_package ds owner kp = ds\<lparr>key_packages := (key_packages ds)(owner \<mapsto> kp)\<rparr>"

definition fetch_key_package :: "DeliveryService \<Rightarrow> string \<Rightarrow> bytes option \<times> DeliveryService" where
  "fetch_key_package ds owner =
     (key_packages ds owner, ds\<lparr>key_packages := (key_packages ds)(owner := None)\<rparr>)"

definition group_state_mismatch_message :: "string \<Rightarrow> u64 \<Rightarrow> u64 \<Rightarrow> string" where
  "group_state_mismatch_message group_id expected got =
     ''Group state update mismatch for group '' @ [CHR 0x27] @ group_id @ [CHR 0x27] @
     '': expected epoch '' @ show_u64 expected @ '', got '' @ show_u64 got"

definition put_group_state ::
  "DeliveryService \<Rightarrow> string \<Rightarrow> u64 \<Rightarrow> string list \<Rightarrow> unit result \<times> DeliveryService" where
  "put_group_state ds group_id epoch mems =
     (case groups ds group_id of
        Some state \<Rightarrow>
          if epoch \<noteq> current_epoch state
          then (Inl (group_state_mismatch_message group_id (current_epoch state) epoch), ds)
          else (Inr (), ds\<lparr>groups := (groups ds)(group_id \<mapsto> state\<lparr>members := mems\<rparr>)\<rparr>)
      | None \<Rightarrow>
          (Inr (), ds\<lparr>groups := (groups ds)(group_id \<mapsto>
                      \<lparr>current_epoch = epoch, members = mems\<rparr>)\<rparr>))"

definition get_group_state :: "DeliveryService \<Rightarrow> string \<Rightarrow> GroupInfo option" where
  "get_group_state ds group_id =
     map_option (\<lambda>state. \<lparr>gi_current_epoch = current_epoch state, gi_members = members state\<rparr>)
       (groups ds group_id)"

definition commit_delivery_id :: "string \<Rightarrow> u64 \<Rightarrow> string \<Rightarrow> string \<Rightarrow> string" where
  "commit_delivery_id group_id epoch sender recipient =
     group_id @ '':'' @ show_u64 epoch @ '':'' @ sender @ '':'' @ recipient"

text \<open>\<open>commit_inbox_queue\<close> gets or creates the queue; the caller pushes at its back.\<close>

definition commit_inbox_push ::
  "DeliveryService \<Rightarrow> string \<Rightarrow> CommitDeliveryRecord \<Rightarrow> DeliveryService" where
  "commit_inbox_push ds recipient rec =
     ds\<lparr>commit_inboxes := (commit_inboxes ds)(recipient \<mapsto>
          queue_of (commit_inboxes ds) recipient @ [rec])\<rparr>"

definition commit_record :: "string \<Rightarrow> u64 \<Rightarrow> string \<Rightarrow> bytes \<Rightarrow> string \<Rightarrow> CommitDeliveryRecord" where
  "commit_record group_id epoch sender b recipient =
     \<lparr>cd_id = commit_delivery_id group_id epoch sender recipient, cd_group_id = group_id,
      cd_epoch = epoch, cd_sender = sender, cd_bytes = b\<rparr>"

text \<open>The part under the group lock: compare the epoch, then advance it.\<close>

definition accept_commit ::
  "DeliveryService \<Rightarrow> string \<Rightarrow> u64 \<Rightarrow> string list result \<times> DeliveryService" where
  "accept_commit ds group_id epoch =
     (case groups ds group_id of
        None \<Rightarrow> (Inl (''Unknown group_id '' @ [CHR 0x27] @ group_id @ [CHR 0x27]), ds)
      | Some state \<Rightarrow>
          if epoch \<noteq> current_epoch state
          then (Inl (''Commit epoch mismatch for group '' @ [CHR 0x27] @ group_id @ [CHR 0x27] @
                     '': expected '' @ show_u64 (current_epoch state) @ '', got '' @
                     show_u64 epoch), ds)
          else (Inr (members state),
                ds\<lparr>groups := (groups ds)(group_id \<mapsto>
                     state\<lparr>current_epoch := current_epoch state + 1\<rparr>)\<rparr>))"

definition deliver_commit ::
  "DeliveryService \<Rightarrow> string \<Rightarrow> string \<Rightarrow> u64 \<Rightarrow> bytes \<Rightarrow> string list \<Rightarrow> DeliveryService" where
  "deliver_commit ds group_id sender epoch b recipients =
     (case delivery_mode ds of
        PerRecipient \<Rightarrow>
          push_all commit_inbox_push (commit_record group_id (epoch + 1) sender b) ds recipients
      | GroupLog \<Rightarrow>
          ds\<lparr>group_commit_log := (group_commit_log ds)(group_id \<mapsto>
               queue_of (group_commit_log ds) group_id @
               [\<lparr>lc_epoch = epoch + 1, lc_sender = sender, lc_recipients = recipients,
                 lc_bytes = b\<rparr>])\<rparr>)"

definition publish_group_commit ::
  "DeliveryService \<Rightarrow> string \<Rightarrow> string \<Rightarrow> u64 \<Rightarrow> bytes \<Rightarrow> unit result \<times> DeliveryService" where
  "publish_group_commit ds group_id sender epoch b =
     (case accept_commit ds group_id epoch of
        (Inl e, ds') \<Rightarrow> (Inl e, ds')
      | (Inr recipients, ds') \<Rightarrow>
          (Inr (), deliver_commit ds' group_id sender epoch b recipients))"

definition peek_commit_inbox :: "DeliveryService \<Rightarrow> string \<Rightarrow> CommitDeliveryRecord option" where
  "peek_commit_inbox ds recipient =
     (case commit_inboxes ds recipient of None \<Rightarrow> None | Some queue \<Rightarrow> peek_front queue)"

definition log_commit_visible :: "u64 \<Rightarrow> string \<Rightarrow> GroupLogCommit \<Rightarrow> bool" where
  "log_commit_visible after_epoch recipient c =
     (\<not> (lc_epoch c \<le> after_epoch \<or> \<not> list_ex (\<lambda>i. i = recipient) (lc_recipients c)))"

definition cursor_of :: "DeliveryService \<Rightarrow> string \<Rightarrow> string \<Rightarrow> u64" where
  "cursor_of ds recipient group_id =
     (case commit_cursors ds (recipient, group_id) of Some e \<Rightarrow> e | None \<Rightarrow> 0)"

text \<open>One turn of the loop over the groups: the first visible commit of the group
  replaces the selection when its epoch is smaller.\<close>

definition select_group ::
  "DeliveryService \<Rightarrow> string \<Rightarrow> (string \<times> u64 \<times> string \<times> bytes) option \<Rightarrow> string
     \<Rightarrow> (string \<times> u64 \<times> string \<times> bytes) option" where
  "select_group ds recipient selected group_id =
     (case List.find (log_commit_visible (cursor_of ds recipient group_id) recipient)
             (queue_of (group_commit_log ds) group_id) of
        None \<Rightarrow> selected
      | Some c \<Rightarrow>
          (let should_replace =
                 (case selected of None \<Rightarrow> True | Some (_, e, _, _) \<Rightarrow> lc_epoch c < e)
           in if should_replace then Some (group_id, lc_epoch c, lc_sender c, lc_bytes c)
              else selected))"

definition fetch_group_log_commit_compat ::
  "string list \<Rightarrow> DeliveryService \<Rightarrow> string \<Rightarrow> CommitDeliveryRecord option" where
  "fetch_group_log_commit_compat order ds recipient =
     (case foldl (select_group ds recipient) None order of
        None \<Rightarrow> None
      | Some (g, e, s, b) \<Rightarrow> Some (commit_record g e s b recipient))"

definition fetch_next_pending_commit ::
  "string list \<Rightarrow> DeliveryService \<Rightarrow> string \<Rightarrow> CommitDeliveryRecord option" where
  "fetch_next_pending_commit order ds recipient =
     (case delivery_mode ds of
        PerRecipient \<Rightarrow> peek_commit_inbox ds recipient
      | GroupLog \<Rightarrow> fetch_group_log_commit_compat order ds recipient)"

definition fetch_commit :: "string list \<Rightarrow> DeliveryService \<Rightarrow> string \<Rightarrow> bytes option" where
  "fetch_commit order ds recipient =
     map_option cd_bytes (fetch_next_pending_commit order ds recipient)"

definition fetch_pending_commit_delivery ::
  "(bytes \<Rightarrow> string) \<Rightarrow> string list \<Rightarrow> DeliveryService \<Rightarrow> string \<Rightarrow> PendingCommitDelivery option" where
  "fetch_pending_commit_delivery hex order ds recipient =
     map_option (\<lambda>d. \<lparr>pd_id = cd_id d, pd_group_id = cd_group_id d, pd_epoch = cd_epoch d,
                      pd_sender = cd_sender d, pd_commit_hex = hex (cd_bytes d)\<rparr>)
       (fetch_next_pending_commit order ds recipient)"

text \<open>The first commit of the groups in \<open>order\<close> that carries the identifier.\<close>

fun find_log_commit ::
  "DeliveryService \<Rightarrow> string \<Rightarrow> string \<Rightarrow> string list \<Rightarrow> (string \<times> GroupLogCommit) option" where
  "find_log_commit ds recipient delivery_id [] = None"
| "find_log_commit ds recipient delivery_id (g # gs) =
     (case List.find (\<lambda>c. list_ex (\<lambda>i. i = recipient) (lc_recipients c) \<and>
             commit_delivery_id g (lc_epoch c) (lc_sender c) recipient = delivery_id)
             (queue_of (group_commit_log ds) g) of
        Some c \<Rightarrow> Some (g, c)
      | None \<Rightarrow> find_log_commit ds recipient delivery_id gs)"

definition ack_group_log_commit_compat ::
  "string list \<Rightarrow> DeliveryService \<Rightarrow> string \<Rightarrow> string \<Rightarrow> bool \<times> DeliveryService" where
  "ack_group_log_commit_compat order ds recipient delivery_id =
     (case find_log_commit ds recipient delivery_id order of
        None \<Rightarrow> (False, ds)
      | Some (g, c) \<Rightarrow>
          (True, ds\<lparr>commit_cursors := (commit_cursors ds)((recipient, g) \<mapsto>
                   max (cursor_of ds recipient g) (lc_epoch c))\<rparr>))"

definition ack_commit_inbox ::
  "DeliveryService \<Rightarrow> string \<Rightarrow> string \<Rightarrow> bool \<times> DeliveryService" where
  "ack_commit_inbox ds recipient delivery_id =
     (case commit_inboxes ds recipient of
        None \<Rightarrow> (False, ds)
      | Some queue \<Rightarrow>
          (let queue' = retain_other cd_id delivery_id queue
           in (length queue \<noteq> length queue',
               ds\<lparr>commit_inboxes := (commit_inboxes ds)(recipient \<mapsto> queue')\<rparr>)))"

definition ack_commit ::
  "string list \<Rightarrow> DeliveryService \<Rightarrow> string \<Rightarrow> string \<Rightarrow> bool \<times> DeliveryService" where
  "ack_commit order ds recipient delivery_id =
     (case delivery_mode ds of
        PerRecipient \<Rightarrow> ack_commit_inbox ds recipient delivery_id
      | GroupLog \<Rightarrow> ack_group_log_commit_compat order ds recipient delivery_id)"

definition pending_commits_of ::
  "(bytes \<Rightarrow> string) \<Rightarrow> DeliveryService \<Rightarrow> string \<Rightarrow> u64 \<Rightarrow> string \<Rightarrow> PendingCommit list" where
  "pending_commits_of hex ds client after_epoch group_id =
     map (\<lambda>c. \<lparr>pc_group_id = group_id, pc_epoch = lc_epoch c, pc_sender = lc_sender c,
               pc_commit_hex = hex (lc_bytes c)\<rparr>)
       (filter (log_commit_visible after_epoch client) (queue_of (group_commit_log ds) group_id))"

definition fetch_pending_commits ::
  "(bytes \<Rightarrow> string) \<Rightarrow> string list \<Rightarrow> DeliveryService \<Rightarrow> string \<Rightarrow> u64 \<Rightarrow> PendingCommit list" where
  "fetch_pending_commits hex order ds client after_epoch =
     sort_key (\<lambda>c. (pc_epoch c, pc_group_id c))
       (concat (map (pending_commits_of hex ds client after_epoch) order))"

definition inbox_push :: "(string \<rightharpoonup> bytes list) \<Rightarrow> string \<Rightarrow> bytes \<Rightarrow> (string \<rightharpoonup> bytes list)" where
  "inbox_push inboxes recipient b = inboxes(recipient \<mapsto> queue_of inboxes recipient @ [b])"

definition pop_inbox ::
  "(string \<rightharpoonup> bytes list) \<Rightarrow> string \<Rightarrow> bytes option \<times> (string \<rightharpoonup> bytes list)" where
  "pop_inbox inboxes recipient =
     (case inboxes recipient of
        None \<Rightarrow> (None, inboxes)
      | Some [] \<Rightarrow> (None, inboxes)
      | Some (b # q) \<Rightarrow> (Some b, inboxes(recipient \<mapsto> q)))"

definition publish_welcome :: "DeliveryService \<Rightarrow> string \<Rightarrow> bytes \<Rightarrow> DeliveryService" where
  "publish_welcome ds recipient b =
     ds\<lparr>welcome_inboxes := inbox_push (welcome_inboxes ds) recipient b\<rparr>"

definition fetch_welcome :: "DeliveryService \<Rightarrow> string \<Rightarrow> bytes option \<times> DeliveryService" where
  "fetch_welcome ds recipient =
     (case pop_inbox (welcome_inboxes ds) recipient of
        (b, inboxes') \<Rightarrow> (b, ds\<lparr>welcome_inboxes := inboxes'\<rparr>))"

definition publish_ratchet_tree :: "DeliveryService \<Rightarrow> string \<Rightarrow> bytes \<Rightarrow> DeliveryService" where
  "publish_ratchet_tree ds recipient b =
     ds\<lparr>ratchet_tree_inboxes := inbox_push (ratchet_tree_inboxes ds) recipient b\<rparr>"

definition fetch_ratchet_tree :: "DeliveryService \<Rightarrow> string \<Rightarrow> bytes option \<times> DeliveryService" where
  "fetch_ratchet_tree ds recipient =
     (case pop_inbox (ratchet_tree_inboxes ds) recipient of
        (b, inboxes') \<Rightarrow> (b, ds\<lparr>ratchet_tree_inboxes := inboxes'\<rparr>))"

section \<open>Runs\<close>

text \<open>
  One call of the service with its result; \<open>ds_exec\<close> runs it. A fetch and an
  acknowledgement carry the order in which that call happens to visit the group log.
\<close>

datatype ds_op =
    PublishKeyPackage string bytes
  | FetchKeyPackage string
  | PutGroupState string u64 "string list"
  | PublishGroupCommit string string u64 bytes
  | FetchCommit "string list" string
  | AckCommit "string list" string string
  | PublishWelcome string bytes
  | FetchWelcome string
  | PublishRatchetTree string bytes
  | FetchRatchetTree string

datatype ds_out =
    OutUnit
  | OutResult "unit result"
  | OutBytes "bytes option"
  | OutDelivery "CommitDeliveryRecord option"
  | OutBool bool

fun ds_exec :: "DeliveryService \<Rightarrow> ds_op \<Rightarrow> ds_out \<times> DeliveryService" where
  "ds_exec ds (PublishKeyPackage owner kp) = (OutUnit, publish_key_package ds owner kp)"
| "ds_exec ds (FetchKeyPackage owner) = apfst OutBytes (fetch_key_package ds owner)"
| "ds_exec ds (PutGroupState g e ms) = apfst OutResult (put_group_state ds g e ms)"
| "ds_exec ds (PublishGroupCommit g s e b) = apfst OutResult (publish_group_commit ds g s e b)"
| "ds_exec ds (FetchCommit order r) = (OutDelivery (fetch_next_pending_commit order ds r), ds)"
| "ds_exec ds (AckCommit order r i) = apfst OutBool (ack_commit order ds r i)"
| "ds_exec ds (PublishWelcome r b) = (OutUnit, publish_welcome ds r b)"
| "ds_exec ds (FetchWelcome r) = apfst OutBytes (fetch_welcome ds r)"
| "ds_exec ds (PublishRatchetTree r b) = (OutUnit, publish_ratchet_tree ds r b)"
| "ds_exec ds (FetchRatchetTree r) = apfst OutBytes (fetch_ratchet_tree ds r)"

definition ds_step :: "DeliveryService \<Rightarrow> ds_op \<Rightarrow> DeliveryService" where
  "ds_step ds x = snd (ds_exec ds x)"

text \<open>The epochs of the commits of a group that a run accepts, in order.\<close>

fun accepted_epoch :: "string \<Rightarrow> DeliveryService \<Rightarrow> ds_op \<Rightarrow> u64 list" where
  "accepted_epoch g ds (PublishGroupCommit g' s e b) =
     (if g' = g \<and> fst (publish_group_commit ds g' s e b) = Inr () then [e] else [])"
| "accepted_epoch g ds _ = []"

fun accepted_epochs :: "string \<Rightarrow> DeliveryService \<Rightarrow> ds_op list \<Rightarrow> u64 list" where
  "accepted_epochs g ds [] = []"
| "accepted_epochs g ds (x # xs) = accepted_epoch g ds x @ accepted_epochs g (ds_step ds x) xs"

text \<open>No commit is posted for the last representable epoch; member lists name a client once.\<close>

fun sane_op :: "ds_op \<Rightarrow> bool" where
  "sane_op (PublishGroupCommit g s e b) = (e \<noteq> - 1)"
| "sane_op (PutGroupState g e ms) = distinct ms"
| "sane_op _ = True"

section \<open>Lemmas on the operations\<close>

definition inbox :: "DeliveryService \<Rightarrow> string \<Rightarrow> CommitDeliveryRecord list" where
  "inbox ds r = queue_of (commit_inboxes ds) r"

lemma inbox_push [simp]:
  "inbox (commit_inbox_push ds r d) r' = (if r' = r then inbox ds r @ [d] else inbox ds r')"
  by (simp add: inbox_def commit_inbox_push_def)

lemma inbox_other [simp]:
  "inbox (ds\<lparr>key_packages := a\<rparr>) r = inbox ds r"
  "inbox (ds\<lparr>welcome_inboxes := b\<rparr>) r = inbox ds r"
  "inbox (ds\<lparr>ratchet_tree_inboxes := b\<rparr>) r = inbox ds r"
  "inbox (ds\<lparr>groups := c\<rparr>) r = inbox ds r"
  "inbox (ds\<lparr>commit_cursors := d\<rparr>) r = inbox ds r"
  "inbox (ds\<lparr>group_commit_log := l\<rparr>) r = inbox ds r"
  "inbox (ds\<lparr>ds_metrics := m\<rparr>) r = inbox ds r"
  by (simp_all add: inbox_def)

lemma peek_commit_inbox_inbox: "peek_commit_inbox ds r = peek_front (inbox ds r)"
  by (simp add: peek_commit_inbox_def inbox_def queue_of_def split: option.splits)

lemma ack_commit_inbox_inbox:
  "inbox (snd (ack_commit_inbox ds r i)) r' =
     (if r' = r then retain_other cd_id i (inbox ds r) else inbox ds r')"
  by (auto simp: ack_commit_inbox_def inbox_def queue_of_def Let_def retain_other_def
      split: option.splits)

lemma ack_commit_inbox_result:
  "fst (ack_commit_inbox ds r i) \<longleftrightarrow> i \<in> cd_id ` set (inbox ds r)"
  using retain_other_shrinks [of cd_id i "inbox ds r"]
  by (auto simp: ack_commit_inbox_def inbox_def queue_of_def Let_def split: option.splits)

interpretation commit_mail: push_mailbox inbox peek_commit_inbox ack_commit_inbox cd_id
  "\<lambda>_. True" commit_inbox_push
  by unfold_locales
    (simp_all add: peek_commit_inbox_inbox ack_commit_inbox_inbox ack_commit_inbox_result)

text \<open>The same contract at the service's own entry points, in the per-recipient mode.\<close>

interpretation per_recipient: mailbox inbox "fetch_next_pending_commit order" "ack_commit order"
  cd_id "\<lambda>ds. delivery_mode ds = PerRecipient"
proof unfold_locales
  fix ds :: DeliveryService and r r' i
  assume m: "delivery_mode ds = PerRecipient"
  show "fetch_next_pending_commit order ds r = peek_front (inbox ds r)"
    using m by (simp add: fetch_next_pending_commit_def peek_commit_inbox_inbox)
  show "inbox (snd (ack_commit order ds r i)) r' =
      (if r' = r then retain_other cd_id i (inbox ds r) else inbox ds r')"
    using m by (simp add: ack_commit_def ack_commit_inbox_inbox)
  show "fst (ack_commit order ds r i) \<longleftrightarrow> i \<in> cd_id ` set (inbox ds r)"
    using m by (simp add: ack_commit_def ack_commit_inbox_result)
  show "delivery_mode (snd (ack_commit order ds r i)) = PerRecipient"
    using m by (auto simp: ack_commit_def ack_commit_inbox_def Let_def split: option.splits)
qed

lemma commit_inbox_push_frame [simp]:
  "groups (commit_inbox_push ds r d) = groups ds"
  "delivery_mode (commit_inbox_push ds r d) = delivery_mode ds"
  "group_commit_log (commit_inbox_push ds r d) = group_commit_log ds"
  "commit_cursors (commit_inbox_push ds r d) = commit_cursors ds"
  by (simp_all add: commit_inbox_push_def)

lemma push_all_frame [simp]:
  "groups (push_all commit_inbox_push mk ds rs) = groups ds"
  "delivery_mode (push_all commit_inbox_push mk ds rs) = delivery_mode ds"
  "group_commit_log (push_all commit_inbox_push mk ds rs) = group_commit_log ds"
  "commit_cursors (push_all commit_inbox_push mk ds rs) = commit_cursors ds"
  by (induction rs arbitrary: ds) (simp_all add: push_all_def)

lemma deliver_commit_frame [simp]:
  "groups (deliver_commit ds g s e b rs) = groups ds"
  "delivery_mode (deliver_commit ds g s e b rs) = delivery_mode ds"
  "commit_cursors (deliver_commit ds g s e b rs) = commit_cursors ds"
  by (simp_all add: deliver_commit_def split: CommitDeliveryMode.splits)

lemma ack_commit_frame [simp]:
  "groups (snd (ack_commit order ds r i)) = groups ds"
  "delivery_mode (snd (ack_commit order ds r i)) = delivery_mode ds"
  "group_commit_log (snd (ack_commit order ds r i)) = group_commit_log ds"
  by (auto simp: ack_commit_def ack_commit_inbox_def ack_group_log_commit_compat_def Let_def
      split: CommitDeliveryMode.splits option.splits)

text \<open>A publication either fails and leaves the state alone, or finds its own epoch current.\<close>

lemma publish_group_commit_cases:
  obtains (Err) m where "publish_group_commit ds g s e b = (Inl m, ds)"
      "\<nexists>st. groups ds g = Some st \<and> current_epoch st = e"
  | (Ok) st where "groups ds g = Some st" "current_epoch st = e"
      "publish_group_commit ds g s e b =
        (Inr (), deliver_commit (ds\<lparr>groups := (groups ds)(g \<mapsto> st\<lparr>current_epoch := e + 1\<rparr>)\<rparr>)
                   g s e b (members st))"
  by (cases "groups ds g")
    (auto simp: publish_group_commit_def accept_commit_def split: if_splits)

section \<open>One commit per epoch\<close>

lemma epoch_after_step:
  assumes "groups ds g = Some st"
  shows "\<exists>st'. groups (ds_step ds x) g = Some st' \<and>
    current_epoch st' = current_epoch st + of_nat (length (accepted_epoch g ds x)) \<and>
    accepted_epoch g ds x \<in> {[], [current_epoch st]}"
proof (cases x)
  case (PublishGroupCommit g' s e b)
  show ?thesis
    by (rule publish_group_commit_cases [of ds g' s e b])
      (use assms PublishGroupCommit in \<open>auto simp: ds_step_def\<close>)
qed (use assms in \<open>auto simp: ds_step_def publish_key_package_def fetch_key_package_def
  put_group_state_def publish_welcome_def fetch_welcome_def publish_ratchet_tree_def
  fetch_ratchet_tree_def split: option.splits prod.splits\<close>)

lemma accepted_epochs_known:
  "groups ds g = Some st \<Longrightarrow>
     accepted_epochs g ds ops =
       map (\<lambda>i. current_epoch st + of_nat i) [0..<length (accepted_epochs g ds ops)]"
proof (induction ops arbitrary: ds st)
  case (Cons x xs)
  obtain st' where g: "groups (ds_step ds x) g = Some st'"
    and e: "current_epoch st' = current_epoch st + of_nat (length (accepted_epoch g ds x))"
    and a: "accepted_epoch g ds x \<in> {[], [current_epoch st]}"
    using epoch_after_step [OF Cons.prems] by blast
  note IH = Cons.IH [OF g]
  show ?case
  proof (cases "accepted_epoch g ds x = []")
    case True
    then show ?thesis using IH e by simp
  next
    case False
    then have "accepted_epoch g ds x = [current_epoch st]" using a by simp
    then show ?thesis using IH e
      by (simp add: upt_conv_Cons map_Suc_upt [symmetric] comp_def add.assoc del: upt_Suc)
  qed
qed simp

lemma accepted_epoch_unknown: "groups ds g = None \<Longrightarrow> accepted_epoch g ds x = []"
  by (cases x) (auto simp: publish_group_commit_def accept_commit_def)

lemma accepted_epochs_chain:
  "\<exists>e0. accepted_epochs g ds ops = map (\<lambda>i. e0 + of_nat i) [0..<length (accepted_epochs g ds ops)]"
proof (induction ops arbitrary: ds)
  case (Cons x xs)
  show ?case
  proof (cases "groups ds g")
    case None
    then show ?thesis using Cons.IH [of "ds_step ds x"] by (simp add: accepted_epoch_unknown)
  next
    case (Some st)
    then show ?thesis using accepted_epochs_known by blast
  qed
qed simp

lemma accepted_epochs_no_max:
  "list_all sane_op ops \<Longrightarrow> e \<in> set (accepted_epochs g ds ops) \<Longrightarrow> e \<noteq> - 1"
proof (induction ops arbitrary: ds)
  case (Cons x xs)
  then show ?case by (cases x) (auto split: if_splits)
qed simp

lemma chain_increasing:
  fixes e0 :: u64
  assumes "- 1 \<notin> set (map (\<lambda>i. e0 + of_nat i) [0..<n])"
  shows "\<forall>i \<le> n. unat (e0 + of_nat i) = unat e0 + i"
  using assms
proof (induction n)
  case (Suc n)
  have IH: "\<forall>i \<le> n. unat (e0 + of_nat i) = unat e0 + i" using Suc by simp
  have ne: "e0 + of_nat n \<noteq> - 1" using Suc.prems by auto
  then have "unat (e0 + of_nat n + 1) = Suc (unat (e0 + of_nat n))"
    by (metis add.commute add_eq_0_iff unatSuc)
  then have "unat (e0 + of_nat (Suc n)) = unat e0 + Suc n"
    using IH by (simp add: ac_simps)
  then show ?case using IH by (auto simp: le_Suc_eq)
qed simp

text \<open>
  (C2) The delivery service orders the commits of a group. In every run, whatever the
  other calls and the members do, the epochs of the accepted commits of a group are
  consecutive; if nobody posts a commit for the last 64-bit epoch they increase strictly,
  so no two commits are ever accepted for the same epoch.
\<close>

theorem accepted_commits_linear:
  assumes "list_all sane_op ops"
  shows "sorted_wrt (<) (accepted_epochs g ds ops) \<and> distinct (accepted_epochs g ds ops) \<and>
    (\<exists>e0 :: u64. map unat (accepted_epochs g ds ops) =
      [unat e0..<unat e0 + length (accepted_epochs g ds ops)])"
proof -
  let ?es = "accepted_epochs g ds ops"
  obtain e0 where es: "?es = map (\<lambda>i. e0 + of_nat i) [0..<length ?es]"
    using accepted_epochs_chain by blast
  have "- 1 \<notin> set ?es" using accepted_epochs_no_max [OF assms] by blast
  then have "\<forall>i \<le> length ?es. unat (e0 + of_nat i) = unat e0 + i"
    using es chain_increasing [of e0 "length ?es"] by metis
  then have "map unat (map (\<lambda>i. e0 + of_nat i) [0..<length ?es]) = map (\<lambda>i. i + unat e0) [0..<length ?es]"
    by simp
  then have u: "map unat ?es = [unat e0..<unat e0 + length ?es]"
    by (metis add.commute add_0 es map_add_upt)
  have "sorted_wrt (<) (map unat ?es)" unfolding u by simp
  then have "sorted_wrt (<) ?es"
    by (auto simp: sorted_wrt_map word_less_nat_alt elim!: sorted_wrt_mono_rel [rotated])
  moreover have "distinct (map unat ?es)" unfolding u by simp
  then have "distinct ?es" by (simp only: distinct_map)
  ultimately show ?thesis using u by blast
qed

definition demo_ops :: "ds_op list" where
  "demo_ops = [PutGroupState ''g'' 5 [''a'', ''b''], PublishGroupCommit ''g'' ''a'' 5 [1],
     PublishGroupCommit ''g'' ''b'' 5 [2], AckCommit [] ''b'' ''g:6:a:b'',
     PublishGroupCommit ''g'' ''a'' 6 [3]]"

definition demo_service :: DeliveryService where
  "demo_service = with_delivery_mode (service_metrics_new None) PerRecipient"

lemma demo_ops_sane: "list_all sane_op demo_ops"
  by (simp add: demo_ops_def)

theorem accepted_commits_linear_witness:
  "list_all sane_op demo_ops \<and> accepted_epochs ''g'' demo_service demo_ops = [5, 6] \<and>
   distinct (accepted_epochs ''g'' demo_service demo_ops)"
proof -
  have "accepted_epochs ''g'' demo_service demo_ops = [5, 6]" by code_simp
  then show ?thesis using accepted_commits_linear [OF demo_ops_sane, of "''g''" demo_service]
      demo_ops_sane by blast
qed

section \<open>What a publication delivers\<close>

lemma publish_per_recipient:
  assumes "delivery_mode ds = PerRecipient" and "groups ds g = Some st" and "current_epoch st = e"
  shows "inbox (snd (publish_group_commit ds g s e b)) r =
    inbox ds r @ map (commit_record g (e + 1) s b) (filter (\<lambda>x. x = r) (members st))"
  using assms
  by (simp add: publish_group_commit_def accept_commit_def deliver_commit_def
      commit_mail.pending_push_all)

text \<open>
  (C12) In the per-recipient mode an accepted commit reaches every member of the group
  exactly once, at the back of its inbox, and nobody else; it advances the epoch of that
  group by one and touches no other group.
\<close>

theorem publish_delivers_exactly_once:
  assumes "delivery_mode ds = PerRecipient" and "groups ds g = Some st"
    and "current_epoch st = e" and "distinct (members st)"
  shows "fst (publish_group_commit ds g s e b) = Inr () \<and>
    (\<forall>r. inbox (snd (publish_group_commit ds g s e b)) r =
       (if r \<in> set (members st) then inbox ds r @ [commit_record g (e + 1) s b r] else inbox ds r)) \<and>
    groups (snd (publish_group_commit ds g s e b)) = (groups ds)(g \<mapsto> st\<lparr>current_epoch := e + 1\<rparr>)"
proof -
  let ?ds = "ds\<lparr>groups := (groups ds)(g \<mapsto> st\<lparr>current_epoch := e + 1\<rparr>)\<rparr>"
  have "publish_group_commit ds g s e b =
      (Inr (), push_all commit_inbox_push (commit_record g (e + 1) s b) ?ds (members st))"
    using assms by (simp add: publish_group_commit_def accept_commit_def deliver_commit_def)
  moreover have "inbox ?ds r = inbox ds r" for r by simp
  ultimately show ?thesis
    using commit_mail.push_all_once [OF assms(4), of _ "commit_record g (e + 1) s b" ?ds]
      commit_mail.push_all_outside [of _ "members st" "commit_record g (e + 1) s b" ?ds]
    by auto
qed

definition demo_group :: DeliveryService where
  "demo_group = ds_step demo_service (PutGroupState ''g'' 5 [''a'', ''b''])"

theorem publish_delivers_exactly_once_witness:
  "delivery_mode demo_group = PerRecipient \<and>
   groups demo_group ''g'' = Some \<lparr>current_epoch = 5, members = [''a'', ''b'']\<rparr> \<and>
   inbox (snd (publish_group_commit demo_group ''g'' ''a'' 5 [1])) ''b'' =
     inbox demo_group ''b'' @ [commit_record ''g'' (5 + 1) ''a'' [1] ''b'']"
proof -
  have h: "delivery_mode demo_group = PerRecipient"
    "groups demo_group ''g'' = Some \<lparr>current_epoch = 5, members = [''a'', ''b'']\<rparr>"
    by (simp_all add: demo_group_def demo_service_def ds_step_def put_group_state_def
        with_delivery_mode_def)
  show ?thesis
    using publish_delivers_exactly_once [OF h, of 5 "''a''" "[1]"] h by auto
qed

text \<open>A rejected publication is an error that changes nothing.\<close>

lemma publish_rejected:
  assumes "\<nexists>st. groups ds g = Some st \<and> current_epoch st = e"
  shows "\<exists>m. publish_group_commit ds g s e b = (Inl m, ds)"
  by (rule publish_group_commit_cases [of ds g s e b]) (use assms in auto)

section \<open>Inboxes keep the order of the epochs\<close>

definition inbox_epochs :: "DeliveryService \<Rightarrow> string \<Rightarrow> string \<Rightarrow> u64 list" where
  "inbox_epochs ds r g = map cd_epoch (filter (\<lambda>d. cd_group_id d = g) (inbox ds r))"

definition inbox_inv :: "DeliveryService \<Rightarrow> bool" where
  "inbox_inv ds \<longleftrightarrow>
     (\<forall>g st. groups ds g = Some st \<longrightarrow> distinct (members st)) \<and>
     (\<forall>r. \<forall>d \<in> set (inbox ds r).
        cd_id d = commit_delivery_id (cd_group_id d) (cd_epoch d) (cd_sender d) r \<and>
        (\<exists>st. groups ds (cd_group_id d) = Some st \<and> cd_epoch d \<le> current_epoch st)) \<and>
     (\<forall>r g. sorted_wrt (<) (inbox_epochs ds r g))"

lemma inbox_invD:
  assumes "inbox_inv ds"
  shows "groups ds g = Some st \<Longrightarrow> distinct (members st)"
    and "d \<in> set (inbox ds r) \<Longrightarrow>
      cd_id d = commit_delivery_id (cd_group_id d) (cd_epoch d) (cd_sender d) r"
    and "d \<in> set (inbox ds r) \<Longrightarrow> \<exists>st. groups ds (cd_group_id d) = Some st \<and> cd_epoch d \<le> current_epoch st"
    and "sorted_wrt (<) (inbox_epochs ds r g)"
  using assms by (auto simp: inbox_inv_def)

lemma word_less_Suc: "(e :: u64) \<noteq> - 1 \<Longrightarrow> e < e + 1"
  by (metis add.commute add_eq_0_iff lessI unatSuc word_less_nat_alt)

lemma commit_record_sel [simp]:
  "cd_id (commit_record g e s b r) = commit_delivery_id g e s r"
  "cd_group_id (commit_record g e s b r) = g" "cd_epoch (commit_record g e s b r) = e"
  "cd_sender (commit_record g e s b r) = s" "cd_bytes (commit_record g e s b r) = b"
  by (simp_all add: commit_record_def)

text \<open>The invariant only reads the groups and the inboxes; a step that shrinks an inbox keeps it.\<close>

lemma inbox_inv_retain:
  assumes inv: "inbox_inv ds" and grp: "groups ds' = groups ds"
    and sub: "\<And>r. \<exists>P. inbox ds' r = filter P (inbox ds r)"
  shows "inbox_inv ds'"
proof -
  have "sorted_wrt (<) (inbox_epochs ds' r g)" for r g
  proof -
    obtain P where P: "inbox ds' r = filter P (inbox ds r)" using sub by blast
    have "sorted_wrt (\<lambda>x y. cd_epoch x < cd_epoch y) (filter (\<lambda>d. cd_group_id d = g) (inbox ds r))"
      using inbox_invD(4) [OF inv, of r g] by (simp add: inbox_epochs_def sorted_wrt_map)
    from sorted_wrt_filter [OF this, of P] show ?thesis
      by (simp add: inbox_epochs_def P sorted_wrt_map conj_commute)
  qed
  moreover have "set (inbox ds' r) \<subseteq> set (inbox ds r)" for r
    using sub [of r] by auto
  ultimately show ?thesis using inv grp unfolding inbox_inv_def by (metis subsetD)
qed

lemma inbox_inv_groups:
  assumes inv: "inbox_inv ds" and grp: "groups ds' = (groups ds)(g \<mapsto> st')"
    and box: "\<And>r. inbox ds' r = inbox ds r" and ms: "distinct (members st')"
    and le: "\<And>st. groups ds g = Some st \<Longrightarrow> current_epoch st \<le> current_epoch st'"
  shows "inbox_inv ds'"
  unfolding inbox_inv_def
proof (intro conjI allI ballI impI)
  show "distinct (members st)" if "groups ds' h = Some st" for h st
    using that inbox_invD(1) [OF inv] ms by (auto simp: grp split: if_splits)
  show "sorted_wrt (<) (inbox_epochs ds' r h)" for r h
    using inbox_invD(4) [OF inv, of r h] by (simp add: inbox_epochs_def box)
  fix r d
  assume "d \<in> set (inbox ds' r)"
  then have d: "d \<in> set (inbox ds r)" by (simp add: box)
  show "cd_id d = commit_delivery_id (cd_group_id d) (cd_epoch d) (cd_sender d) r"
    by (rule inbox_invD(2) [OF inv d])
  obtain st where "groups ds (cd_group_id d) = Some st" "cd_epoch d \<le> current_epoch st"
    using inbox_invD(3) [OF inv d] by blast
  then show "\<exists>st. groups ds' (cd_group_id d) = Some st \<and> cd_epoch d \<le> current_epoch st"
    using le by (cases "cd_group_id d = g") (auto simp: grp)
qed

lemma inbox_inv_extend:
  assumes inv: "inbox_inv ds" and grp: "groups ds' = groups ds" "groups ds g = Some st" "e \<le> current_epoch st"
    and box: "\<And>r. inbox ds' r = inbox ds r \<or> inbox ds' r = inbox ds r @ [commit_record g e s b r]"
    and lt: "\<And>r d. d \<in> set (inbox ds r) \<Longrightarrow> cd_group_id d = g \<Longrightarrow> cd_epoch d < e"
  shows "inbox_inv ds'"
  unfolding inbox_inv_def
proof (intro conjI allI ballI impI)
  show "distinct (members st)" if "groups ds' h = Some st" for h st
    using that inbox_invD(1) [OF inv] by (simp add: grp)
  show "sorted_wrt (<) (inbox_epochs ds' r h)" for r h
    using box [of r] inbox_invD(4) [OF inv, of r h] lt [of _ r]
    by (auto simp: inbox_epochs_def sorted_wrt_append)
  fix r d
  assume "d \<in> set (inbox ds' r)"
  then consider (old) "d \<in> set (inbox ds r)" | (new) "d = commit_record g e s b r"
    using box [of r] by auto
  note cs = this
  show "cd_id d = commit_delivery_id (cd_group_id d) (cd_epoch d) (cd_sender d) r"
    using cs by cases (simp_all add: inbox_invD(2) [OF inv])
  show "\<exists>st. groups ds' (cd_group_id d) = Some st \<and> cd_epoch d \<le> current_epoch st"
    using cs by cases (simp_all add: inbox_invD(3) [OF inv] grp)
qed

lemma inbox_inv_put:
  assumes "inbox_inv ds" and "distinct ms"
  shows "inbox_inv (snd (put_group_state ds g e ms))"
proof (cases "groups ds g")
  case None
  show ?thesis
    by (rule inbox_inv_groups [OF assms(1), where g = g and st' = "\<lparr>current_epoch = e, members = ms\<rparr>"])
      (use None assms(2) in \<open>simp_all add: put_group_state_def\<close>)
next
  case (Some st)
  show ?thesis
  proof (cases "e = current_epoch st")
    case True
    show ?thesis
      by (rule inbox_inv_groups [OF assms(1), where g = g and st' = "st\<lparr>members := ms\<rparr>"])
        (use Some True assms(2) in \<open>simp_all add: put_group_state_def\<close>)
  next
    case False
    then show ?thesis using Some assms(1) by (simp add: put_group_state_def)
  qed
qed

lemma inbox_inv_publish:
  assumes inv: "inbox_inv ds" and e: "e \<noteq> - 1"
  shows "inbox_inv (snd (publish_group_commit ds g s e b))"
proof (cases "\<exists>st. groups ds g = Some st \<and> current_epoch st = e")
  case False
  then obtain m where "publish_group_commit ds g s e b = (Inl m, ds)" using publish_rejected by blast
  then show ?thesis using inv by simp
next
  case True
  then obtain st where st: "groups ds g = Some st" "current_epoch st = e" by blast
  let ?st = "st\<lparr>current_epoch := e + 1\<rparr>"
  let ?mid = "ds\<lparr>groups := (groups ds)(g \<mapsto> ?st)\<rparr>" and ?ds = "snd (publish_group_commit ds g s e b)"
  note ms = inbox_invD(1) [OF inv st(1)]
  have mid: "inbox_inv ?mid"
    by (rule inbox_inv_groups [OF inv, where g = g and st' = ?st])
      (use st ms word_less_Suc [OF e] in auto)
  have box: "inbox ?ds r = inbox ?mid r \<or> inbox ?ds r = inbox ?mid r @ [commit_record g (e + 1) s b r]" for r
  proof (cases "delivery_mode ds")
    case PerRecipient
    show ?thesis
      using publish_per_recipient [OF PerRecipient st, of s b r] filter_eq_once [OF ms, of r] by auto
  next
    case GroupLog
    then show ?thesis using st
      by (simp add: publish_group_commit_def accept_commit_def deliver_commit_def)
  qed
  show ?thesis
  proof (rule inbox_inv_extend [OF mid, where g = g and st = ?st and e = "e + 1"])
    show "groups ?ds = groups ?mid"
      using st by (simp add: publish_group_commit_def accept_commit_def)
    fix r d
    assume "d \<in> set (inbox ?mid r)" and "cd_group_id d = g"
    then show "cd_epoch d < e + 1"
      using inbox_invD(3) [OF inv, of d r] st word_less_Suc [OF e] by fastforce
  qed (use box in auto)
qed

lemma inbox_inv_step: "inbox_inv ds \<Longrightarrow> sane_op x \<Longrightarrow> inbox_inv (ds_step ds x)"
proof (cases x)
  case (AckCommit order r i)
  assume inv: "inbox_inv ds"
  show ?thesis
  proof (rule inbox_inv_retain [OF inv])
    show "groups (ds_step ds x) = groups ds" by (simp add: AckCommit ds_step_def)
    show "\<exists>P. inbox (ds_step ds x) r' = filter P (inbox ds r')" for r'
    proof (cases "delivery_mode ds")
      case PerRecipient
      then have "inbox (ds_step ds x) r' =
          (if r' = r then retain_other cd_id i (inbox ds r) else inbox ds r')"
        by (simp add: AckCommit ds_step_def per_recipient.ack_pending)
      then show ?thesis
        by (cases "r' = r") (auto simp: retain_other_def intro: exI [of _ "\<lambda>_. True"])
    next
      case GroupLog
      then have "inbox (ds_step ds x) r' = inbox ds r'"
        by (simp add: AckCommit ds_step_def ack_commit_def ack_group_log_commit_compat_def
            split: option.splits)
      then show ?thesis by (auto intro: exI [of _ "\<lambda>_. True"])
    qed
  qed
qed (auto simp: ds_step_def inbox_inv_put inbox_inv_publish publish_key_package_def
    fetch_key_package_def publish_welcome_def fetch_welcome_def publish_ratchet_tree_def
    fetch_ratchet_tree_def split: prod.splits
    intro!: inbox_inv_retain [of ds] exI [of _ "\<lambda>_. True"])

lemma inbox_inv_init: "inbox_inv (with_delivery_mode m mode)"
  by (simp add: inbox_inv_def with_delivery_mode_def inbox_def inbox_epochs_def)

interpretation ds_runs: operation_system "with_delivery_mode m mode" ds_step "\<lambda>_. sane_op" inbox_inv
  by unfold_locales (simp_all add: inbox_inv_init inbox_inv_step)

lemma admissible_sane: "list_all sane_op ops \<Longrightarrow> admissible (\<lambda>_. sane_op) ds_step ds ops"
  by (induction ops arbitrary: ds) auto



end
