(* ===== verification/Delivery_Modes.thy ===== *)
theory Delivery_Modes
  imports Delivery_Service
begin

text \<open>
  The two commit delivery modes of the delivery service compared: the group log as a
  mailbox of one group, the equivalence of the log with the per-recipient inboxes, the
  delivery identifiers, and the result of the pending-commits query, which does not
  depend on the order in which the log's hash map is visited.
\<close>

section \<open>Delivery identifiers\<close>

lemma commit_delivery_id_same_group:
  "commit_delivery_id g e s r = commit_delivery_id g e' s' r \<longleftrightarrow> e = e' \<and> s = s'"
proof -
  have "commit_delivery_id g e s r = commit_delivery_id g e' s' r \<longleftrightarrow>
      show_u64 e @ CHR '':'' # s = show_u64 e' @ CHR '':'' # s'"
    by (simp add: commit_delivery_id_def)
  then show ?thesis by (simp add: append_sep_inj colon_not_digit word_unat_eq_iff [symmetric])
qed

text \<open>
  A delivery identifier determines the group, the epoch, the sender and the recipient
  whenever the group and the sender have no colon in their name.
\<close>

theorem commit_delivery_id_injective:
  assumes "CHR '':'' \<notin> set g" and "CHR '':'' \<notin> set g'"
    and "CHR '':'' \<notin> set s" and "CHR '':'' \<notin> set s'"
    and "commit_delivery_id g e s r = commit_delivery_id g' e' s' r'"
  shows "g = g' \<and> e = e' \<and> s = s' \<and> r = r'"
proof -
  have "g @ CHR '':'' # (show_u64 e @ CHR '':'' # (s @ CHR '':'' # r)) =
      g' @ CHR '':'' # (show_u64 e' @ CHR '':'' # (s' @ CHR '':'' # r'))"
    using assms(5) by (simp add: commit_delivery_id_def)
  then show ?thesis using assms(1-4) by (simp add: append_sep_inj colon_not_digit word_unat_eq_iff [symmetric])
qed

theorem commit_delivery_id_injective_witness:
  "CHR '':'' \<notin> set ''g1'' \<and> CHR '':'' \<notin> set ''alice'' \<and>
   commit_delivery_id ''g1'' 7 ''alice'' ''bob'' = ''g1:7:alice:bob'' \<and>
   ''g1'' = ''g1'' \<and> (7::u64) = 7 \<and> ''alice'' = ''alice'' \<and> ''bob'' = ''bob''"
proof -
  have "commit_delivery_id ''g1'' 7 ''alice'' ''bob'' = ''g1:7:alice:bob''" by code_simp
  moreover have n: "CHR '':'' \<notin> set ''g1''" "CHR '':'' \<notin> set ''alice''" by simp_all
  ultimately show ?thesis
    using commit_delivery_id_injective [OF n(1) n(1) n(2) n(2) refl, of 7 "''bob''"] by blast
qed

definition colliding_service :: DeliveryService where
  "colliding_service = run_ops ds_step demo_service
     [PutGroupState ''a'' 0 [''r''], PutGroupState ''a:1'' 1 [''r''],
      PublishGroupCommit ''a'' ''2:x'' 0 [10], PublishGroupCommit ''a:1'' ''x'' 1 [20]]"


section \<open>The group log as a mailbox\<close>

text \<open>What the log of group \<open>g\<close> still has to deliver to \<open>r\<close>.\<close>

definition log_of :: "string \<Rightarrow> DeliveryService \<Rightarrow> GroupLogCommit list" where
  "log_of g ds = queue_of (group_commit_log ds) g"

definition log_record :: "string \<Rightarrow> string \<Rightarrow> GroupLogCommit \<Rightarrow> CommitDeliveryRecord" where
  "log_record g r c = commit_record g (lc_epoch c) (lc_sender c) (lc_bytes c) r"

definition log_pending :: "string \<Rightarrow> DeliveryService \<Rightarrow> string \<Rightarrow> CommitDeliveryRecord list" where
  "log_pending g ds r = map (log_record g r) (filter (log_commit_visible (cursor_of ds r g) r) (log_of g ds))"

definition log_healthy :: "string \<Rightarrow> DeliveryService \<Rightarrow> bool" where
  "log_healthy g ds \<longleftrightarrow> delivery_mode ds = GroupLog \<and> sorted_wrt (<) (map lc_epoch (log_of g ds))"

lemma log_commit_visible_iff:
  "log_commit_visible k r c \<longleftrightarrow> k < lc_epoch c \<and> r \<in> set (lc_recipients c)"
  by (auto simp: log_commit_visible_def list_ex_iff)

lemma fetch_log_pending:
  assumes "log_healthy g ds"
  shows "fetch_next_pending_commit [g] ds r = peek_front (log_pending g ds r)"
  using assms
  by (cases "filter (log_commit_visible (cursor_of ds r g) r) (queue_of (group_commit_log ds) g)")
    (simp_all add: fetch_next_pending_commit_def fetch_group_log_commit_compat_def
      select_group_def log_healthy_def log_pending_def log_of_def log_record_def find_filter)

text \<open>In a log with increasing epochs, moving the cursor to the first visible commit leaves the rest.\<close>

lemma advance_cursor:
  fixes f :: "'a \<Rightarrow> 'b::linorder"
  assumes "sorted_wrt (<) (map f L)" and "filter (\<lambda>c. k < f c \<and> P c) L = c # q"
  shows "filter (\<lambda>x. f c < f x \<and> P x) L = q"
  using assms
proof (induction L)
  case (Cons x L)
  show ?case
  proof (cases "k < f x \<and> P x")
    case True
    then have xc: "x = c" and q: "filter (\<lambda>c. k < f c \<and> P c) L = q" using Cons.prems(2) by auto
    have "filter (\<lambda>x. f c < f x \<and> P x) L = filter (\<lambda>c. k < f c \<and> P c) L"
      using Cons.prems(1) True xc by (intro filter_cong) (auto intro: less_trans)
    then show ?thesis using xc q by simp
  next
    case False
    then have f: "filter (\<lambda>c. k < f c \<and> P c) L = c # q"
      using Cons.prems(2) by (simp split: if_splits)
    have s: "sorted_wrt (<) (map f L)" and "f x < f c"
      using filter_head [OF f] Cons.prems(1) by auto
    then have "\<not> f c < f x" by simp
    then show ?thesis using Cons.IH [OF s f] by simp
  qed
qed simp

lemma cursor_of_update:
  "cursor_of (ds\<lparr>commit_cursors := (commit_cursors ds)((r, g) \<mapsto> k)\<rparr>) r' g' =
     (if r' = r \<and> g' = g then k else cursor_of ds r' g')"
  by (auto simp: cursor_of_def)

lemma find_log_commit_pending:
  assumes "filter (log_commit_visible k r) (log_of g ds) = c # q"
  shows "\<exists>c'. find_log_commit ds r (cd_id (log_record g r c)) [g] = Some (g, c') \<and>
    lc_epoch c' = lc_epoch c"
proof -
  let ?P = "\<lambda>x. list_ex (\<lambda>i. i = r) (lc_recipients x) \<and>
    commit_delivery_id g (lc_epoch x) (lc_sender x) r = cd_id (log_record g r c)"
  have "c \<in> set (log_of g ds)" and "log_commit_visible k r c"
    using filter_head [OF assms] by auto
  then have "filter ?P (log_of g ds) \<noteq> []"
    by (auto simp: filter_empty_conv log_record_def log_commit_visible_def)
  then obtain c' q' where f: "filter ?P (log_of g ds) = c' # q'" by (meson neq_Nil_conv)
  then have "?P c'" using filter_head [OF f] by blast
  then have "lc_epoch c' = lc_epoch c"
    by (simp add: log_record_def commit_delivery_id_same_group)
  then show ?thesis using f by (simp add: find_filter log_of_def)
qed

lemma ack_log_head:
  assumes h: "log_healthy g ds" and p: "log_pending g ds r = m # q"
  shows "fst (ack_commit [g] ds r (cd_id m)) \<and> log_pending g (snd (ack_commit [g] ds r (cd_id m))) r = q"
proof -
  obtain c L where f: "filter (log_commit_visible (cursor_of ds r g) r) (log_of g ds) = c # L"
    and m: "m = log_record g r c" and q: "q = map (log_record g r) L"
    using p by (auto simp: log_pending_def map_eq_Cons_conv)
  have vis: "cursor_of ds r g < lc_epoch c"
    using filter_head [OF f] by (simp add: log_commit_visible_iff)
  obtain c' where c': "find_log_commit ds r (cd_id m) [g] = Some (g, c')" "lc_epoch c' = lc_epoch c"
    using find_log_commit_pending [OF f] m by blast
  have "ack_commit [g] ds r (cd_id m) =
      (True, ds\<lparr>commit_cursors := (commit_cursors ds)((r, g) \<mapsto> lc_epoch c)\<rparr>)"
    using h c' vis
    by (simp add: ack_commit_def ack_group_log_commit_compat_def log_healthy_def max_def
        del: find_log_commit.simps)
  moreover have "filter (log_commit_visible (lc_epoch c) r) (log_of g ds) = L"
    using advance_cursor [of lc_epoch "log_of g ds" "cursor_of ds r g" "\<lambda>c. r \<in> set (lc_recipients c)" c L]
      h f by (simp add: log_healthy_def log_commit_visible_iff [abs_def])
  ultimately show ?thesis
    by (simp add: log_pending_def cursor_of_update q log_of_def)
qed

lemma ack_log_frame:
  assumes "log_healthy g ds" and "r' \<noteq> r"
  shows "log_pending g (snd (ack_commit [g] ds r i)) r' = log_pending g ds r'"
  using assms
  by (auto simp: log_pending_def log_healthy_def ack_commit_def ack_group_log_commit_compat_def
      log_of_def cursor_of_update split: option.splits simp del: find_log_commit.simps)

interpretation group_log: head_mailbox "log_pending g" "fetch_next_pending_commit [g]" "ack_commit [g]"
  cd_id "log_healthy g"
proof unfold_locales
  fix ds :: DeliveryService and r r' i m q
  assume h: "log_healthy g ds"
  show "fetch_next_pending_commit [g] ds r = peek_front (log_pending g ds r)"
    by (rule fetch_log_pending [OF h])
  show "fst (ack_commit [g] ds r (cd_id m)) \<and> log_pending g (snd (ack_commit [g] ds r (cd_id m))) r = q"
    if "log_pending g ds r = m # q" by (rule ack_log_head [OF h that])
  show "log_pending g (snd (ack_commit [g] ds r i)) r' = log_pending g ds r'" if "r' \<noteq> r"
    by (rule ack_log_frame [OF h that])
  show "log_healthy g (snd (ack_commit [g] ds r i))"
    using h by (simp add: log_healthy_def log_of_def)
qed

section \<open>The two modes deliver the same commits\<close>

text \<open>The calls of the members of one group; a receive fetches the next commit and acknowledges it.\<close>

datatype member_op =
    MPut u64 "string list"
  | MCommit string u64 bytes
  | MReceive string

fun member_exec :: "string \<Rightarrow> DeliveryService \<Rightarrow> member_op
    \<Rightarrow> (unit result + CommitDeliveryRecord option) \<times> DeliveryService" where
  "member_exec g ds (MPut e ms) = apfst Inl (put_group_state ds g e ms)"
| "member_exec g ds (MCommit s e b) = apfst Inl (publish_group_commit ds g s e b)"
| "member_exec g ds (MReceive r) =
     (case fetch_next_pending_commit [g] ds r of
        None \<Rightarrow> (Inr None, ds)
      | Some d \<Rightarrow> (Inr (Some d), snd (ack_commit [g] ds r (cd_id d))))"

fun member_run :: "string \<Rightarrow> DeliveryService \<Rightarrow> member_op list
    \<Rightarrow> (unit result + CommitDeliveryRecord option) list" where
  "member_run g ds [] = []"
| "member_run g ds (x # xs) =
     (case member_exec g ds x of (out, ds') \<Rightarrow> out # member_run g ds' xs)"

fun sane_member_op :: "member_op \<Rightarrow> bool" where
  "sane_member_op (MPut e ms) = distinct ms"
| "sane_member_op (MCommit s e b) = (e \<noteq> - 1)"
| "sane_member_op (MReceive r) = True"

text \<open>The simulation relation between a per-recipient service and a group-log service.\<close>

definition modes_related :: "string \<Rightarrow> DeliveryService \<Rightarrow> DeliveryService \<Rightarrow> bool" where
  "modes_related g ds ls \<longleftrightarrow>
     delivery_mode ds = PerRecipient \<and> inbox_inv ds \<and> groups ds = groups ls \<and> log_healthy g ls \<and>
     (\<forall>r. inbox ds r = log_pending g ls r) \<and>
     (groups ls g = None \<longrightarrow> log_of g ls = []) \<and>
     (\<forall>c \<in> set (log_of g ls). \<forall>st. groups ls g = Some st \<longrightarrow> lc_epoch c \<le> current_epoch st) \<and>
     (\<forall>r. cursor_of ls r g = 0 \<or> cursor_of ls r g \<in> lc_epoch ` set (log_of g ls))"


lemma modes_relatedD:
  assumes "modes_related g ds ls"
  shows "delivery_mode ds = PerRecipient" "delivery_mode ls = GroupLog" "inbox_inv ds"
    "groups ds = groups ls" "log_healthy g ls" "inbox ds r = log_pending g ls r"
    "groups ls g = None \<Longrightarrow> log_of g ls = []"
    "c \<in> set (log_of g ls) \<Longrightarrow> groups ls g = Some st \<Longrightarrow> lc_epoch c \<le> current_epoch st"
    "cursor_of ls r g = 0 \<or> cursor_of ls r g \<in> lc_epoch ` set (log_of g ls)"
  using assms by (auto simp: modes_related_def log_healthy_def)

lemma log_frame [simp]:
  "log_of g (ls\<lparr>groups := x\<rparr>) = log_of g ls" "log_of g (ls\<lparr>commit_cursors := y\<rparr>) = log_of g ls"
  "cursor_of (ls\<lparr>groups := x\<rparr>) r g = cursor_of ls r g"
  "log_pending g (ls\<lparr>groups := x\<rparr>) r = log_pending g ls r"
  "log_healthy g (ls\<lparr>groups := x\<rparr>) = log_healthy g ls"
  by (simp_all add: log_of_def cursor_of_def log_pending_def log_healthy_def)

lemma related_put:
  assumes R: "modes_related g ds ls" and ms: "distinct ms"
  shows "fst (put_group_state ds g e ms) = fst (put_group_state ls g e ms) \<and>
    modes_related g (snd (put_group_state ds g e ms)) (snd (put_group_state ls g e ms))"
proof -
  have "inbox_inv (snd (put_group_state ds g e ms))"
    by (rule inbox_inv_put [OF modes_relatedD(3) [OF R] ms])
  then show ?thesis
    using R by (cases "groups ls g")
      (auto simp: modes_related_def put_group_state_def split: if_splits)
qed

lemma related_publish:
  assumes R: "modes_related g ds ls" and e: "e \<noteq> - 1"
  shows "fst (publish_group_commit ds g s e b) = fst (publish_group_commit ls g s e b) \<and>
    modes_related g (snd (publish_group_commit ds g s e b)) (snd (publish_group_commit ls g s e b))"
proof (cases "\<exists>st. groups ls g = Some st \<and> current_epoch st = e")
  case False
  then show ?thesis using R modes_relatedD(4) [OF R]
    by (cases "groups ls g") (auto simp: publish_group_commit_def accept_commit_def)
next
  case True
  then obtain st where st: "groups ls g = Some st" "current_epoch st = e" by blast
  note D = modes_relatedD [OF R]
  let ?c = "\<lparr>lc_epoch = e + 1, lc_sender = s, lc_recipients = members st, lc_bytes = b\<rparr>"
  let ?ds = "snd (publish_group_commit ds g s e b)" and ?ls = "snd (publish_group_commit ls g s e b)"
  have "publish_group_commit ls g s e b = (Inr (), ls
      \<lparr>groups := (groups ls)(g \<mapsto> st\<lparr>current_epoch := e + 1\<rparr>),
       group_commit_log := (group_commit_log ls)(g \<mapsto> log_of g ls @ [?c])\<rparr>)"
    using st D(2) by (simp add: publish_group_commit_def accept_commit_def deliver_commit_def log_of_def)
  then have pub: "fst (publish_group_commit ls g s e b) = Inr ()"
    and log: "log_of g ?ls = log_of g ls @ [?c]" and mode: "delivery_mode ?ls = GroupLog"
    and grp: "groups ?ls = (groups ls)(g \<mapsto> st\<lparr>current_epoch := e + 1\<rparr>)"
    and cur: "cursor_of ?ls r g = cursor_of ls r g" for r
    using D(2) by (simp_all add: log_of_def cursor_of_def)
  have lt: "lc_epoch c < e + 1" if "c \<in> set (log_of g ls)" for c
    using D(8) [OF that st(1)] st(2) word_less_Suc [OF e] by simp
  have vis: "cursor_of ls r g < e + 1" for r
    using D(9) [of r] lt word_less_Suc [OF e] by (auto simp: word_gt_0)
  have pend: "log_pending g ?ls r = log_pending g ls r @
      (if r \<in> set (members st) then [commit_record g (e + 1) s b r] else [])" for r
    using vis [of r] by (simp add: log_pending_def log cur log_commit_visible_iff log_record_def)
  have st': "groups ds g = Some st" using st D(4) by simp
  have ms: "distinct (members st)" by (rule inbox_invD(1) [OF D(3) st'])
  have box: "inbox ?ds r = log_pending g ?ls r" for r
    using publish_per_recipient [OF D(1) st' st(2), of s b r] filter_eq_if [OF ms, of r] D(6) [of r]
    by (simp add: pend)
  have "log_healthy g ?ls"
    using D(5) lt by (auto simp: log_healthy_def mode log sorted_wrt_append)
  moreover have "fst (publish_group_commit ds g s e b) = Inr ()" "groups ?ds = groups ?ls"
    "delivery_mode ?ds = PerRecipient"
    using st' st(2) D(1,4) grp by (simp_all add: publish_group_commit_def accept_commit_def)
  moreover have "\<forall>c \<in> set (log_of g ?ls). \<forall>st'. groups ?ls g = Some st' \<longrightarrow> lc_epoch c \<le> current_epoch st'"
    using lt by (auto simp: log grp intro: less_imp_le)
  moreover have "\<forall>r. cursor_of ?ls r g = 0 \<or> cursor_of ?ls r g \<in> lc_epoch ` set (log_of g ?ls)"
    using D(9) by (auto simp: log cur)
  ultimately show ?thesis
    using inbox_inv_publish [OF D(3) e, of g s b] box pub grp by (simp add: modes_related_def)
qed

lemma related_ids:
  assumes R: "modes_related g ds ls"
  shows "distinct (map cd_id (inbox ds r))"
proof -
  note D = modes_relatedD [OF R]
  have "distinct (map lc_epoch (log_of g ls))"
    using D(5) by (simp add: log_healthy_def strict_sorted_iff)
  then have "distinct (map cd_id (log_pending g ls r))"
    by (auto simp: log_pending_def log_record_def comp_def distinct_map inj_on_def
        commit_delivery_id_same_group)
  then show ?thesis using D(6) [of r] by simp
qed

lemma find_log_commit_in:
  assumes "find_log_commit ds r i [g] = Some p"
  shows "\<exists>c. find_log_commit ds r i [g] = Some (g, c) \<and> c \<in> set (log_of g ds)"
  using assms by (auto simp: log_of_def find_Some_iff split: option.splits)

lemma ack_cursor_in_log:
  assumes "delivery_mode ls = GroupLog"
  shows "cursor_of (snd (ack_commit [g] ls r i)) r' g = cursor_of ls r' g \<or>
    cursor_of (snd (ack_commit [g] ls r i)) r' g \<in> lc_epoch ` set (log_of g ls)"
proof (cases "find_log_commit ls r i [g]")
  case None
  then show ?thesis using assms
    by (simp add: ack_commit_def ack_group_log_commit_compat_def del: find_log_commit.simps)
next
  case (Some p)
  obtain c where "find_log_commit ls r i [g] = Some (g, c)" and "c \<in> set (log_of g ls)"
    using find_log_commit_in [OF Some] by blast
  then show ?thesis using assms
    by (simp add: ack_commit_def ack_group_log_commit_compat_def cursor_of_update max_def
        del: find_log_commit.simps)
qed

lemma related_receive:
  assumes R: "modes_related g ds ls"
  shows "fst (member_exec g ds (MReceive r)) = fst (member_exec g ls (MReceive r)) \<and>
    modes_related g (snd (member_exec g ds (MReceive r))) (snd (member_exec g ls (MReceive r)))"
proof -
  note D = modes_relatedD [OF R]
  have f: "fetch_next_pending_commit [g] ds r = peek_front (inbox ds r)"
    "fetch_next_pending_commit [g] ls r = peek_front (inbox ds r)"
    using per_recipient.fetch_front [OF D(1), of "[g]" r] group_log.fetch_pending [OF D(5), of r] D(6) [of r]
    by simp_all
  show ?thesis
  proof (cases "inbox ds r")
    case Nil
    then show ?thesis using R by (simp add: f)
  next
    case (Cons d q)
    let ?ds = "snd (ack_commit [g] ds r (cd_id d))" and ?ls = "snd (ack_commit [g] ls r (cd_id d))"
    have p: "log_pending g ls r = d # q" using Cons D(6) [of r] by simp
    have ids: "distinct (map cd_id (inbox ds r))" by (rule related_ids [OF R])
    have "inbox ?ds r' = log_pending g ?ls r'" for r'
      using per_recipient.ack_head [OF D(1) Cons ids, of "[g]"] ack_log_head [OF D(5) p]
        per_recipient.ack_frame [OF D(1), of r' r "[g]" "cd_id d"]
        group_log.ack_frame [OF D(5), of r' r "cd_id d"] D(6) [of r']
      by (cases "r' = r") simp_all
    moreover have "inbox_inv ?ds"
      using inbox_inv_step [OF D(3), of "AckCommit [g] r (cd_id d)"] by (simp add: ds_step_def)
    moreover have "\<forall>r'. cursor_of ?ls r' g = 0 \<or> cursor_of ?ls r' g \<in> lc_epoch ` set (log_of g ?ls)"
      using ack_cursor_in_log [OF D(2), of g r "cd_id d"] D(9) by (simp add: log_of_def) metis
    ultimately show ?thesis
      using R Cons group_log.ack_healthy [OF D(5), of r "cd_id d"]
      by (simp add: f modes_related_def log_of_def)
  qed
qed

lemma related_init:
  "modes_related g (with_delivery_mode m PerRecipient) (with_delivery_mode m' GroupLog)"
proof -
  have "inbox_inv (with_delivery_mode m PerRecipient)" by (rule inbox_inv_init)
  then show ?thesis
    by (simp add: modes_related_def log_healthy_def log_of_def log_pending_def cursor_of_def
        inbox_def with_delivery_mode_def)
qed

lemma related_exec:
  assumes "modes_related g ds ls" and "sane_member_op x"
  shows "fst (member_exec g ds x) = fst (member_exec g ls x) \<and>
    modes_related g (snd (member_exec g ds x)) (snd (member_exec g ls x))"
proof (cases x)
  case (MPut e ms)
  then show ?thesis using related_put [OF assms(1), of ms e] assms(2) by simp
next
  case (MCommit s e b)
  then show ?thesis using related_publish [OF assms(1), of e s b] assms(2) by simp
next
  case (MReceive r)
  then show ?thesis using related_receive [OF assms(1), of r] by simp
qed

lemma related_run:
  "modes_related g ds ls \<Longrightarrow> list_all sane_member_op ops \<Longrightarrow> member_run g ds ops = member_run g ls ops"
proof (induction ops arbitrary: ds ls)
  case (Cons x xs)
  then show ?case using related_exec [OF Cons.prems(1), of x] by (simp add: split_beta)
qed simp


definition demo_member_ops :: "member_op list" where
  "demo_member_ops = [MPut 0 [''a'', ''b''], MCommit ''a'' 0 [7], MReceive ''b'',
     MCommit ''b'' 1 [8], MReceive ''a'', MReceive ''a'', MReceive ''a'']"


section \<open>The pending-commits query\<close>

lemma pending_commits_group:
  "c \<in> set (pending_commits_of hex ds client k g) \<Longrightarrow> pc_group_id c = g"
  by (auto simp: pending_commits_of_def)

text \<open>Only one group contributes the commits of one sort key, so the order of the groups is lost.\<close>

lemma filter_pending_concat:
  assumes "distinct order"
  shows "filter (\<lambda>c. (e, g) = (pc_epoch c, pc_group_id c))
      (concat (map (pending_commits_of hex ds client k) order)) =
    (if g \<in> set order then filter (\<lambda>c. e = pc_epoch c) (pending_commits_of hex ds client k g) else [])"
  using assms
proof (induction order)
  case (Cons h order)
  have "filter (\<lambda>c. (e, g) = (pc_epoch c, pc_group_id c)) (pending_commits_of hex ds client k h) =
      (if h = g then filter (\<lambda>c. e = pc_epoch c) (pending_commits_of hex ds client k g) else [])"
    by (auto simp: filter_empty_conv dest: pending_commits_group intro!: filter_cong)
  then show ?case using Cons by auto
qed simp

lemma concat_map_mset:
  "mset xs = mset ys \<Longrightarrow> mset (concat (map f xs)) = mset (concat (map f ys))"
proof -
  have "mset (concat (map f zs)) = (\<Sum>z\<in>#mset zs. mset (f z))" for zs
    by (induction zs) auto
  then show "mset xs = mset ys \<Longrightarrow> ?thesis" by simp
qed

lemma filter_sort_key_stable: "filter (\<lambda>x. k = f x) (sort_key f xs) = filter (\<lambda>x. k = f x) xs"
  by (simp add: eq_commute [of k] sort_key_stable)

lemma fetch_pending_commits_perm:
  assumes "distinct order" and "distinct order'" and "set order = set order'"
  shows "fetch_pending_commits hex order ds client k = fetch_pending_commits hex order' ds client k"
  unfolding fetch_pending_commits_def
proof (rule properties_for_sort_key)
  let ?f = "\<lambda>c. (pc_epoch c, pc_group_id c)"
  let ?c = "\<lambda>order. concat (map (pending_commits_of hex ds client k) order)"
  have "mset order = mset order'" using assms by (simp add: set_eq_iff_mset_eq_distinct)
  then show "mset (sort_key ?f (?c order')) = mset (?c order)"
    by (simp add: concat_map_mset [of order order'])
  show "filter (\<lambda>x. ?f c = ?f x) (sort_key ?f (?c order')) = filter (\<lambda>x. ?f c = ?f x) (?c order)" for c
    using filter_pending_concat [OF assms(1), of "pc_epoch c" "pc_group_id c" hex ds client k]
      filter_pending_concat [OF assms(2), of "pc_epoch c" "pc_group_id c" hex ds client k] assms(3)
    by (simp only: filter_sort_key_stable)
  show "sorted (map ?f (sort_key ?f (?c order')))" by simp
qed

text \<open>
  The pending-commits query returns the commits of the log that are newer than the
  given epoch and addressed to the client, sorted by epoch and then by group; the answer
  does not depend on the order in which the hash map of the log is visited.
\<close>

theorem fetch_pending_commits_deterministic:
  assumes "distinct order" and "set order = dom (group_commit_log ds)"
    and "distinct order'" and "set order' = dom (group_commit_log ds)"
  shows "fetch_pending_commits hex order ds client k = fetch_pending_commits hex order' ds client k \<and>
    sorted (map (\<lambda>c. (pc_epoch c, pc_group_id c)) (fetch_pending_commits hex order ds client k)) \<and>
    set (fetch_pending_commits hex order ds client k) =
      {\<lparr>pc_group_id = g, pc_epoch = lc_epoch c, pc_sender = lc_sender c, pc_commit_hex = hex (lc_bytes c)\<rparr>
        | g c. c \<in> set (log_of g ds) \<and> k < lc_epoch c \<and> client \<in> set (lc_recipients c)}"
proof (intro conjI)
  show "fetch_pending_commits hex order ds client k = fetch_pending_commits hex order' ds client k"
    by (rule fetch_pending_commits_perm) (use assms in auto)
  show "sorted (map (\<lambda>c. (pc_epoch c, pc_group_id c)) (fetch_pending_commits hex order ds client k))"
    by (simp add: fetch_pending_commits_def)
  have "g \<in> set order" if "c \<in> set (log_of g ds)" for g c
    using that assms(2) by (auto simp: log_of_def queue_of_def split: option.splits)
  then show "set (fetch_pending_commits hex order ds client k) =
      {\<lparr>pc_group_id = g, pc_epoch = lc_epoch c, pc_sender = lc_sender c, pc_commit_hex = hex (lc_bytes c)\<rparr>
        | g c. c \<in> set (log_of g ds) \<and> k < lc_epoch c \<and> client \<in> set (lc_recipients c)}"
    by (fastforce simp: fetch_pending_commits_def pending_commits_of_def log_commit_visible_iff log_of_def)
qed

definition demo_log :: DeliveryService where
  "demo_log = run_ops ds_step (with_delivery_mode (service_metrics_new None) GroupLog)
     [PutGroupState ''h'' 3 [''a''], PutGroupState ''g'' 3 [''a''],
      PublishGroupCommit ''h'' ''a'' 3 [1], PublishGroupCommit ''g'' ''a'' 3 [2]]"

theorem fetch_pending_commits_deterministic_witness:
  "dom (group_commit_log demo_log) = {''g'', ''h''} \<and>
   map pc_group_id (fetch_pending_commits (\<lambda>_. ''00'') [''h'', ''g''] demo_log ''a'' 0) = [''g'', ''h''] \<and>
   fetch_pending_commits (\<lambda>_. ''00'') [''h'', ''g''] demo_log ''a'' 0 =
     fetch_pending_commits (\<lambda>_. ''00'') [''g'', ''h''] demo_log ''a'' 0"
proof -
  have d: "dom (group_commit_log demo_log) = {''g'', ''h''}"
    by (auto simp: demo_log_def with_delivery_mode_def ds_step_def put_group_state_def
        publish_group_commit_def accept_commit_def deliver_commit_def split: if_splits)
  have "map pc_group_id (fetch_pending_commits (\<lambda>_. ''00'') [''h'', ''g''] demo_log ''a'' 0) = [''g'', ''h'']"
    by code_simp
  then show ?thesis
    using fetch_pending_commits_deterministic [of "[''h'', ''g'']" demo_log "[''g'', ''h'']"
        "\<lambda>_. ''00''" "''a''" 0] d by auto
qed

end
