(* ===== verification/Delivery_Http.thy ===== *)
theory Delivery_Http
  imports Delivery_Modes
begin

text \<open>
  The HTTP handlers of the delivery service (\<^verbatim>\<open>src/OpenMLS_containerized/src/bin/ds.rs\<close>).
  Each handler opens a metrics guard for its endpoint, calls the service, closes the guard
  with the response status and answers. The decoding of paths and JSON bodies is done by the web
  framework: a request is a value of \<open>ds_request\<close>. The elapsed time of a request is an
  argument, as is the order in which the group log is visited.
\<close>

section \<open>Handlers\<close>

datatype ds_body =
    NoBody
  | TextBody string
  | OctetBody bytes
  | GroupStateBody string u64 "string list"
  | DeliveryBody PendingCommitDelivery
  | CommitsBody "PendingCommit list"

type_synonym ds_response = "nat \<times> ds_body"

text \<open>The metrics guard around the work of a handler.\<close>

definition guard_start :: "string \<Rightarrow> DeliveryService \<Rightarrow> DeliveryService" where
  "guard_start endpoint ds = ds\<lparr>ds_metrics := snd (metrics_start (ds_metrics ds) endpoint)\<rparr>"

definition guard_close :: "string \<Rightarrow> nat \<Rightarrow> ds_response \<times> DeliveryService \<Rightarrow> ds_response \<times> DeliveryService" where
  "guard_close endpoint latency x =
     (case x of (resp, ds) \<Rightarrow>
        (resp, ds\<lparr>ds_metrics := guard_finish_http_status (ds_metrics ds) endpoint latency (fst resp)\<rparr>))"

definition guard_close_ok :: "string \<Rightarrow> nat \<Rightarrow> DeliveryService \<Rightarrow> ds_response \<times> DeliveryService" where
  "guard_close_ok endpoint latency ds =
     ((200, NoBody), ds\<lparr>ds_metrics := guard_finish (ds_metrics ds) endpoint latency False\<rparr>)"

definition bytes_or_404 :: "bytes option \<Rightarrow> ds_response" where
  "bytes_or_404 r = (case r of Some b \<Rightarrow> (200, OctetBody b) | None \<Rightarrow> (404, NoBody))"

definition ok_or_conflict :: "unit result \<Rightarrow> ds_response" where
  "ok_or_conflict r = (case r of Inr _ \<Rightarrow> (200, NoBody) | Inl message \<Rightarrow> (409, TextBody message))"

definition http_publish_key_package ::
  "nat \<Rightarrow> DeliveryService \<Rightarrow> string \<Rightarrow> bytes \<Rightarrow> ds_response \<times> DeliveryService" where
  "http_publish_key_package t ds owner body =
     guard_close_ok ''publish_key_package'' t
       (publish_key_package (guard_start ''publish_key_package'' ds) owner body)"

definition http_fetch_key_package ::
  "nat \<Rightarrow> DeliveryService \<Rightarrow> string \<Rightarrow> ds_response \<times> DeliveryService" where
  "http_fetch_key_package t ds owner =
     guard_close ''fetch_key_package'' t
       (apfst bytes_or_404 (fetch_key_package (guard_start ''fetch_key_package'' ds) owner))"

definition http_put_group_state ::
  "nat \<Rightarrow> DeliveryService \<Rightarrow> string \<Rightarrow> u64 \<Rightarrow> string list \<Rightarrow> ds_response \<times> DeliveryService" where
  "http_put_group_state t ds group_id epoch mems =
     guard_close ''put_group_state'' t
       (apfst ok_or_conflict (put_group_state (guard_start ''put_group_state'' ds) group_id epoch mems))"

definition http_get_group_state ::
  "nat \<Rightarrow> DeliveryService \<Rightarrow> string \<Rightarrow> ds_response \<times> DeliveryService" where
  "http_get_group_state t ds group_id =
     (let ds1 = guard_start ''get_group_state'' ds
      in guard_close ''get_group_state'' t
           (case get_group_state ds1 group_id of
              Some gi \<Rightarrow> (200, GroupStateBody group_id (gi_current_epoch gi) (gi_members gi))
            | None \<Rightarrow> (404, NoBody), ds1))"

definition http_publish_group_commit ::
  "nat \<Rightarrow> DeliveryService \<Rightarrow> string \<Rightarrow> string \<Rightarrow> u64 \<Rightarrow> bytes \<Rightarrow> ds_response \<times> DeliveryService" where
  "http_publish_group_commit t ds group_id sender epoch body =
     guard_close ''publish_group_commit'' t
       (apfst ok_or_conflict
          (publish_group_commit (guard_start ''publish_group_commit'' ds) group_id sender epoch body))"

definition http_fetch_commit ::
  "nat \<Rightarrow> string list \<Rightarrow> DeliveryService \<Rightarrow> string \<Rightarrow> ds_response \<times> DeliveryService" where
  "http_fetch_commit t order ds recipient =
     (let ds1 = guard_start ''fetch_commit'' ds
      in guard_close ''fetch_commit'' t (bytes_or_404 (fetch_commit order ds1 recipient), ds1))"

definition http_fetch_pending_commit ::
  "nat \<Rightarrow> (bytes \<Rightarrow> string) \<Rightarrow> string list \<Rightarrow> DeliveryService \<Rightarrow> string \<Rightarrow> ds_response \<times> DeliveryService" where
  "http_fetch_pending_commit t hex order ds recipient =
     (let ds1 = guard_start ''fetch_pending_commit'' ds
      in guard_close ''fetch_pending_commit'' t
           (case fetch_pending_commit_delivery hex order ds1 recipient of
              Some d \<Rightarrow> (200, DeliveryBody d) | None \<Rightarrow> (404, NoBody), ds1))"

definition http_ack_commit ::
  "nat \<Rightarrow> string list \<Rightarrow> DeliveryService \<Rightarrow> string \<Rightarrow> string \<Rightarrow> ds_response \<times> DeliveryService" where
  "http_ack_commit t order ds recipient delivery_id =
     guard_close ''ack_commit'' t
       (apfst (\<lambda>acked. if acked then (200, NoBody)
                       else (200, TextBody ''commit delivery was already acked or absent''))
          (ack_commit order (guard_start ''ack_commit'' ds) recipient delivery_id))"

text \<open>The query string: the last value of each key counts, parts without an equals sign are skipped.\<close>

fun parse_query_parts ::
  "string list \<Rightarrow> string option \<Rightarrow> u64 option \<Rightarrow> (string option \<times> u64 option) result" where
  "parse_query_parts [] client after_epoch = Inr (client, after_epoch)"
| "parse_query_parts (part # parts) client after_epoch =
     (case split_once ''='' part of
        None \<Rightarrow> parse_query_parts parts client after_epoch
      | Some (key, val) \<Rightarrow>
          if key = ''client'' then parse_query_parts parts (Some val) after_epoch
          else if key = ''after_epoch'' then
            (case parse_uint u64_max val of
               None \<Rightarrow> Inl (''Invalid after_epoch '' @ [CHR 0x27] @ val @ [CHR 0x27])
             | Some n \<Rightarrow> parse_query_parts parts client (Some (of_nat n)))
          else parse_query_parts parts client after_epoch)"

definition parse_pending_commits_query :: "string \<Rightarrow> (string \<times> u64) result" where
  "parse_pending_commits_query raw =
     (case parse_query_parts (split_on CHR ''&'' raw) None None of
        Inl e \<Rightarrow> Inl e
      | Inr (None, _) \<Rightarrow> Inl ''Missing required client query parameter''
      | Inr (Some client, after_epoch) \<Rightarrow>
          Inr (client, case after_epoch of Some e \<Rightarrow> e | None \<Rightarrow> 0))"

text \<open>The query string the worker sends (\<^verbatim>\<open>ds_get_pending_commits\<close>).\<close>

definition pending_commits_query :: "string \<Rightarrow> u64 \<Rightarrow> string" where
  "pending_commits_query client_id after_epoch =
     ''client='' @ client_id @ ''&after_epoch='' @ show_u64 after_epoch"

definition http_fetch_pending_commits ::
  "nat \<Rightarrow> (bytes \<Rightarrow> string) \<Rightarrow> string list \<Rightarrow> DeliveryService \<Rightarrow> string \<Rightarrow> ds_response \<times> DeliveryService" where
  "http_fetch_pending_commits t hex order ds query =
     (let ds1 = guard_start ''fetch_pending_commits'' ds
      in guard_close ''fetch_pending_commits'' t
           (case parse_pending_commits_query query of
              Inr (client, after_epoch) \<Rightarrow>
                (200, CommitsBody (fetch_pending_commits hex order ds1 client after_epoch))
            | Inl message \<Rightarrow> (400, TextBody message), ds1))"

definition http_publish_welcome ::
  "nat \<Rightarrow> DeliveryService \<Rightarrow> string \<Rightarrow> bytes \<Rightarrow> ds_response \<times> DeliveryService" where
  "http_publish_welcome t ds recipient body =
     guard_close_ok ''publish_welcome'' t (publish_welcome (guard_start ''publish_welcome'' ds) recipient body)"

definition http_fetch_welcome ::
  "nat \<Rightarrow> DeliveryService \<Rightarrow> string \<Rightarrow> ds_response \<times> DeliveryService" where
  "http_fetch_welcome t ds recipient =
     guard_close ''fetch_welcome'' t
       (apfst bytes_or_404 (fetch_welcome (guard_start ''fetch_welcome'' ds) recipient))"

definition http_publish_ratchet_tree ::
  "nat \<Rightarrow> DeliveryService \<Rightarrow> string \<Rightarrow> bytes \<Rightarrow> ds_response \<times> DeliveryService" where
  "http_publish_ratchet_tree t ds recipient body =
     guard_close_ok ''publish_ratchet_tree'' t
       (publish_ratchet_tree (guard_start ''publish_ratchet_tree'' ds) recipient body)"

definition http_fetch_ratchet_tree ::
  "nat \<Rightarrow> DeliveryService \<Rightarrow> string \<Rightarrow> ds_response \<times> DeliveryService" where
  "http_fetch_ratchet_tree t ds recipient =
     guard_close ''fetch_ratchet_tree'' t
       (apfst bytes_or_404 (fetch_ratchet_tree (guard_start ''fetch_ratchet_tree'' ds) recipient))"

section \<open>The router\<close>

datatype ds_request =
    PostKeyPackage string bytes
  | GetKeyPackage string
  | GetCommit string
  | GetPendingCommit string
  | PostCommitAck string string
  | GetPendingCommits string
  | PostWelcome string bytes
  | GetWelcome string
  | PostRatchetTree string bytes
  | GetRatchetTree string
  | PutGroup string u64 "string list"
  | GetGroup string
  | PostGroupCommit string string u64 bytes

fun ds_route :: "nat \<Rightarrow> (bytes \<Rightarrow> string) \<Rightarrow> string list \<Rightarrow> DeliveryService \<Rightarrow> ds_request
    \<Rightarrow> ds_response \<times> DeliveryService" where
  "ds_route t hex order ds (PostKeyPackage owner body) = http_publish_key_package t ds owner body"
| "ds_route t hex order ds (GetKeyPackage owner) = http_fetch_key_package t ds owner"
| "ds_route t hex order ds (GetCommit r) = http_fetch_commit t order ds r"
| "ds_route t hex order ds (GetPendingCommit r) = http_fetch_pending_commit t hex order ds r"
| "ds_route t hex order ds (PostCommitAck r i) = http_ack_commit t order ds r i"
| "ds_route t hex order ds (GetPendingCommits q) = http_fetch_pending_commits t hex order ds q"
| "ds_route t hex order ds (PostWelcome r body) = http_publish_welcome t ds r body"
| "ds_route t hex order ds (GetWelcome r) = http_fetch_welcome t ds r"
| "ds_route t hex order ds (PostRatchetTree r body) = http_publish_ratchet_tree t ds r body"
| "ds_route t hex order ds (GetRatchetTree r) = http_fetch_ratchet_tree t ds r"
| "ds_route t hex order ds (PutGroup g e ms) = http_put_group_state t ds g e ms"
| "ds_route t hex order ds (GetGroup g) = http_get_group_state t ds g"
| "ds_route t hex order ds (PostGroupCommit g s e body) = http_publish_group_commit t ds g s e body"

fun endpoint_of :: "ds_request \<Rightarrow> string" where
  "endpoint_of (PostKeyPackage _ _) = ''publish_key_package''"
| "endpoint_of (GetKeyPackage _) = ''fetch_key_package''"
| "endpoint_of (GetCommit _) = ''fetch_commit''"
| "endpoint_of (GetPendingCommit _) = ''fetch_pending_commit''"
| "endpoint_of (PostCommitAck _ _) = ''ack_commit''"
| "endpoint_of (GetPendingCommits _) = ''fetch_pending_commits''"
| "endpoint_of (PostWelcome _ _) = ''publish_welcome''"
| "endpoint_of (GetWelcome _) = ''fetch_welcome''"
| "endpoint_of (PostRatchetTree _ _) = ''publish_ratchet_tree''"
| "endpoint_of (GetRatchetTree _) = ''fetch_ratchet_tree''"
| "endpoint_of (PutGroup _ _ _) = ''put_group_state''"
| "endpoint_of (GetGroup _) = ''get_group_state''"
| "endpoint_of (PostGroupCommit _ _ _ _) = ''publish_group_commit''"

text \<open>A request handled to completion, with its latency and the visiting order; a log of responses.\<close>

type_synonym served = "ds_request \<times> nat \<times> string list"

fun ds_serve :: "(bytes \<Rightarrow> string) \<Rightarrow> DeliveryService \<Rightarrow> served list
    \<Rightarrow> (string \<times> nat) list \<times> DeliveryService" where
  "ds_serve hex ds [] = ([], ds)"
| "ds_serve hex ds ((req, t, order) # reqs) =
     (case ds_route t hex order ds req of (resp, ds') \<Rightarrow>
        (case ds_serve hex ds' reqs of (log, ds'') \<Rightarrow> ((endpoint_of req, fst resp) # log, ds'')))"

section \<open>Lemmas\<close>

text \<open>No operation of the service touches the metrics, and none reads them.\<close>

lemma push_all_metrics [simp]: "ds_metrics (push_all commit_inbox_push mk ds rs) = ds_metrics ds"
  by (induction rs arbitrary: ds) (simp_all add: push_all_def commit_inbox_push_def)

lemma ds_metrics_frame [simp]:
  "ds_metrics (publish_key_package ds a b) = ds_metrics ds"
  "ds_metrics (snd (fetch_key_package ds a)) = ds_metrics ds"
  "ds_metrics (snd (put_group_state ds g e ms)) = ds_metrics ds"
  "ds_metrics (snd (publish_group_commit ds g s e b)) = ds_metrics ds"
  "ds_metrics (snd (ack_commit order ds r i)) = ds_metrics ds"
  "ds_metrics (publish_welcome ds r b) = ds_metrics ds"
  "ds_metrics (snd (fetch_welcome ds r)) = ds_metrics ds"
  "ds_metrics (publish_ratchet_tree ds r b) = ds_metrics ds"
  "ds_metrics (snd (fetch_ratchet_tree ds r)) = ds_metrics ds"
  by (auto simp: publish_key_package_def fetch_key_package_def put_group_state_def
      publish_group_commit_def accept_commit_def deliver_commit_def ack_commit_def
      ack_commit_inbox_def ack_group_log_commit_compat_def publish_welcome_def fetch_welcome_def
      publish_ratchet_tree_def fetch_ratchet_tree_def Let_def
      split: option.splits CommitDeliveryMode.splits prod.splits)

lemma guard_start_metrics [simp]:
  "ds_metrics (guard_start e ds) = snd (metrics_start (ds_metrics ds) e)"
  by (simp add: guard_start_def)

lemmas http_defs = http_publish_key_package_def http_fetch_key_package_def http_put_group_state_def
  http_get_group_state_def http_publish_group_commit_def http_fetch_commit_def
  http_fetch_pending_commit_def http_ack_commit_def http_fetch_pending_commits_def
  http_publish_welcome_def http_fetch_welcome_def http_publish_ratchet_tree_def
  http_fetch_ratchet_tree_def

text \<open>Every route is one start and one finish of its endpoint, with the status it answers.\<close>

lemma route_metrics:
  "ds_metrics (snd (ds_route t hex order ds req)) =
     metrics_finish (snd (metrics_start (ds_metrics ds) (endpoint_of req))) (endpoint_of req) t
       (Some (fst (fst (ds_route t hex order ds req))))"
  by (cases req) (simp_all add: http_defs guard_close_def guard_close_ok_def guard_finish_def
      guard_finish_http_status_def Let_def split_beta)

lemma route_status: "fst (fst (ds_route t hex order ds req)) \<in> {200, 400, 404, 409}"
  by (cases req) (simp_all add: http_defs guard_close_def guard_close_ok_def Let_def split_beta
      bytes_or_404_def ok_or_conflict_def split: option.splits sum.splits)

lemma entry_after_request:
  "endpoint_entry (metrics_finish (snd (metrics_start m e)) e t (Some st)) e' =
     (if e' = e then
        (endpoint_entry (metrics_finish (snd (metrics_start m e)) e t (Some st)) e)
      else endpoint_entry m e')"
  by (auto simp: endpoint_entry_def metrics_finish_def metrics_start_def Let_def)

lemma counters_after_request:
  fixes m e t st
  defines "x \<equiv> endpoint_entry (metrics_finish (snd (metrics_start m e)) e t (Some st)) e"
  shows "in_flight x = in_flight (endpoint_entry m e)"
    "request_count x = request_count (endpoint_entry m e) + 1"
    "error_count x = error_count (endpoint_entry m e) + (if 200 \<le> st \<and> st < 300 then 0 else 1)"
    "not_found_count x = not_found_count (endpoint_entry m e) + (if st = 404 then 1 else 0)"
  unfolding x_def
  by (simp_all add: endpoint_entry_def metrics_finish_def metrics_start_def Let_def count_status_def
      in_range_def split: option.splits)

lemma entry_after_other_request:
  "e' \<noteq> e \<Longrightarrow> endpoint_entry (metrics_finish (snd (metrics_start m e)) e t (Some st)) e' =
     endpoint_entry m e'"
  by (simp add: entry_after_request)

lemma serve_counts:
  fixes hex ds reqs e
  defines "log \<equiv> filter (\<lambda>(e', st). e' = e) (fst (ds_serve hex ds reqs))"
  defines "x \<equiv> endpoint_entry (ds_metrics ds) e"
  defines "y \<equiv> endpoint_entry (ds_metrics (snd (ds_serve hex ds reqs))) e"
  shows "in_flight y = in_flight x \<and> request_count y = request_count x + length log \<and>
    error_count y = error_count x + length (filter (\<lambda>(e', st). \<not> (200 \<le> st \<and> st < 300)) log) \<and>
    not_found_count y = not_found_count x + length (filter (\<lambda>(e', st). st = 404) log)"
  unfolding log_def x_def y_def
proof (induction reqs arbitrary: ds)
  case (Cons q reqs)
  obtain req t order where q: "q = (req, t, order)" by (cases q)
  obtain resp ds' where r: "ds_route t hex order ds req = (resp, ds')" by fastforce
  have m: "ds_metrics ds' = metrics_finish (snd (metrics_start (ds_metrics ds) (endpoint_of req)))
      (endpoint_of req) t (Some (fst resp))"
    using route_metrics [of t hex order ds req] r by simp
  note IH = Cons.IH [of ds']
  show ?case
  proof (cases "endpoint_of req = e")
    case True
    then show ?thesis using IH r counters_after_request [of "ds_metrics ds" e t "fst resp"]
      by (simp add: q split_beta m)
  next
    case False
    then show ?thesis using IH r entry_after_other_request [of e "endpoint_of req" "ds_metrics ds" t "fst resp"]
      by (simp add: q split_beta m)
  qed
qed simp

text \<open>
  Every request handled to completion is accounted for exactly once on its endpoint:
  from a fresh service, no request is left in flight, the request counter is the number of
  requests answered, the error counter the number of answers outside 2xx, the not-found
  counter the number of 404 answers.
\<close>

theorem served_requests_accounted:
  "let (log, ds) = ds_serve hex (delivery_service_new (service_metrics_new env) mode) reqs;
       x = endpoint_entry (ds_metrics ds) e;
       mine = filter (\<lambda>(e', st). e' = e) log
   in in_flight x = 0 \<and> request_count x = length mine \<and>
      error_count x = length (filter (\<lambda>(e', st). \<not> (200 \<le> st \<and> st < 300)) mine) \<and>
      not_found_count x = length (filter (\<lambda>(e', st). st = 404) mine)"
proof -
  have "endpoint_entry (ds_metrics (delivery_service_new (service_metrics_new env) mode)) e =
      endpoint_metrics_default"
    by (simp add: delivery_service_new_def with_delivery_mode_def endpoint_entry_def
        service_metrics_new_def Let_def)
  then show ?thesis
    using serve_counts [where hex = hex and reqs = reqs and e = e
        and ds = "delivery_service_new (service_metrics_new env) mode"]
    by (simp add: split_beta Let_def endpoint_metrics_default_def)
qed

text \<open>
  The client of the pending-commits query: for a client name without separators
  and any 64-bit epoch, the query string the worker builds is parsed back to that client and
  epoch.
\<close>

theorem pending_commits_query_roundtrip:
  assumes "CHR ''&'' \<notin> set client"
  shows "parse_pending_commits_query (pending_commits_query client e) = Inr (client, e)"
proof -
  have amp: "CHR ''&'' \<notin> set (show_u64 e)"
    by (rule show_nat_no_char) (simp add: is_ascii_digit_def)
  have "split_on CHR ''&'' ((''client='' @ client) @ CHR ''&'' # (''after_epoch='' @ show_u64 e)) =
      (''client='' @ client) # split_on CHR ''&'' (''after_epoch='' @ show_u64 e)"
    using assms by (intro split_on_append) simp
  also have "split_on CHR ''&'' (''after_epoch='' @ show_u64 e) = [''after_epoch='' @ show_u64 e]"
    using amp by (intro split_on_no_sep) simp
  finally have parts: "split_on CHR ''&'' (''client='' @ client @ ''&after_epoch='' @ show_u64 e) =
      [''client='' @ client, ''after_epoch='' @ show_u64 e]" by simp
  have "split_once ''='' (''client='' @ client) = Some (''client'', client)"
    using split_once_char [of "CHR ''=''" "''client''" client] by simp
  moreover have "split_once ''='' (''after_epoch='' @ show_u64 e) = Some (''after_epoch'', show_u64 e)"
    using split_once_char [of "CHR ''=''" "''after_epoch''" "show_u64 e"] by simp
  ultimately show ?thesis
    unfolding parse_pending_commits_query_def pending_commits_query_def parts
    by (simp add: parse_uint_show_nat del: split_once.simps)
qed

theorem pending_commits_query_roundtrip_witness:
  "CHR ''&'' \<notin> set ''alice'' \<and>
   parse_pending_commits_query (pending_commits_query ''alice'' 12) = Inr (''alice'', 12)"
proof -
  have "CHR ''&'' \<notin> set ''alice''" by simp
  from this pending_commits_query_roundtrip [OF this, of 12] show ?thesis by blast
qed

end
