(* ===== verification/Delivery_Concurrency.thy ===== *)
theory Delivery_Concurrency
  imports Delivery_Service
begin

text \<open>
  Concurrent publications in the per-recipient mode. \<^verbatim>\<open>publish_group_commit\<close> of
  \<^verbatim>\<open>src/OpenMLS_containerized/src/delivery_service.rs\<close> holds the lock of the groups only
  while it compares and advances the epoch; it then pushes to one inbox after the other, each push
  under the lock of that inbox alone. A publication is therefore an accept step followed by
  one push step per recipient, and the steps of different publications interleave.
  The relation \<open>cstep\<close> is that interleaving; \<open>history\<close> and \<open>acked\<close> are ghost fields that record
  what was accepted and acknowledged.
\<close>

record publication =
  pb_group :: string
  pb_sender :: string
  pb_epoch :: u64
  pb_bytes :: bytes
  pb_recipients :: "string list"

record csys =
  service :: DeliveryService
  running :: "publication list"
  history :: "publication list"
  acked :: "string \<Rightarrow> CommitDeliveryRecord multiset"

definition record_for :: "publication \<Rightarrow> string \<Rightarrow> CommitDeliveryRecord" where
  "record_for p r = commit_record (pb_group p) (pb_epoch p + 1) (pb_sender p) (pb_bytes p) r"

inductive cstep :: "csys \<Rightarrow> csys \<Rightarrow> bool" where
  put: "put_group_state (service c) g e ms = (res, ds') \<Longrightarrow> cstep c (c\<lparr>service := ds'\<rparr>)"
| accept: "accept_commit (service c) g e = (Inr rs, ds') \<Longrightarrow>
    p = \<lparr>pb_group = g, pb_sender = s, pb_epoch = e, pb_bytes = b, pb_recipients = rs\<rparr> \<Longrightarrow>
    cstep c (c\<lparr>service := ds', running := running c @ [p], history := history c @ [p]\<rparr>)"
| push: "running c = ps @ p # qs \<Longrightarrow> pb_recipients p = r # rs \<Longrightarrow>
    cstep c (c\<lparr>service := commit_inbox_push (service c) r (record_for p r),
               running := ps @ p\<lparr>pb_recipients := rs\<rparr> # qs\<rparr>)"
| finish: "running c = ps @ p # qs \<Longrightarrow> pb_recipients p = [] \<Longrightarrow> cstep c (c\<lparr>running := ps @ qs\<rparr>)"
| ack: "ack_commit_inbox (service c) r i = (res, ds') \<Longrightarrow>
    cstep c (c\<lparr>service := ds',
               acked := (acked c)(r := acked c r + mset (filter (\<lambda>d. cd_id d = i) (inbox (service c) r)))\<rparr>)"

inductive creach :: "csys \<Rightarrow> csys \<Rightarrow> bool" where
  start: "creach c c"
| more: "creach c c' \<Longrightarrow> cstep c' c'' \<Longrightarrow> creach c c''"

inductive_cases cstepE: "cstep c c'"

definition cinit :: "ServiceMetrics \<Rightarrow> csys" where
  "cinit m = \<lparr>service = with_delivery_mode m PerRecipient, running = [], history = [], acked = (\<lambda>_. {#})\<rparr>"

text \<open>The records a publication owes to a recipient.\<close>

definition owed :: "publication list \<Rightarrow> string \<Rightarrow> CommitDeliveryRecord multiset" where
  "owed ps r = (\<Sum>p\<in>#mset ps. mset (map (record_for p) (filter (\<lambda>x. x = r) (pb_recipients p))))"

lemma owed_simps [simp]:
  "owed [] r = {#}" "owed (ps @ qs) r = owed ps r + owed qs r"
  "owed (p # qs) r = mset (map (record_for p) (filter (\<lambda>x. x = r) (pb_recipients p))) + owed qs r"
  by (simp_all add: owed_def)

section \<open>No commit is lost or duplicated\<close>

definition balanced :: "csys \<Rightarrow> bool" where
  "balanced c \<longleftrightarrow>
     (\<forall>r. mset (inbox (service c) r) + acked c r + owed (running c) r = owed (history c) r)"

lemma put_inbox: "put_group_state ds g e ms = (res, ds') \<Longrightarrow> inbox ds' r = inbox ds r"
  by (auto simp: put_group_state_def split: option.splits if_splits)

lemma accept_inbox: "accept_commit ds g e = (x, ds') \<Longrightarrow> inbox ds' r = inbox ds r"
  by (auto simp: accept_commit_def split: option.splits if_splits)

lemma record_for_update [simp]: "record_for (p\<lparr>pb_recipients := rs\<rparr>) = record_for p"
  by (simp add: record_for_def fun_eq_iff)

lemma inbox_init [simp]: "inbox (with_delivery_mode m mode) r = []"
  by (simp add: inbox_def with_delivery_mode_def)

lemma balanced_step: "cstep c c' \<Longrightarrow> balanced c \<Longrightarrow> balanced c'"
proof (induction rule: cstep.induct)
  case (put c g e ms res ds')
  then show ?case by (simp add: balanced_def put_inbox)
next
  case (accept c g e rs ds' p s b)
  then show ?case by (simp add: balanced_def accept_inbox add.assoc [symmetric])
next
  case (push c ps p qs r rs)
  then have bal: "mset (inbox (service c) x) + acked c x + (owed ps x +
      (mset (map (record_for p) (filter (\<lambda>y. y = x) (r # rs))) + owed qs x)) = owed (history c) x" for x
    by (simp add: balanced_def)
  show ?case unfolding balanced_def
    apply (rule allI)
    subgoal for x using bal [of x] by (cases "x = r") (simp_all add: ac_simps)
    done
next
  case (finish c ps p qs)
  then show ?case by (simp add: balanced_def)
next
  case (ack c r i res ds')
  have box: "inbox ds' r' = (if r' = r then retain_other cd_id i (inbox (service c) r)
      else inbox (service c) r')" for r'
    using ack_commit_inbox_inbox [of "service c" r i r'] ack.hyps by simp
  have "mset (inbox (service c) r) = mset (retain_other cd_id i (inbox (service c) r)) +
      mset (filter (\<lambda>d. cd_id d = i) (inbox (service c) r))"
    using multiset_partition [of "mset (inbox (service c) r)" "\<lambda>d. cd_id d \<noteq> i"]
    by (simp add: retain_other_def)
  then show ?case using ack.prems by (auto simp: balanced_def box ac_simps)
qed

lemma balanced_reach: "creach c c' \<Longrightarrow> balanced c \<Longrightarrow> balanced c'"
  by (induction rule: creach.induct) (auto intro: balanced_step)

lemma balanced_init: "balanced (cinit m)"
  by (simp add: balanced_def cinit_def inbox_def with_delivery_mode_def)

text \<open>
  (C7) However the pushes of concurrent publications interleave with each other, with state
  updates and with acknowledgements: once all publications have finished, the records a
  recipient still has pending together with those it has acknowledged are exactly those of the
  accepted commits addressed to it, each once per mention.
\<close>

theorem concurrent_delivery_complete:
  assumes "creach (cinit m) c" and "running c = []"
  shows "mset (inbox (service c) r) + acked c r = owed (history c) r"
  using balanced_reach [OF assms(1) balanced_init] assms(2) by (simp add: balanced_def)

section \<open>Acceptance stays linear\<close>

definition accept_inv :: "csys \<Rightarrow> bool" where
  "accept_inv c \<longleftrightarrow>
     (\<forall>p \<in> set (history c). pb_epoch p \<noteq> - 1) \<longrightarrow>
     (\<forall>g. sorted_wrt (<) (map pb_epoch (filter (\<lambda>p. pb_group p = g) (history c)))) \<and>
     (\<forall>p \<in> set (history c). \<exists>st. groups (service c) (pb_group p) = Some st \<and> pb_epoch p < current_epoch st)"

lemma accept_commit_Inr:
  "accept_commit ds g e = (Inr rs, ds') \<Longrightarrow>
     \<exists>st. groups ds g = Some st \<and> current_epoch st = e \<and>
       groups ds' = (groups ds)(g \<mapsto> st\<lparr>current_epoch := e + 1\<rparr>)"
  by (auto simp: accept_commit_def split: option.splits if_splits)

lemma put_groups:
  "put_group_state ds g e ms = (res, ds') \<Longrightarrow> groups ds h = Some st \<Longrightarrow>
     \<exists>st'. groups ds' h = Some st' \<and> current_epoch st' = current_epoch st"
  by (auto simp: put_group_state_def split: option.splits if_splits)

lemma ack_inbox_groups: "ack_commit_inbox ds r i = (res, ds') \<Longrightarrow> groups ds' = groups ds"
  by (auto simp: ack_commit_inbox_def Let_def split: option.splits)

lemma accept_inv_accept:
  assumes inv: "accept_inv c" and acc: "accept_commit (service c) g e = (Inr rs, ds')"
    and p: "p = \<lparr>pb_group = g, pb_sender = s, pb_epoch = e, pb_bytes = b, pb_recipients = rs\<rparr>"
  shows "accept_inv (c\<lparr>service := ds', running := ps, history := history c @ [p]\<rparr>)"
proof -
  obtain st where st: "groups (service c) g = Some st" "current_epoch st = e"
    "groups ds' = (groups (service c))(g \<mapsto> st\<lparr>current_epoch := e + 1\<rparr>)"
    using accept_commit_Inr [OF acc] by blast
  show ?thesis unfolding accept_inv_def
  proof (intro impI conjI allI)
    assume a: "\<forall>q \<in> set (history (c\<lparr>service := ds', running := ps, history := history c @ [p]\<rparr>)). pb_epoch q \<noteq> - 1"
    then have old: "\<forall>g. sorted_wrt (<) (map pb_epoch (filter (\<lambda>p. pb_group p = g) (history c)))"
      "\<forall>q \<in> set (history c). \<exists>st. groups (service c) (pb_group q) = Some st \<and> pb_epoch q < current_epoch st"
      using inv by (auto simp: accept_inv_def)
    have e: "e < e + 1" using a p by (intro word_less_Suc) auto
    have lt: "pb_epoch q < e" if "q \<in> set (history c)" "pb_group q = g" for q
      using old(2) that st by auto
    show "sorted_wrt (<) (map pb_epoch (filter (\<lambda>p. pb_group p = h)
        (history (c\<lparr>service := ds', running := ps, history := history c @ [p]\<rparr>))))" for h
      using old(1) lt p by (auto simp: sorted_wrt_append)
    have "\<exists>st'. groups ds' (pb_group q) = Some st' \<and> pb_epoch q < current_epoch st'"
      if "q \<in> set (history c)" for q
      using old(2) that lt [OF that] e st by (cases "pb_group q = g") (auto intro: less_trans)
    then show "\<forall>q \<in> set (history (c\<lparr>service := ds', running := ps, history := history c @ [p]\<rparr>)).
        \<exists>st. groups (service (c\<lparr>service := ds', running := ps, history := history c @ [p]\<rparr>)) (pb_group q) = Some st
          \<and> pb_epoch q < current_epoch st"
      using e st p by auto
  qed
qed

lemma accept_inv_same_history:
  assumes "accept_inv c" and "history c' = history c"
    and "\<And>g st. groups (service c) g = Some st \<Longrightarrow>
      \<exists>st'. groups (service c') g = Some st' \<and> current_epoch st' = current_epoch st"
  shows "accept_inv c'"
  using assms unfolding accept_inv_def by (metis (no_types, lifting))

lemma accept_inv_step: "cstep c c' \<Longrightarrow> accept_inv c \<Longrightarrow> accept_inv c'"
proof (induction rule: cstep.induct)
  case (put c g e ms res ds')
  show ?case
    by (rule accept_inv_same_history [OF put.prems]) (use put_groups [OF put.hyps] in auto)
next
  case (accept c g e rs ds' p s b)
  show ?case by (rule accept_inv_accept [OF accept.prems accept.hyps])
next
  case (push c ps p qs r rs)
  show ?case by (rule accept_inv_same_history [OF push.prems]) auto
next
  case (finish c ps p qs)
  show ?case by (rule accept_inv_same_history [OF finish.prems]) auto
next
  case (ack c r i res ds')
  show ?case
    by (rule accept_inv_same_history [OF ack.prems]) (use ack_inbox_groups [OF ack.hyps] in auto)
qed

lemma accept_inv_reach: "creach c c' \<Longrightarrow> accept_inv c \<Longrightarrow> accept_inv c'"
  by (induction rule: creach.induct) (auto intro: accept_inv_step)

text \<open>
  Interleaving never lets two publications win the same epoch of a group: the accepted
  commits of a group have strictly increasing epochs in the order of acceptance.
\<close>

theorem concurrent_accepts_linear:
  assumes "creach (cinit m) c" and "\<forall>p \<in> set (history c). pb_epoch p \<noteq> - 1"
  shows "sorted_wrt (<) (map pb_epoch (filter (\<lambda>p. pb_group p = g) (history c)))"
proof -
  have "accept_inv (cinit m)" by (simp add: accept_inv_def cinit_def)
  from accept_inv_reach [OF assms(1) this] show ?thesis using assms(2) by (simp add: accept_inv_def)
qed

section \<open>Inboxes can be out of order\<close>

text \<open>
  Two members \<open>a\<close> and \<open>b\<close> of group \<open>g\<close>. The commit for epoch 1 is pushed to \<open>a\<close>; before it reaches
  \<open>b\<close>, the commit for epoch 2 is accepted and pushed to both.
\<close>

definition racing :: "nat \<Rightarrow> csys" where
  "racing n =
    (let ds0 = with_delivery_mode (service_metrics_new None) PerRecipient;
         ds1 = snd (put_group_state ds0 ''g'' 0 [''a'', ''b'']);
         ds2 = snd (accept_commit ds1 ''g'' 0);
         p = \<lparr>pb_group = ''g'', pb_sender = ''a'', pb_epoch = 0, pb_bytes = [1], pb_recipients = [''a'', ''b'']\<rparr>;
         ds3 = commit_inbox_push ds2 ''a'' (record_for p ''a'');
         ds4 = snd (accept_commit ds3 ''g'' 1);
         q = \<lparr>pb_group = ''g'', pb_sender = ''a'', pb_epoch = 1, pb_bytes = [2], pb_recipients = [''a'', ''b'']\<rparr>;
         ds5 = commit_inbox_push ds4 ''a'' (record_for q ''a'');
         ds6 = commit_inbox_push ds5 ''b'' (record_for q ''b'');
         ds7 = commit_inbox_push ds6 ''b'' (record_for p ''b'');
         c = (\<lambda>ds run hist. \<lparr>service = ds, running = run, history = hist, acked = (\<lambda>_. {#})\<rparr>)
     in if n = 0 then c ds0 [] [] else if n = 1 then c ds1 [] []
        else if n = 2 then c ds2 [p] [p]
        else if n = 3 then c ds3 [p\<lparr>pb_recipients := [''b'']\<rparr>] [p]
        else if n = 4 then c ds4 [p\<lparr>pb_recipients := [''b'']\<rparr>, q] [p, q]
        else if n = 5 then c ds5 [p\<lparr>pb_recipients := [''b'']\<rparr>, q\<lparr>pb_recipients := [''b'']\<rparr>] [p, q]
        else if n = 6 then c ds6 [p\<lparr>pb_recipients := [''b'']\<rparr>, q\<lparr>pb_recipients := []\<rparr>] [p, q]
        else if n = 7 then c ds7 [p\<lparr>pb_recipients := []\<rparr>, q\<lparr>pb_recipients := []\<rparr>] [p, q]
        else if n = 8 then c ds7 [q\<lparr>pb_recipients := []\<rparr>] [p, q]
        else c ds7 [] [p, q])"

lemma racing_accepts:
  "accept_commit (service (racing 1)) ''g'' 0 = (Inr [''a'', ''b''], service (racing 2))"
  "accept_commit (service (racing 3)) ''g'' 1 = (Inr [''a'', ''b''], service (racing 4))"
  by (simp_all add: racing_def Let_def accept_commit_def put_group_state_def with_delivery_mode_def
      commit_inbox_push_def)

lemma racing_reach: "creach (cinit (service_metrics_new None)) (racing 9)"
proof -
  let ?p = "\<lparr>pb_group = ''g'', pb_sender = ''a'', pb_epoch = 0, pb_bytes = [1], pb_recipients = [''a'', ''b'']\<rparr>"
  let ?q = "\<lparr>pb_group = ''g'', pb_sender = ''a'', pb_epoch = 1, pb_bytes = [2], pb_recipients = [''a'', ''b'']\<rparr>"
  have "cinit (service_metrics_new None) = racing 0"
    by (simp add: cinit_def racing_def Let_def)
  moreover have "cstep (racing 0) (racing 1)"
    using cstep.put [OF surjective_pairing, of "racing 0" "''g''" 0 "[''a'', ''b'']"]
    by (simp add: racing_def Let_def)
  moreover have "cstep (racing 1) (racing 2)"
    using cstep.accept [OF racing_accepts(1) refl, of "''a''" "[1]"] by (simp add: racing_def Let_def)
  moreover have "cstep (racing 2) (racing 3)"
    using cstep.push [of "racing 2" "[]" ?p "[]"] by (simp add: racing_def Let_def)
  moreover have "cstep (racing 3) (racing 4)"
    using cstep.accept [OF racing_accepts(2) refl, of "''a''" "[2]"] by (simp add: racing_def Let_def)
  moreover have "cstep (racing 4) (racing 5)"
    using cstep.push [of "racing 4" "[?p\<lparr>pb_recipients := [''b'']\<rparr>]" ?q "[]"]
    by (simp add: racing_def Let_def)
  moreover have "cstep (racing 5) (racing 6)"
    using cstep.push [of "racing 5" "[?p\<lparr>pb_recipients := [''b'']\<rparr>]" "?q\<lparr>pb_recipients := [''b'']\<rparr>" "[]"]
    by (simp add: racing_def Let_def record_for_def)
  moreover have "cstep (racing 6) (racing 7)"
    using cstep.push [of "racing 6" "[]" "?p\<lparr>pb_recipients := [''b'']\<rparr>" "[?q\<lparr>pb_recipients := []\<rparr>]"]
    by (simp add: racing_def Let_def record_for_def)
  moreover have "cstep (racing 7) (racing 8)"
    using cstep.finish [of "racing 7" "[]" "?p\<lparr>pb_recipients := []\<rparr>" "[?q\<lparr>pb_recipients := []\<rparr>]"]
    by (simp add: racing_def Let_def)
  moreover have "cstep (racing 8) (racing 9)"
    using cstep.finish [of "racing 8" "[]" "?q\<lparr>pb_recipients := []\<rparr>" "[]"]
    by (simp add: racing_def Let_def)
  ultimately show ?thesis by (metis creach.start creach.more)
qed

text \<open>
  (C32) The order of the epochs in an inbox, which sequential publications guarantee, is lost
  under concurrency: an execution in which two publications overlap leaves the second commit of the
  group ahead of the first in the inbox of a member, so that member fetches epoch 2 first.
\<close>

theorem concurrent_inbox_out_of_order:
  "\<exists>c. creach (cinit (service_metrics_new None)) c \<and> running c = [] \<and>
     map cd_epoch (inbox (service c) ''a'') = [1, 2] \<and> map cd_epoch (inbox (service c) ''b'') = [2, 1]"
proof (intro exI conjI)
  show "creach (cinit (service_metrics_new None)) (racing 9)" by (rule racing_reach)
  show "running (racing 9) = []" by (simp add: racing_def Let_def)
  have "inbox (snd (put_group_state ds g e ms)) r = inbox ds r" for ds g e ms r
    using put_inbox [OF prod.collapse [symmetric]] .
  moreover have "inbox (snd (accept_commit ds g e)) r = inbox ds r" for ds g e r
    using accept_inbox [OF prod.collapse [symmetric]] .
  ultimately show "map cd_epoch (inbox (service (racing 9)) ''a'') = [1, 2]"
    "map cd_epoch (inbox (service (racing 9)) ''b'') = [2, 1]"
    by (simp_all add: racing_def Let_def record_for_def)
qed

theorem concurrent_delivery_complete_witness:
  "creach (cinit (service_metrics_new None)) (racing 9) \<and> running (racing 9) = [] \<and>
   mset (inbox (service (racing 9)) ''b'') + acked (racing 9) ''b'' = owed (history (racing 9)) ''b''"
proof -
  have "running (racing 9) = []" by (simp add: racing_def Let_def)
  then show ?thesis using concurrent_delivery_complete [OF racing_reach] racing_reach by blast
qed

theorem concurrent_accepts_linear_witness:
  "creach (cinit (service_metrics_new None)) (racing 9) \<and>
   map pb_epoch (history (racing 9)) = [0, 1] \<and>
   sorted_wrt (<) (map pb_epoch (filter (\<lambda>p. pb_group p = ''g'') (history (racing 9))))"
proof -
  have h: "\<forall>p \<in> set (history (racing 9)). pb_epoch p \<noteq> - 1" "map pb_epoch (history (racing 9)) = [0, 1]"
    by (simp_all add: racing_def Let_def)
  show ?thesis using concurrent_accepts_linear [OF racing_reach h(1)] racing_reach h(2) by blast
qed

end
