(* ===== verification/Http_Retry.thy ===== *)
theory Http_Retry
  imports Prelude
begin

text \<open>
  The retry loop around every HTTP request (\<^verbatim>\<open>src/OpenMLS_containerized/src/http_retry.rs\<close>, identical
  in the Signal tree up to the name of the random generator). An attempt is a function on the state of
  the world, so that a retry sees what earlier attempts changed. The random jitter of attempt \<open>n\<close> is
  \<open>rng n cap\<close>, a value the \<^verbatim>\<open>rand\<close> crate draws from \<open>0..=cap\<close>; the elapsed time after attempt
  \<open>n\<close> is \<open>elapsed n\<close>. A fatal error is the text \<^verbatim>\<open>anyhow\<close> renders for it.
  Durations are milliseconds.
\<close>

section \<open>The loop\<close>

definition MAX_ATTEMPTS :: nat where
  "MAX_ATTEMPTS = 10"

definition INITIAL_DELAY :: nat where
  "INITIAL_DELAY = 100"

definition MAX_DELAY :: nat where
  "MAX_DELAY = 3000"

datatype 'a RetryDecision = Success 'a | Transient string | Fatal string

record retry_context =
  rc_op :: string
  rc_client_id :: "string option"
  rc_url :: string
  rc_elapsed :: "nat \<Rightarrow> nat"
  rc_rng :: "nat \<Rightarrow> nat \<Rightarrow> nat"

definition next_delay :: "nat \<Rightarrow> nat" where
  "next_delay delay = min (min (delay * 2) u128_max) MAX_DELAY"

definition with_jitter :: "(nat \<Rightarrow> nat) \<Rightarrow> nat \<Rightarrow> nat" where
  "with_jitter draw delay = delay + draw (clamp_nat (delay div 10) 1 100)"

text \<open>Both error texts of the loop have this form; they differ in how the cause is rendered.\<close>

definition retry_error :: "retry_context \<Rightarrow> nat \<Rightarrow> string \<Rightarrow> string" where
  "retry_error rc attempts cause =
     rc_op rc @ '' failed: client='' @ (case rc_client_id rc of Some c \<Rightarrow> c | None \<Rightarrow> ''-'') @
     '' url='' @ rc_url rc @ '' attempts='' @ show_nat attempts @
     '' elapsed_ms='' @ show_nat (rc_elapsed rc attempts) @ '' cause='' @ cause"

text \<open>
  The turns of the loop over the attempt numbers that are left. The result is \<open>None\<close> at the
  \<^verbatim>\<open>unreachable!\<close> after the loop; the list is the delays slept.
\<close>

fun retry_turns :: "retry_context \<Rightarrow> ('s \<Rightarrow> 'a RetryDecision \<times> 's) \<Rightarrow> nat \<Rightarrow> 's \<Rightarrow> nat list
    \<Rightarrow> 'a result option \<times> 's \<times> nat list" where
  "retry_turns rc attempt_fn delay s [] = (None, s, [])"
| "retry_turns rc attempt_fn delay s (attempt # rest) =
     (case attempt_fn s of
        (Success v, s') \<Rightarrow> (Some (Inr v), s', [])
      | (Fatal err, s') \<Rightarrow> (Some (Inl (retry_error rc attempt err)), s', [])
      | (Transient cause, s') \<Rightarrow>
          if attempt < MAX_ATTEMPTS then
            (let sleep_for = with_jitter (rc_rng rc attempt) delay
             in case retry_turns rc attempt_fn (next_delay delay) s' rest of
                  (res, s'', sleeps) \<Rightarrow> (res, s'', sleep_for # sleeps))
          else (Some (Inl (retry_error rc attempt cause)), s', []))"

definition retry_transient_http :: "retry_context \<Rightarrow> ('s \<Rightarrow> 'a RetryDecision \<times> 's) \<Rightarrow> 's
    \<Rightarrow> 'a result option \<times> 's \<times> nat list" where
  "retry_transient_http rc attempt_fn s =
     retry_turns rc attempt_fn INITIAL_DELAY s [1..<MAX_ATTEMPTS + 1]"

section \<open>What counts as transient\<close>

text \<open>What the code reads of a \<^verbatim>\<open>reqwest::Error\<close>: its text, its kind, its chain of sources.\<close>

record reqwest_error =
  err_text :: string
  err_connect :: bool
  err_timeout :: bool
  err_request :: bool
  err_body :: bool
  err_sources :: "string list"

definition transient_texts :: "string list" where
  "transient_texts =
     [''connection refused'', ''connection reset'', ''connection reset by peer'',
      ''connection closed'', ''broken pipe'', ''error sending request'',
      ''error trying to connect'', ''operation timed out'', ''request timed out'',
      ''unexpected eof'', ''incomplete message'', ''channel closed'', ''dns error'',
      ''failed to lookup address information'', ''failed to resolve'',
      ''temporary failure in name resolution'', ''name or service not known'',
      ''nodename nor servname provided'']"

definition is_transient_reqwest_error :: "reqwest_error \<Rightarrow> bool" where
  "is_transient_reqwest_error err =
     (if err_timeout err \<or> err_connect err \<or> err_body err then True
      else let message = to_ascii_lowercase (err_text err)
           in list_ex (\<lambda>p. contains p message) transient_texts)"

definition connect_texts :: "string list" where
  "connect_texts =
     [''host is unreachable'', ''no route to host'', ''network is unreachable'',
      ''connection refused'', ''tcp connect error'', ''connect timed out'',
      ''connection timed out'', ''dns error'', ''failed to lookup address information'',
      ''failed to resolve'', ''temporary failure in name resolution'',
      ''name or service not known'', ''nodename nor servname provided'']"

definition is_connect_stage_reqwest_error :: "reqwest_error \<Rightarrow> bool" where
  "is_connect_stage_reqwest_error err =
     (if err_connect err then True
      else let message = to_ascii_lowercase (err_text err)
           in list_ex (\<lambda>p. contains p message) connect_texts)"

definition is_transient_status :: "nat \<Rightarrow> bool" where
  "is_transient_status status = (status = 502 \<or> status = 503 \<or> status = 504)"

section \<open>Lemmas\<close>

text \<open>The decision and the state after the \<open>k\<close>-th attempt, counted from 0.\<close>

fun state_before :: "('s \<Rightarrow> 'a RetryDecision \<times> 's) \<Rightarrow> 's \<Rightarrow> nat \<Rightarrow> 's" where
  "state_before f s 0 = s"
| "state_before f s (Suc k) = state_before f (snd (f s)) k"

definition decision :: "('s \<Rightarrow> 'a RetryDecision \<times> 's) \<Rightarrow> 's \<Rightarrow> nat \<Rightarrow> 'a RetryDecision" where
  "decision f s k = fst (f (state_before f s k))"

fun is_transient :: "'a RetryDecision \<Rightarrow> bool" where
  "is_transient (Transient _) = True"
| "is_transient _ = False"

lemma decision_0 [simp]: "decision f s 0 = fst (f s)"
  by (simp add: decision_def)

lemma decision_Suc [simp]: "decision f s (Suc k) = decision f (snd (f s)) k"
  by (simp add: decision_def)

lemma state_before_Suc: "state_before f s (Suc k) = snd (f (state_before f s k))"
  by (induction k arbitrary: s) simp_all

text \<open>The delays without jitter.\<close>

fun base_delays :: "nat \<Rightarrow> nat \<Rightarrow> nat list" where
  "base_delays delay 0 = []"
| "base_delays delay (Suc n) = delay # base_delays (next_delay delay) n"

text \<open>
  The loop, from attempt \<open>a\<close> on, stops at the first attempt \<open>k\<close> that is not transient, or
  after the last one.
\<close>

lemma retry_turns_stops:
  assumes "\<forall>j < k. is_transient (decision f s j)" and "a + k \<le> MAX_ATTEMPTS"
    and "is_transient (decision f s k) \<Longrightarrow> a + k = MAX_ATTEMPTS"
  shows "fst (retry_turns rc f delay s [a..<MAX_ATTEMPTS + 1]) =
      Some (case decision f s k of
              Success v \<Rightarrow> Inr v
            | Transient c \<Rightarrow> Inl (retry_error rc (a + k) c)
            | Fatal e \<Rightarrow> Inl (retry_error rc (a + k) e)) \<and>
    fst (snd (retry_turns rc f delay s [a..<MAX_ATTEMPTS + 1])) = state_before f s (Suc k) \<and>
    length (snd (snd (retry_turns rc f delay s [a..<MAX_ATTEMPTS + 1]))) = k"
  using assms
proof (induction k arbitrary: a s delay)
  case 0
  then have "[a..<MAX_ATTEMPTS + 1] = a # [Suc a..<MAX_ATTEMPTS + 1]" by (simp add: upt_conv_Cons)
  then show ?case using 0 by (cases "f s") (auto split: RetryDecision.splits)
next
  case (Suc k)
  have l: "[a..<MAX_ATTEMPTS + 1] = a # [Suc a..<MAX_ATTEMPTS + 1]"
    using Suc.prems(2) by (simp add: upt_conv_Cons)
  obtain c s' where f: "f s = (Transient c, s')"
    using Suc.prems(1) by (cases "f s"; cases "fst (f s)") force+
  have lt: "a < MAX_ATTEMPTS" using Suc.prems(2) by simp
  have tr: "\<forall>j < k. is_transient (decision f s' j)"
  proof (intro allI impI)
    fix j assume "j < k"
    then show "is_transient (decision f s' j)" using Suc.prems(1) f by (metis Suc_mono decision_Suc snd_conv)
  qed
  have IH: "is_transient (decision f s' k) \<Longrightarrow> Suc a + k = MAX_ATTEMPTS" using Suc.prems(3) f by simp
  have shift: "Suc a + k = a + Suc k" by simp
  have "a + Suc k \<le> MAX_ATTEMPTS" by (rule Suc.prems(2))
  note run = Suc.IH [of s' "Suc a" "next_delay delay", OF tr _ IH, unfolded shift, OF this]
  show ?case using run l f lt by (simp add: Let_def split_beta del: upt_Suc)
qed

text \<open>There always is such an attempt among the first ten.\<close>

lemma stopping_attempt:
  "\<exists>k < MAX_ATTEMPTS. (\<forall>j < k. is_transient (decision f s j)) \<and>
     (is_transient (decision f s k) \<longrightarrow> k = MAX_ATTEMPTS - 1)"
proof (cases "\<exists>k < MAX_ATTEMPTS - 1. \<not> is_transient (decision f s k)")
  case True
  then obtain k where "k < MAX_ATTEMPTS - 1" "\<not> is_transient (decision f s k)"
    "\<forall>j < k. \<not> (j < MAX_ATTEMPTS - 1 \<and> \<not> is_transient (decision f s j))"
    using exists_least_iff [of "\<lambda>k. k < MAX_ATTEMPTS - 1 \<and> \<not> is_transient (decision f s k)"] by blast
  then show ?thesis by (intro exI [of _ k]) auto
next
  case False
  then show ?thesis by (intro exI [of _ "MAX_ATTEMPTS - 1"]) (auto simp: MAX_ATTEMPTS_def)
qed

lemma retry_sleeps:
  assumes "\<And>n cap. rng n cap \<le> cap" and "rc_rng rc = rng" and "100 \<le> delay" and "delay \<le> 3000"
  shows "list_all2 (\<lambda>sleep base. base \<le> sleep \<and> sleep \<le> base + 100)
    (snd (snd (retry_turns rc f delay s as)))
    (base_delays delay (length (snd (snd (retry_turns rc f delay s as)))))"
  using assms(3,4)
proof (induction as arbitrary: delay s)
  case (Cons a as)
  have d: "100 \<le> next_delay delay" "next_delay delay \<le> 3000"
    using Cons.prems by (auto simp: next_delay_def MAX_DELAY_def u128_max_def)
  have cap: "clamp_nat (delay div 10) 1 100 \<le> 100" using clamp_nat_bounds by simp
  have j: "delay \<le> with_jitter (rng a) delay \<and> with_jitter (rng a) delay \<le> delay + 100"
    using assms(1) [of a "clamp_nat (delay div 10) 1 100"] cap by (simp add: with_jitter_def)
  obtain dec s' where f: "f s = (dec, s')" by (cases "f s")
  show ?case
    using Cons.IH [OF d, of s'] j assms(2) f by (cases dec) (simp_all add: Let_def split_beta)
qed simp

lemma base_delays_prefix: "m \<le> n \<Longrightarrow> sum_list (base_delays d m) \<le> sum_list (base_delays d n)"
proof (induction m arbitrary: d n)
  case (Suc m)
  then obtain n' where "n = Suc n'" "m \<le> n'" by (cases n) auto
  then show ?case using Suc.IH by simp
qed simp

lemma list_all2_sum_le:
  "list_all2 (\<lambda>x b. b \<le> x \<and> x \<le> b + 100) xs bs \<Longrightarrow> sum_list xs \<le> sum_list bs + 100 * length xs"
  for xs bs :: "nat list"
  by (induction rule: list_all2_induct) auto

lemma base_delays_numeral:
  "base_delays d (numeral k) = d # base_delays (next_delay d) (pred_numeral k)"
  by (simp add: numeral_eq_Suc)

lemma base_delays_take: "m \<le> n \<Longrightarrow> base_delays d m = take m (base_delays d n)"
proof (induction m arbitrary: d n)
  case (Suc m)
  then obtain n' where "n = Suc n'" "m \<le> n'" by (cases n) auto
  then show ?case using Suc.IH by simp
qed simp

lemma retry_run:
  obtains k where "k < 10" "\<forall>j < k. is_transient (decision f s j)"
    "is_transient (decision f s k) \<longrightarrow> k = 9"
    "fst (retry_transient_http rc f s) =
       Some (case decision f s k of
               Success v \<Rightarrow> Inr v
             | Transient c \<Rightarrow> Inl (retry_error rc (1 + k) c)
             | Fatal e \<Rightarrow> Inl (retry_error rc (1 + k) e))"
    "fst (snd (retry_transient_http rc f s)) = state_before f s (Suc k)"
    "length (snd (snd (retry_transient_http rc f s))) = k"
proof -
  obtain k where k: "k < MAX_ATTEMPTS" "\<forall>j < k. is_transient (decision f s j)"
    "is_transient (decision f s k) \<longrightarrow> k = MAX_ATTEMPTS - 1"
    using stopping_attempt [of f s] by (elim exE conjE)
  have le: "1 + k \<le> MAX_ATTEMPTS" using k(1) by simp
  have last: "1 + k = MAX_ATTEMPTS" if "is_transient (decision f s k)"
    using k(1,3) that by simp
  have "k < 10" "is_transient (decision f s k) \<longrightarrow> k = 9"
    using k(1,3) by (simp_all add: MAX_ATTEMPTS_def)
  with k(2) retry_turns_stops [OF k(2) le last, of rc INITIAL_DELAY] show thesis
    by (intro that [of k]) (simp_all only: retry_transient_http_def)
qed

section \<open>Properties\<close>

text \<open>
  (C30) The loop always returns: it never reaches the unreachable point after it. It makes
  one to ten attempts; it returns the value of the first attempt that succeeds, provided all
  attempts before it were transient failures; a fatal failure stops it at once, ten transient
  failures stop it with an error that names ten attempts. The world is left as the last attempt
  made it.
\<close>

theorem retry_transient_http_spec:
  "\<exists>k < 10. (\<forall>j < k. is_transient (decision f s j)) \<and>
     (is_transient (decision f s k) \<longrightarrow> k = 9) \<and>
     fst (retry_transient_http rc f s) =
       Some (case decision f s k of
               Success v \<Rightarrow> Inr v
             | Transient c \<Rightarrow> Inl (retry_error rc 10 c)
             | Fatal e \<Rightarrow> Inl (retry_error rc (k + 1) e)) \<and>
     fst (snd (retry_transient_http rc f s)) = state_before f s (k + 1) \<and>
     length (snd (snd (retry_transient_http rc f s))) = k"
proof (rule retry_run [of f s rc])
  fix k
  assume k: "k < 10" "\<forall>j < k. is_transient (decision f s j)" "is_transient (decision f s k) \<longrightarrow> k = 9"
    and r: "fst (retry_transient_http rc f s) =
       Some (case decision f s k of
               Success v \<Rightarrow> Inr v
             | Transient c \<Rightarrow> Inl (retry_error rc (1 + k) c)
             | Fatal e \<Rightarrow> Inl (retry_error rc (1 + k) e))"
      "fst (snd (retry_transient_http rc f s)) = state_before f s (Suc k)"
      "length (snd (snd (retry_transient_http rc f s))) = k"
  have "fst (retry_transient_http rc f s) =
       Some (case decision f s k of
               Success v \<Rightarrow> Inr v
             | Transient c \<Rightarrow> Inl (retry_error rc 10 c)
             | Fatal e \<Rightarrow> Inl (retry_error rc (k + 1) e))"
    using k(3) r(1) by (cases "decision f s k") simp_all
  then show ?thesis using k r(2,3) by (intro exI [of _ k]) simp
qed

text \<open>A scripted world: the list of the decisions still to come.\<close>

definition scripted :: "'a RetryDecision list \<Rightarrow> 'a RetryDecision \<times> 'a RetryDecision list" where
  "scripted ds = (case ds of [] \<Rightarrow> (Fatal ''end of script'', []) | d # ds' \<Rightarrow> (d, ds'))"

definition demo_context :: retry_context where
  "demo_context = \<lparr>rc_op = ''op'', rc_client_id = None, rc_url = ''u'', rc_elapsed = (\<lambda>n. n), rc_rng = (\<lambda>n cap. cap)\<rparr>"

lemma demo_retry:
  "retry_transient_http demo_context scripted [Transient ''x'', Transient ''y'', Success (5::nat)] =
     (Some (Inr 5), [], [110, 220])"
  by (simp add: retry_transient_http_def scripted_def demo_context_def MAX_ATTEMPTS_def MAX_DELAY_def
      INITIAL_DELAY_def with_jitter_def next_delay_def clamp_nat_def u128_max_def upt_conv_Cons Let_def)

theorem retry_transient_http_spec_witness:
  "fst (retry_transient_http demo_context scripted [Transient ''x'', Transient ''y'', Success (5::nat)]) = Some (Inr 5) \<and>
   (\<exists>k < 10. fst (retry_transient_http demo_context scripted [Transient ''x'', Transient ''y'', Success (5::nat)]) =
       Some (case decision scripted [Transient ''x'', Transient ''y'', Success (5::nat)] k of
               Success v \<Rightarrow> Inr v
             | Transient c \<Rightarrow> Inl (retry_error demo_context 10 c)
             | Fatal e \<Rightarrow> Inl (retry_error demo_context (k + 1) e)))"
proof -
  have "fst (retry_transient_http demo_context scripted [Transient ''x'', Transient ''y'', Success (5::nat)]) = Some (Inr 5)"
    by (simp add: demo_retry)
  then show ?thesis
    using retry_transient_http_spec [of scripted "[Transient ''x'', Transient ''y'', Success (5::nat)]" demo_context]
    by blast
qed

text \<open>
  Between two attempts the loop sleeps the doubling delay 100, 200, 400, 800, 1600,
  3000, 3000, ... plus at most 100 milliseconds of jitter, provided the generator draws from the
  range it is given; all sleeps of a call together are at most 16 seconds.
\<close>

theorem retry_backoff_bounded:
  assumes "\<And>n cap. rc_rng rc n cap \<le> cap"
  shows "let sleeps = snd (snd (retry_transient_http rc f s)) in
    list_all2 (\<lambda>sleep base. base \<le> sleep \<and> sleep \<le> base + 100) sleeps
      (take (length sleeps) [100, 200, 400, 800, 1600, 3000, 3000, 3000, 3000]) \<and>
    sum_list sleeps \<le> 16000"
proof -
  let ?sl = "snd (snd (retry_transient_http rc f s))"
  have nine: "length ?sl \<le> 9" by (rule retry_run [of f s rc]) simp
  have all: "list_all2 (\<lambda>sleep base. base \<le> sleep \<and> sleep \<le> base + 100) ?sl (base_delays 100 (length ?sl))"
    using retry_sleeps [of "rc_rng rc" rc 100 f s "[1..<MAX_ATTEMPTS + 1]"] assms
    by (simp add: retry_transient_http_def INITIAL_DELAY_def)
  have b9: "base_delays 100 9 = [100, 200, 400, 800, 1600, 3000, 3000, 3000, 3000]"
    by (simp add: base_delays_numeral next_delay_def MAX_DELAY_def u128_max_def)
  have "sum_list ?sl \<le> sum_list (base_delays 100 9) + 100 * 9"
    using list_all2_sum_le [OF all] base_delays_prefix [OF nine, of 100] nine by simp
  then have "sum_list ?sl \<le> 16000" by (simp add: b9)
  moreover have "base_delays 100 (length ?sl) = take (length ?sl) (base_delays 100 9)"
    by (rule base_delays_take [OF nine])
  ultimately show ?thesis using all by (simp add: Let_def b9)
qed

theorem retry_backoff_bounded_witness:
  "(\<forall>n cap. rc_rng demo_context n cap \<le> cap) \<and>
   snd (snd (retry_transient_http demo_context scripted [Transient ''x'', Transient ''y'', Success (5::nat)])) = [110, 220] \<and>
   sum_list (snd (snd (retry_transient_http demo_context scripted [Transient ''x'', Transient ''y'', Success (5::nat)]))) \<le> 16000"
proof -
  have h: "rc_rng demo_context n cap \<le> cap" for n cap by (simp add: demo_context_def)
  have "snd (snd (retry_transient_http demo_context scripted [Transient ''x'', Transient ''y'', Success (5::nat)])) = [110, 220]"
    by (simp add: demo_retry)
  then show ?thesis
    using retry_backoff_bounded [OF h, of scripted "[Transient ''x'', Transient ''y'', Success (5::nat)]"] h
    by (simp add: Let_def)
qed

end
