(* ===== verification/Message_Relay.thy ===== *)
theory Message_Relay
  imports Service_Metrics
begin

text \<open>
  The two message relays: the application-message relay of the MLS side
  (\<^verbatim>\<open>src/OpenMLS_containerized/src/message_relay.rs\<close>) and the pairwise relay of the Signal side
  (\<^verbatim>\<open>src/Signal_containerized/src/message_relay.rs\<close>), with their HTTP handlers. Both keep an inbox
  per recipient, draw one sequence number per publication and replay a message until it is
  acknowledged. The locale \<open>relay_box\<close> is what they have in common; the end-to-end lemmas are proved
  there once.
\<close>

section \<open>The contract of a relay\<close>

text \<open>A publication: conversation or group, sender, recipients, message.\<close>

type_synonym publish_args = "string \<times> string \<times> string list \<times> bytes"

fun publish_seq :: "('s \<Rightarrow> string \<Rightarrow> string \<Rightarrow> string list \<Rightarrow> bytes \<Rightarrow> unit result \<times> 's)
    \<Rightarrow> 's \<Rightarrow> publish_args list \<Rightarrow> 's" where
  "publish_seq pub s [] = s"
| "publish_seq pub s ((c, sn, rs, b) # ps) = publish_seq pub (snd (pub s c sn rs b)) ps"

text \<open>What a recipient should find: one envelope per mention in a publication of somebody else.\<close>

fun expected :: "(string \<Rightarrow> string \<Rightarrow> u64 \<Rightarrow> bytes \<Rightarrow> string \<Rightarrow> 'm) \<Rightarrow> u64 \<Rightarrow> publish_args list \<Rightarrow> string
    \<Rightarrow> 'm list" where
  "expected env n [] r = []"
| "expected env n ((c, sn, rs, b) # ps) r =
     (if rs = [] then expected env n ps r
      else map (env c sn n b) (filter (\<lambda>x. x = r) (filter (\<lambda>x. x \<noteq> sn) rs)) @ expected env (n + 1) ps r)"

lemma expected_mem:
  "m \<in> set (expected env n ps r) \<Longrightarrow>
     \<exists>c sn b i. i < length ps \<and> m = env c sn (n + of_nat i) b r"
proof (induction env n ps r rule: expected.induct)
  case (2 env n c sn rs b ps r)
  have tl: "\<exists>c sn b i. i < Suc (length ps) \<and> m = env c sn (n + of_nat i) b r"
    if ex: "\<exists>c sn b i. i < length ps \<and> m = env c sn (k + of_nat i) b r" and k: "k = n \<or> k = n + 1" for k
  proof -
    obtain c sn b i where i: "i < length ps" "m = env c sn (k + of_nat i) b r" using ex by blast
    then show ?thesis
    proof (cases "k = n")
      case False
      then have "m = env c sn (n + of_nat (Suc i)) b r" using i k by (simp add: ac_simps)
      then show ?thesis using i(1) Suc_less_eq by blast
    qed (use less_SucI in blast)
  qed
  show ?case
  proof (cases "rs = []")
    case True
    then show ?thesis using 2 tl [of n] by simp
  next
    case False
    then consider "m = env c sn n b r" | "m \<in> set (expected env (n + 1) ps r)" using 2(3) by auto
    then show ?thesis
    proof cases
      case 1
      then have "m = env c sn (n + of_nat 0) b r" by simp
      then show ?thesis by (metis length_Cons zero_less_Suc)
    next
      case 2
      then show ?thesis using "2.IH"(2) [OF False] tl [of "n + 1"] by simp
    qed
  qed
qed simp

locale relay_box = push_mailbox pending fetch ack mid healthy push
  for pending :: "'s \<Rightarrow> string \<Rightarrow> 'm list" and fetch and ack and mid and healthy and push +
  fixes publish :: "'s \<Rightarrow> string \<Rightarrow> string \<Rightarrow> string list \<Rightarrow> bytes \<Rightarrow> unit result \<times> 's"
    and next_id :: "'s \<Rightarrow> u64"
    and envelope :: "string \<Rightarrow> string \<Rightarrow> u64 \<Rightarrow> bytes \<Rightarrow> string \<Rightarrow> 'm"
  assumes publish_empty: "snd (publish s c sn [] b) = s"
    and publish_pending: "rs \<noteq> [] \<Longrightarrow> pending (snd (publish s c sn rs b)) r =
      pending s r @ map (envelope c sn (next_id s) b) (filter (\<lambda>x. x = r) (filter (\<lambda>x. x \<noteq> sn) rs))"
    and publish_next: "rs \<noteq> [] \<Longrightarrow> next_id (snd (publish s c sn rs b)) = next_id s + 1"
    and mid_seq: "mid (envelope c sn q b r) = mid (envelope c' sn' q' b' r) \<Longrightarrow> q = q'"
    and publish_healthy: "healthy s \<Longrightarrow> healthy (snd (publish s c sn rs b))"
begin

lemma publish_seq_pending:
  "pending (publish_seq publish s ps) r = pending s r @ expected envelope (next_id s) ps r"
proof (induction ps arbitrary: s)
  case (Cons p ps)
  obtain c sn rs b where "p = (c, sn, rs, b)" by (cases p)
  then show ?case using Cons
    by (cases "rs = []") (simp_all add: publish_empty publish_pending publish_next)
qed simp

lemma publish_seq_healthy: "healthy s \<Longrightarrow> healthy (publish_seq publish s ps)"
proof (induction ps arbitrary: s)
  case (Cons p ps)
  obtain c sn rs b where "p = (c, sn, rs, b)" by (cases p)
  then show ?case using Cons by (simp add: publish_healthy)
qed simp

lemma expected_ids_distinct:
  assumes "length ps < 2 ^ 64" and "list_all (\<lambda>(c, sn, rs, b). distinct rs) ps"
  shows "distinct (map mid (expected envelope n ps r))"
  using assms
proof (induction ps arbitrary: n)
  case (Cons p ps)
  obtain c sn rs b where p: "p = (c, sn, rs, b)" by (cases p)
  have IH: "distinct (map mid (expected envelope k ps r))" for k using Cons by simp
  have fresh: "mid (envelope c sn n b r) \<notin> mid ` set (expected envelope (n + 1) ps r)"
  proof
    assume "mid (envelope c sn n b r) \<in> mid ` set (expected envelope (n + 1) ps r)"
    then obtain m where m: "m \<in> set (expected envelope (n + 1) ps r)"
      and eq: "mid (envelope c sn n b r) = mid m" by auto
    obtain c' sn' b' i where i: "i < length ps" "m = envelope c' sn' (n + 1 + of_nat i) b' r"
      using expected_mem [OF m] by blast
    have "n = n + 1 + of_nat i" using mid_seq eq i(2) by blast
    then have "of_nat (Suc i) = (0 :: u64)" by (simp add: add.assoc)
    then have "2 ^ 64 dvd Suc i" unfolding word_of_nat_eq_0_iff by simp
    then show False using i(1) Cons.prems(1) dvd_imp_le [of "2 ^ 64" "Suc i"] by simp
  qed
  have "filter (\<lambda>x. x = r) (filter (\<lambda>x. x \<noteq> sn) rs) \<in> {[], [r]}"
    using Cons.prems(2) p filter_eq_once [of "filter (\<lambda>x. x \<noteq> sn) rs" r] by auto
  then show ?case using IH fresh by (auto simp: p)
qed simp

lemma end_to_end:
  assumes "healthy s" and "pending s r = []"
    and "length ps < 2 ^ 64" and "list_all (\<lambda>(c, sn, rs, b). distinct rs) ps"
  defines "ms \<equiv> expected envelope (next_id s) ps r"
  shows "fst (drain fetch ack mid (length ms) (publish_seq publish s ps) r) = ms \<and>
    fetch (snd (drain fetch ack mid (length ms) (publish_seq publish s ps) r)) r = None"
proof -
  have p: "pending (publish_seq publish s ps) r = ms"
    using assms(2) by (simp add: publish_seq_pending ms_def)
  have "distinct (map mid ms)" using expected_ids_distinct [OF assms(3,4)] by (simp add: ms_def)
  then show ?thesis using drain_all [OF publish_seq_healthy [OF assms(1), of ps], of r] by (simp add: p)
qed

end

section \<open>The MLS application-message relay\<close>

record RelayEnvelope =
  re_id :: string
  re_group_id :: string
  re_sender :: string
  re_message_bytes :: bytes

record PendingApplicationMessage =
  pm_id :: string
  pm_group_id :: string
  pm_sender :: string
  pm_message_hex :: string

record MessageRelay =
  application_inboxes :: "string \<rightharpoonup> RelayEnvelope list"
  next_message_id :: u64
  mr_metrics :: ServiceMetrics

definition message_relay_new :: "ServiceMetrics \<Rightarrow> MessageRelay" where
  "message_relay_new m = \<lparr>application_inboxes = Map.empty, next_message_id = 1, mr_metrics = m\<rparr>"

definition application_message_id :: "string \<Rightarrow> string \<Rightarrow> u64 \<Rightarrow> string \<Rightarrow> string" where
  "application_message_id group_id sender seq recipient =
     group_id @ '':'' @ sender @ '':'' @ show_u64 seq @ '':'' @ recipient"

definition relay_inbox_push :: "MessageRelay \<Rightarrow> string \<Rightarrow> RelayEnvelope \<Rightarrow> MessageRelay" where
  "relay_inbox_push mr recipient env =
     mr\<lparr>application_inboxes := (application_inboxes mr)(recipient \<mapsto>
          queue_of (application_inboxes mr) recipient @ [env])\<rparr>"

definition relay_envelope :: "string \<Rightarrow> string \<Rightarrow> u64 \<Rightarrow> bytes \<Rightarrow> string \<Rightarrow> RelayEnvelope" where
  "relay_envelope group_id sender seq b recipient =
     \<lparr>re_id = application_message_id group_id sender seq recipient, re_group_id = group_id,
      re_sender = sender, re_message_bytes = b\<rparr>"

definition publish_group_application_message ::
  "MessageRelay \<Rightarrow> string \<Rightarrow> string \<Rightarrow> string list \<Rightarrow> bytes \<Rightarrow> unit result \<times> MessageRelay" where
  "publish_group_application_message mr group_id sender recipients b =
     (if recipients = [] then (Inl ''No recipients were provided to the message relay'', mr)
      else (Inr (),
        foldl (\<lambda>mr' recipient.
            if recipient = sender then mr'
            else relay_inbox_push mr' recipient
                   (relay_envelope group_id sender (next_message_id mr) b recipient))
          (mr\<lparr>next_message_id := next_message_id mr + 1\<rparr>) recipients))"

definition fetch_pending_application_message_record ::
  "MessageRelay \<Rightarrow> string \<Rightarrow> RelayEnvelope option" where
  "fetch_pending_application_message_record mr recipient =
     (case application_inboxes mr recipient of None \<Rightarrow> None | Some queue \<Rightarrow> peek_front queue)"

definition fetch_application_message :: "MessageRelay \<Rightarrow> string \<Rightarrow> bytes option" where
  "fetch_application_message mr recipient =
     map_option re_message_bytes (fetch_pending_application_message_record mr recipient)"

definition fetch_pending_application_message ::
  "(bytes \<Rightarrow> string) \<Rightarrow> MessageRelay \<Rightarrow> string \<Rightarrow> PendingApplicationMessage option" where
  "fetch_pending_application_message hex mr recipient =
     map_option (\<lambda>env. \<lparr>pm_id = re_id env, pm_group_id = re_group_id env, pm_sender = re_sender env,
                        pm_message_hex = hex (re_message_bytes env)\<rparr>)
       (fetch_pending_application_message_record mr recipient)"

definition ack_application_message :: "MessageRelay \<Rightarrow> string \<Rightarrow> string \<Rightarrow> bool \<times> MessageRelay" where
  "ack_application_message mr recipient message_id =
     (case application_inboxes mr recipient of
        None \<Rightarrow> (False, mr)
      | Some queue \<Rightarrow>
          (let queue' = retain_other re_id message_id queue
           in (length queue \<noteq> length queue',
               mr\<lparr>application_inboxes := (application_inboxes mr)(recipient \<mapsto> queue')\<rparr>)))"

section \<open>The Signal pairwise relay\<close>

record SignalEnvelope =
  se_id :: string
  se_conversation_id :: string
  se_sender :: string
  se_message_bytes :: bytes

record PendingMessage =
  sp_id :: string
  sp_conversation_id :: string
  sp_sender :: string
  sp_message_hex :: string

record SignalRelay =
  sr_inboxes :: "string \<rightharpoonup> SignalEnvelope list"
  sr_next_message_id :: u64
  sr_metrics :: ServiceMetrics

definition signal_relay_new :: "ServiceMetrics \<Rightarrow> SignalRelay" where
  "signal_relay_new m = \<lparr>sr_inboxes = Map.empty, sr_next_message_id = 1, sr_metrics = m\<rparr>"

definition pairwise_message_id :: "string \<Rightarrow> string \<Rightarrow> u64 \<Rightarrow> string \<Rightarrow> string" where
  "pairwise_message_id conversation_id sender seq recipient =
     conversation_id @ '':'' @ sender @ '':'' @ show_u64 seq @ '':'' @ recipient"

definition signal_inbox_push :: "SignalRelay \<Rightarrow> string \<Rightarrow> SignalEnvelope \<Rightarrow> SignalRelay" where
  "signal_inbox_push sr recipient env =
     sr\<lparr>sr_inboxes := (sr_inboxes sr)(recipient \<mapsto> queue_of (sr_inboxes sr) recipient @ [env])\<rparr>"

definition signal_envelope :: "string \<Rightarrow> string \<Rightarrow> u64 \<Rightarrow> bytes \<Rightarrow> string \<Rightarrow> SignalEnvelope" where
  "signal_envelope conversation_id sender seq b recipient =
     \<lparr>se_id = pairwise_message_id conversation_id sender seq recipient,
      se_conversation_id = conversation_id, se_sender = sender, se_message_bytes = b\<rparr>"

definition publish_pairwise_message ::
  "SignalRelay \<Rightarrow> string \<Rightarrow> string \<Rightarrow> string list \<Rightarrow> bytes \<Rightarrow> unit result \<times> SignalRelay" where
  "publish_pairwise_message sr conversation_id sender recipients b =
     (if recipients = [] then (Inl ''No recipients provided'', sr)
      else (Inr (),
        foldl (\<lambda>sr' recipient.
            if recipient = sender then sr'
            else signal_inbox_push sr' recipient
                   (signal_envelope conversation_id sender (sr_next_message_id sr) b recipient))
          (sr\<lparr>sr_next_message_id := sr_next_message_id sr + 1\<rparr>) recipients))"

definition fetch_pending_message_record ::
  "SignalRelay \<Rightarrow> string \<Rightarrow> string option \<Rightarrow> SignalEnvelope option" where
  "fetch_pending_message_record sr recipient sender =
     (case sr_inboxes sr recipient of
        None \<Rightarrow> None
      | Some queue \<Rightarrow>
          List.find (\<lambda>env. case sender of None \<Rightarrow> True | Some s \<Rightarrow> se_sender env = s) queue)"

definition to_pending_message :: "(bytes \<Rightarrow> string) \<Rightarrow> SignalEnvelope \<Rightarrow> PendingMessage" where
  "to_pending_message hex env =
     \<lparr>sp_id = se_id env, sp_conversation_id = se_conversation_id env, sp_sender = se_sender env,
      sp_message_hex = hex (se_message_bytes env)\<rparr>"

definition fetch_message :: "SignalRelay \<Rightarrow> string \<Rightarrow> bytes option" where
  "fetch_message sr recipient =
     map_option se_message_bytes (fetch_pending_message_record sr recipient None)"

definition fetch_pending_message ::
  "(bytes \<Rightarrow> string) \<Rightarrow> SignalRelay \<Rightarrow> string \<Rightarrow> PendingMessage option" where
  "fetch_pending_message hex sr recipient =
     map_option (to_pending_message hex) (fetch_pending_message_record sr recipient None)"

definition fetch_pending_message_from ::
  "(bytes \<Rightarrow> string) \<Rightarrow> SignalRelay \<Rightarrow> string \<Rightarrow> string \<Rightarrow> PendingMessage option" where
  "fetch_pending_message_from hex sr recipient sender =
     map_option (to_pending_message hex) (fetch_pending_message_record sr recipient (Some sender))"

definition ack_message :: "SignalRelay \<Rightarrow> string \<Rightarrow> string \<Rightarrow> bool \<times> SignalRelay" where
  "ack_message sr recipient message_id =
     (case sr_inboxes sr recipient of
        None \<Rightarrow> (False, sr)
      | Some queue \<Rightarrow>
          (let queue' = retain_other se_id message_id queue
           in (length queue \<noteq> length queue',
               sr\<lparr>sr_inboxes := (sr_inboxes sr)(recipient \<mapsto> queue')\<rparr>)))"

section \<open>Both relays satisfy the contract\<close>

definition relay_inbox :: "MessageRelay \<Rightarrow> string \<Rightarrow> RelayEnvelope list" where
  "relay_inbox mr r = queue_of (application_inboxes mr) r"

definition signal_inbox :: "SignalRelay \<Rightarrow> string \<Rightarrow> SignalEnvelope list" where
  "signal_inbox sr r = queue_of (sr_inboxes sr) r"

text \<open>The sequence number is the only digits between the last two colons before the recipient.\<close>

lemma seq_suffix_inj:
  assumes "a @ CHR '':'' # show_u64 q @ CHR '':'' # r = a' @ CHR '':'' # show_u64 q' @ CHR '':'' # r"
  shows "q = q'"
proof -
  have "a @ CHR '':'' # show_u64 q = a' @ CHR '':'' # show_u64 q'" using assms by simp
  then have "rev (show_u64 q) @ CHR '':'' # rev a = rev (show_u64 q') @ CHR '':'' # rev a'"
    by (metis append_assoc append_Cons append_Nil rev.simps(2) rev_append)
  then have "show_u64 q = show_u64 q'" using append_sep_inj [of "CHR '':''"] colon_not_digit by simp
  then show ?thesis by (simp add: word_unat_eq_iff)
qed

lemma relay_push_simps [simp]:
  "relay_inbox (relay_inbox_push mr r e) r' = (if r' = r then relay_inbox mr r @ [e] else relay_inbox mr r')"
  "relay_inbox (mr\<lparr>next_message_id := n\<rparr>) r' = relay_inbox mr r'"
  "next_message_id (relay_inbox_push mr r e) = next_message_id mr"
  "signal_inbox (signal_inbox_push sr r f) r' = (if r' = r then signal_inbox sr r @ [f] else signal_inbox sr r')"
  "signal_inbox (sr\<lparr>sr_next_message_id := n\<rparr>) r' = signal_inbox sr r'"
  "sr_next_message_id (signal_inbox_push sr r f) = sr_next_message_id sr"
  by (simp_all add: relay_inbox_def relay_inbox_push_def signal_inbox_def signal_inbox_push_def)

lemma relay_fold:
  "relay_inbox (foldl (\<lambda>mr x. if x = sn then mr else relay_inbox_push mr x (f x)) mr rs) r =
     relay_inbox mr r @ map f (filter (\<lambda>x. x = r) (filter (\<lambda>x. x \<noteq> sn) rs))"
  "next_message_id (foldl (\<lambda>mr x. if x = sn then mr else relay_inbox_push mr x (f x)) mr rs) =
     next_message_id mr"
  by (induction rs arbitrary: mr) auto

lemma signal_fold:
  "signal_inbox (foldl (\<lambda>sr x. if x = sn then sr else signal_inbox_push sr x (f x)) sr rs) r =
     signal_inbox sr r @ map f (filter (\<lambda>x. x = r) (filter (\<lambda>x. x \<noteq> sn) rs))"
  "sr_next_message_id (foldl (\<lambda>sr x. if x = sn then sr else signal_inbox_push sr x (f x)) sr rs) =
     sr_next_message_id sr"
  by (induction rs arbitrary: sr) auto

interpretation mls_relay: relay_box relay_inbox fetch_pending_application_message_record
  ack_application_message re_id "\<lambda>_. True" relay_inbox_push publish_group_application_message
  next_message_id relay_envelope
proof unfold_locales
  show "fetch_pending_application_message_record s r = peek_front (relay_inbox s r)" for s r
    by (simp add: fetch_pending_application_message_record_def relay_inbox_def queue_of_def split: option.splits)
  show "relay_inbox (snd (ack_application_message s r i)) r' =
      (if r' = r then retain_other re_id i (relay_inbox s r) else relay_inbox s r')" for s r i r'
    by (auto simp: ack_application_message_def relay_inbox_def queue_of_def Let_def retain_other_def
        split: option.splits)
  show "fst (ack_application_message s r i) = (i \<in> re_id ` set (relay_inbox s r))" for s r i
    using retain_other_shrinks [of re_id i "relay_inbox s r"]
    by (auto simp: ack_application_message_def relay_inbox_def queue_of_def Let_def split: option.splits)
  show "q = q'" if "re_id (relay_envelope c sn q b r) = re_id (relay_envelope c' sn' q' b' r)"
    for c sn q b r c' sn' q' b'
    using seq_suffix_inj [of "c @ CHR '':'' # sn" q r "c' @ CHR '':'' # sn'" q'] that
    by (simp add: relay_envelope_def application_message_id_def)
qed (simp_all add: publish_group_application_message_def relay_fold)

interpretation signal_relay: relay_box signal_inbox "\<lambda>sr r. fetch_pending_message_record sr r None"
  ack_message se_id "\<lambda>_. True" signal_inbox_push publish_pairwise_message
  sr_next_message_id signal_envelope
proof unfold_locales
  show "fetch_pending_message_record s r None = peek_front (signal_inbox s r)" for s r
    by (auto simp: fetch_pending_message_record_def signal_inbox_def queue_of_def find_filter split: option.splits)
  show "signal_inbox (snd (ack_message s r i)) r' =
      (if r' = r then retain_other se_id i (signal_inbox s r) else signal_inbox s r')" for s r i r'
    by (auto simp: ack_message_def signal_inbox_def queue_of_def Let_def retain_other_def
        split: option.splits)
  show "fst (ack_message s r i) = (i \<in> se_id ` set (signal_inbox s r))" for s r i
    using retain_other_shrinks [of se_id i "signal_inbox s r"]
    by (auto simp: ack_message_def signal_inbox_def queue_of_def Let_def split: option.splits)
  show "q = q'" if "se_id (signal_envelope c sn q b r) = se_id (signal_envelope c' sn' q' b' r)"
    for c sn q b r c' sn' q' b'
    using seq_suffix_inj [of "c @ CHR '':'' # sn" q r "c' @ CHR '':'' # sn'" q'] that
    by (simp add: signal_envelope_def pairwise_message_id_def)
qed (simp_all add: publish_pairwise_message_def signal_fold)

section \<open>Properties\<close>

text \<open>
  (C11) End to end through the MLS relay: after any sequence of fewer than 2^64 publications,
  none naming a recipient twice, a recipient that repeatedly fetches and acknowledges receives
  exactly the messages others addressed to it, each once, in the order of publication, and then
  finds its inbox empty.
\<close>

theorem relay_delivers_in_order:
  assumes "length ps < 2 ^ 64" and "list_all (\<lambda>(c, sn, rs, b). distinct rs) ps"
  shows "let ms = expected relay_envelope 1 ps r;
    (got, mr) = drain fetch_pending_application_message_record ack_application_message re_id (length ms)
      (publish_seq publish_group_application_message (message_relay_new m) ps) r
    in got = ms \<and> fetch_pending_application_message_record mr r = None"
proof -
  have "relay_inbox (message_relay_new m) r = []" "next_message_id (message_relay_new m) = 1"
    by (simp_all add: message_relay_new_def relay_inbox_def)
  then show ?thesis
    using mls_relay.end_to_end [OF TrueI _ assms, of "message_relay_new m" r]
    by (simp add: Let_def split_beta)
qed

definition demo_publications :: "publish_args list" where
  "demo_publications = [(''g'', ''a'', [''a'', ''b''], [1]), (''g'', ''c'', [''b'', ''d''], [2]), (''g'', ''b'', [''a''], [3])]"

lemma demo_publications_ok:
  "length demo_publications < 2 ^ 64" "list_all (\<lambda>(c, sn, rs, b). distinct rs) demo_publications"
  by (simp_all add: demo_publications_def)

theorem relay_delivers_in_order_witness:
  "length demo_publications < 2 ^ 64 \<and> list_all (\<lambda>(c, sn, rs, b). distinct rs) demo_publications \<and>
   map re_message_bytes (expected relay_envelope 1 demo_publications ''b'') = [[1], [2]] \<and>
   fst (drain fetch_pending_application_message_record ack_application_message re_id
      (length (expected relay_envelope 1 demo_publications ''b''))
      (publish_seq publish_group_application_message (message_relay_new (service_metrics_new None))
         demo_publications) ''b'') = expected relay_envelope 1 demo_publications ''b''"
  using relay_delivers_in_order [OF demo_publications_ok, of "''b''" "service_metrics_new None"]
    demo_publications_ok
  by (simp add: Let_def split_beta) (simp add: demo_publications_def relay_envelope_def)

text \<open>
  The same end-to-end guarantee for the Signal pairwise relay.
\<close>

theorem signal_relay_delivers_in_order:
  assumes "length ps < 2 ^ 64" and "list_all (\<lambda>(c, sn, rs, b). distinct rs) ps"
  shows "let ms = expected signal_envelope 1 ps r;
    (got, sr) = drain (\<lambda>sr r. fetch_pending_message_record sr r None) ack_message se_id (length ms)
      (publish_seq publish_pairwise_message (signal_relay_new m) ps) r
    in got = ms \<and> fetch_message sr r = None"
proof -
  have "signal_inbox (signal_relay_new m) r = []" "sr_next_message_id (signal_relay_new m) = 1"
    by (simp_all add: signal_relay_new_def signal_inbox_def)
  then show ?thesis
    using signal_relay.end_to_end [OF TrueI _ assms, of "signal_relay_new m" r]
    by (simp add: Let_def split_beta fetch_message_def)
qed

theorem signal_relay_delivers_in_order_witness:
  "length demo_publications < 2 ^ 64 \<and> list_all (\<lambda>(c, sn, rs, b). distinct rs) demo_publications \<and>
   fst (drain (\<lambda>sr r. fetch_pending_message_record sr r None) ack_message se_id
      (length (expected signal_envelope 1 demo_publications ''b''))
      (publish_seq publish_pairwise_message (signal_relay_new (service_metrics_new None))
         demo_publications) ''b'') = expected signal_envelope 1 demo_publications ''b''"
  using signal_relay_delivers_in_order [OF demo_publications_ok, of "''b''" "service_metrics_new None"]
    demo_publications_ok
  by (simp add: Let_def split_beta)

lemma retain_unique:
  assumes "distinct (map mid q)" and "List.find P q = Some m"
  shows "filter P q = m # filter P (retain_other mid (mid m) q) \<and>
    (\<forall>Q. \<not> Q m \<longrightarrow> filter Q (retain_other mid (mid m) q) = filter Q q)"
  using assms
proof (induction q)
  case (Cons x q)
  show ?case
  proof (cases "P x")
    case True
    then have "retain_other mid (mid m) (x # q) = q" using Cons.prems retain_other_head by fastforce
    then show ?thesis using True Cons.prems(2) by auto
  next
    case False
    then have f: "List.find P q = Some m" using Cons.prems(2) by simp
    then have "m \<in> set q" by (auto simp: find_Some_iff)
    then have "mid x \<noteq> mid m" using Cons.prems(1) by auto
    then show ?thesis using Cons.IH f Cons.prems(1) False by (simp add: retain_other_def)
  qed
qed simp

text \<open>
  A fetch restricted to one sender shows the oldest pending message of that sender;
  acknowledging it removes that message alone, so the rest of that sender's messages and all
  messages of every other sender stay pending in their order.
\<close>

theorem signal_fetch_from_sender:
  assumes "distinct (map se_id (signal_inbox sr r))"
    and "fetch_pending_message_record sr r (Some sn) = Some env"
  shows "let q' = signal_inbox (snd (ack_message sr r (se_id env))) r in
    filter (\<lambda>e. se_sender e = sn) (signal_inbox sr r) = env # filter (\<lambda>e. se_sender e = sn) q' \<and>
    (\<forall>sn'. sn' \<noteq> sn \<longrightarrow> filter (\<lambda>e. se_sender e = sn') q' =
       filter (\<lambda>e. se_sender e = sn') (signal_inbox sr r))"
proof -
  have f: "List.find (\<lambda>e. se_sender e = sn) (signal_inbox sr r) = Some env"
    using assms(2) by (auto simp: fetch_pending_message_record_def signal_inbox_def queue_of_def
        split: option.splits)
  then have "se_sender env = sn" by (auto simp: find_Some_iff)
  then show ?thesis
    using retain_unique [OF assms(1) f] signal_relay.ack_pending [OF TrueI, of sr r "se_id env" r]
    by (auto simp: Let_def)
qed

definition demo_signal_relay :: SignalRelay where
  "demo_signal_relay = publish_seq publish_pairwise_message
     (signal_relay_new (service_metrics_new None)) demo_publications"

theorem signal_fetch_from_sender_witness:
  "distinct (map se_id (signal_inbox demo_signal_relay ''b'')) \<and>
   fetch_pending_message_record demo_signal_relay ''b'' (Some ''c'') = Some (signal_envelope ''g'' ''c'' 2 [2] ''b'') \<and>
   filter (\<lambda>e. se_sender e = ''a'') (signal_inbox (snd (ack_message demo_signal_relay ''b''
       (se_id (signal_envelope ''g'' ''c'' 2 [2] ''b'')))) ''b'') =
     filter (\<lambda>e. se_sender e = ''a'') (signal_inbox demo_signal_relay ''b'')"
proof -
  have h: "distinct (map se_id (signal_inbox demo_signal_relay ''b''))"
    "fetch_pending_message_record demo_signal_relay ''b'' (Some ''c'') = Some (signal_envelope ''g'' ''c'' 2 [2] ''b'')"
    by code_simp+
  from signal_fetch_from_sender [OF this]
  have "\<forall>sn'. sn' \<noteq> ''c'' \<longrightarrow> filter (\<lambda>e. se_sender e = sn') (signal_inbox (snd (ack_message demo_signal_relay ''b''
       (se_id (signal_envelope ''g'' ''c'' 2 [2] ''b'')))) ''b'') =
     filter (\<lambda>e. se_sender e = sn') (signal_inbox demo_signal_relay ''b'')"
    unfolding Let_def by blast
  then show ?thesis using h by simp
qed

section \<open>HTTP handlers\<close>

text \<open>
  The handlers of \<^verbatim>\<open>bin/message_relay.rs\<close>: the recipients come in a header, \<open>None\<close> when it is
  missing. A header value is a string here; one that is not visible ASCII is refused before it
  reaches the parser, the case \<open>Some None\<close>.
\<close>

definition parse_recipients_header :: "string option \<Rightarrow> string list result" where
  "parse_recipients_header value =
     (case value of
        None \<Rightarrow> Inl ''x-recipients header is not valid UTF-8''
      | Some raw \<Rightarrow>
          (let recipients = filter (\<lambda>part. part \<noteq> []) (map trim (split_on CHR '','' raw))
           in if recipients = [] then Inl ''x-recipients header did not contain any recipients''
              else Inr recipients))"

definition publish_response :: "unit result \<Rightarrow> nat" where
  "publish_response res = (case res of Inr _ \<Rightarrow> 200 | Inl _ \<Rightarrow> 400)"

definition http_publish_group_application_message ::
  "nat \<Rightarrow> MessageRelay \<Rightarrow> string \<Rightarrow> string \<Rightarrow> string option option \<Rightarrow> bytes \<Rightarrow> nat \<times> MessageRelay" where
  "http_publish_group_application_message t mr group_id sender header body =
     (let ep = ''publish_group_application_message'';
          mr1 = mr\<lparr>mr_metrics := snd (metrics_start (mr_metrics mr) ep)\<rparr>;
          finish = (\<lambda>st mr'. (st, mr'\<lparr>mr_metrics := guard_finish_http_status (mr_metrics mr') ep t st\<rparr>))
      in case header of
           None \<Rightarrow> finish 400 mr1
         | Some value \<Rightarrow>
             (case parse_recipients_header value of
                Inl _ \<Rightarrow> finish 400 mr1
              | Inr recipients \<Rightarrow>
                  (case publish_group_application_message mr1 group_id sender recipients body of
                     (res, mr2) \<Rightarrow> finish (publish_response res) mr2)))"

definition http_publish_pairwise_message ::
  "nat \<Rightarrow> SignalRelay \<Rightarrow> string \<Rightarrow> string \<Rightarrow> string option option \<Rightarrow> bytes \<Rightarrow> nat \<times> SignalRelay" where
  "http_publish_pairwise_message t sr conversation_id sender header body =
     (let ep = ''publish_pairwise_message'';
          sr1 = sr\<lparr>sr_metrics := snd (metrics_start (sr_metrics sr) ep)\<rparr>;
          finish = (\<lambda>st sr'. (st, sr'\<lparr>sr_metrics := guard_finish_http_status (sr_metrics sr') ep t st\<rparr>))
      in case header of
           None \<Rightarrow> finish 400 sr1
         | Some value \<Rightarrow>
             (case parse_recipients_header value of
                Inl _ \<Rightarrow> finish 400 sr1
              | Inr recipients \<Rightarrow>
                  (case publish_pairwise_message sr1 conversation_id sender recipients body of
                     (res, sr2) \<Rightarrow> finish (publish_response res) sr2)))"

lemma parse_recipients_join:
  assumes "rs \<noteq> []" and "\<And>r. r \<in> set rs \<Longrightarrow> r \<noteq> [] \<and> CHR '','' \<notin> set r \<and> trim r = r"
  shows "parse_recipients_header (Some (join '','' rs)) = Inr rs"
proof -
  have "split_on CHR '','' (join '','' rs) = rs" using assms by (intro split_on_join) auto
  moreover have "map trim rs = rs" using assms(2) by (induction rs) auto
  moreover have "filter (\<lambda>part. part \<noteq> []) rs = rs" using assms(2) by (auto simp: filter_id_conv)
  ultimately show ?thesis using assms(1) by (simp add: parse_recipients_header_def)
qed

text \<open>
  A worker that posts an application message for recipients with plain names (not empty,
  no comma, no surrounding white space) is answered 200, and every recipient other than the sender
  finds the message at the back of its inbox under the next sequence number.
\<close>

theorem http_publish_reaches_recipients:
  assumes "rs \<noteq> []" and "distinct rs"
    and "list_all (\<lambda>r. r \<noteq> [] \<and> CHR '','' \<notin> set r \<and> trim r = r) rs"
  shows "let (status, mr') = http_publish_group_application_message t mr g sn (Some (Some (join '','' rs))) b in
    status = 200 \<and> next_message_id mr' = next_message_id mr + 1 \<and>
    (\<forall>r. relay_inbox mr' r = (if r \<in> set rs \<and> r \<noteq> sn
       then relay_inbox mr r @ [relay_envelope g sn (next_message_id mr) b r] else relay_inbox mr r))"
proof -
  have p: "parse_recipients_header (Some (join '','' rs)) = Inr rs"
    by (rule parse_recipients_join [OF assms(1)]) (use assms(3) in \<open>auto simp: list_all_iff\<close>)
  have metrics: "relay_inbox (mr\<lparr>mr_metrics := x\<rparr>) r = relay_inbox mr r" for mr x r
    by (simp add: relay_inbox_def)
  have "filter (\<lambda>x. x = r) (filter (\<lambda>x. x \<noteq> sn) rs) = (if r \<in> set rs \<and> r \<noteq> sn then [r] else [])" for r
    using filter_eq_if [of "filter (\<lambda>x. x \<noteq> sn) rs" r] assms(2) by simp
  then show ?thesis
    using assms(1) by (simp add: http_publish_group_application_message_def p Let_def split_beta
      publish_group_application_message_def publish_response_def metrics relay_fold)
qed

theorem http_publish_reaches_recipients_witness:
  "[''a'', ''b''] \<noteq> [] \<and> distinct [''a'', ''b''] \<and>
   list_all (\<lambda>r. r \<noteq> [] \<and> CHR '','' \<notin> set r \<and> trim r = r) [''a'', ''b''] \<and>
   fst (http_publish_group_application_message 3 (message_relay_new (service_metrics_new None)) ''g'' ''a''
     (Some (Some (join '','' [''a'', ''b'']))) [7]) = 200"
proof -
  have h: "list_all (\<lambda>r. r \<noteq> [] \<and> CHR '','' \<notin> set r \<and> trim r = r) [''a'', ''b'']" by code_simp
  show ?thesis
    using http_publish_reaches_recipients [of "[''a'', ''b'']" 3 "message_relay_new (service_metrics_new None)" "''g''" "''a''" "[7]"] h
    by (simp add: Let_def split_beta)
qed

end
