(* ===== verification/Worker_Http.thy ===== *)
theory Worker_Http
  imports Http_Retry Delivery_Http Message_Relay
begin

text \<open>
  The worker's HTTP helpers (\<^verbatim>\<open>src/OpenMLS_containerized/src/worker_api.rs\<close>): how each turns the
  outcome of one exchange into a retry decision, and the requests built on them. One
  exchange is a function \<open>send\<close> of the state of the world: it changes the state the way the server
  does and returns what the client sees, which is a \<^verbatim>\<open>reqwest\<close> error when the answer is lost.
  The rendering of a status line and of an error chain belongs to the \<^verbatim>\<open>http\<close> and \<^verbatim>\<open>anyhow\<close> crates
  and is a parameter. The HTTP client, its connection limits and timeouts are not modelled.
\<close>

section \<open>Decisions\<close>

record rendering =
  show_status :: "nat \<Rightarrow> string"
  show_chain :: "reqwest_error \<Rightarrow> string"

text \<open>A received response: status, text of the body (empty when it cannot be read), decoded body.\<close>

record 'v http_response =
  rsp_status :: nat
  rsp_text :: string
  rsp_value :: "reqwest_error + 'v"

type_synonym 'v exchange = "reqwest_error + 'v http_response"

datatype DsPostResult = DsOk | DsConflict string

definition is_success :: "nat \<Rightarrow> bool" where
  "is_success status = (200 \<le> status \<and> status < 300)"

definition show_bool :: "bool \<Rightarrow> string" where
  "show_bool b = (if b then ''true'' else ''false'')"

definition reqwest_error_diagnostic :: "reqwest_error \<Rightarrow> string" where
  "reqwest_error_diagnostic err =
     join ''; ''
       ([''top_level='' @ err_text err,
         ''is_connect='' @ show_bool (err_connect err),
         ''is_timeout='' @ show_bool (err_timeout err),
         ''is_request='' @ show_bool (err_request err),
         ''is_body='' @ show_bool (err_body err),
         ''connect_stage='' @ show_bool (is_connect_stage_reqwest_error err)] @
        map (\<lambda>(idx, src). ''source['' @ show_nat idx @ '']='' @ src)
          (zip [0..<length (err_sources err)] (err_sources err)))"

definition transient_or_fatal :: "rendering \<Rightarrow> reqwest_error \<Rightarrow> 'a RetryDecision" where
  "transient_or_fatal rd err =
     (if is_transient_reqwest_error err then Transient (reqwest_error_diagnostic err)
      else Fatal (show_chain rd err))"

definition http_cause :: "rendering \<Rightarrow> nat \<Rightarrow> string \<Rightarrow> string" where
  "http_cause rd status body = ''HTTP '' @ show_status rd status @ '': '' @ body"

definition post_allow_conflict_decision :: "rendering \<Rightarrow> 'v exchange \<Rightarrow> DsPostResult RetryDecision" where
  "post_allow_conflict_decision rd ex =
     (case ex of
        Inl err \<Rightarrow> transient_or_fatal rd err
      | Inr r \<Rightarrow>
          if is_success (rsp_status r) then Success DsOk
          else if rsp_status r = 409 then Success (DsConflict (rsp_text r))
          else if is_transient_status (rsp_status r)
          then Transient (http_cause rd (rsp_status r) (rsp_text r))
          else Fatal (''DS POST failed with status '' @ show_status rd (rsp_status r) @ '': '' @ rsp_text r))"

text \<open>The PUT, acknowledge and relay POST helpers differ only in the prefix of their fatal error.\<close>

definition unit_decision :: "string \<Rightarrow> rendering \<Rightarrow> 'v exchange \<Rightarrow> unit RetryDecision" where
  "unit_decision what rd ex =
     (case ex of
        Inl err \<Rightarrow> transient_or_fatal rd err
      | Inr r \<Rightarrow>
          if is_success (rsp_status r) then Success ()
          else if is_transient_status (rsp_status r)
          then Transient (http_cause rd (rsp_status r) (rsp_text r))
          else Fatal (what @ '' failed with status '' @ show_status rd (rsp_status r) @ '': '' @ rsp_text r))"

text \<open>So do the GET helpers, which read the body of a successful response.\<close>

definition value_decision :: "string \<Rightarrow> rendering \<Rightarrow> 'v exchange \<Rightarrow> 'v RetryDecision" where
  "value_decision what rd ex =
     (case ex of
        Inl err \<Rightarrow> transient_or_fatal rd err
      | Inr r \<Rightarrow>
          if \<not> is_success (rsp_status r) then
            (if is_transient_status (rsp_status r)
             then Transient (http_cause rd (rsp_status r) (rsp_text r))
             else Fatal (what @ '' failed with status '' @ show_status rd (rsp_status r) @ '': '' @ rsp_text r))
          else (case rsp_value r of Inr v \<Rightarrow> Success v | Inl err \<Rightarrow> transient_or_fatal rd err))"

section \<open>Requests\<close>

definition ds_post_bytes_allow_conflict ::
  "rendering \<Rightarrow> retry_context \<Rightarrow> ('s \<Rightarrow> 'v exchange \<times> 's) \<Rightarrow> 's \<Rightarrow> DsPostResult result option \<times> 's \<times> nat list" where
  "ds_post_bytes_allow_conflict rd rc send =
     retry_transient_http rc (\<lambda>s. apfst (post_allow_conflict_decision rd) (send s))"

definition ds_post_bytes ::
  "rendering \<Rightarrow> retry_context \<Rightarrow> ('s \<Rightarrow> 'v exchange \<times> 's) \<Rightarrow> 's \<Rightarrow> unit result option \<times> 's \<times> nat list" where
  "ds_post_bytes rd rc send s =
     apfst (map_option (\<lambda>res. case res of
        Inl e \<Rightarrow> Inl e
      | Inr DsOk \<Rightarrow> Inr ()
      | Inr (DsConflict message) \<Rightarrow> Inl (''Unexpected DS conflict: '' @ message)))
       (ds_post_bytes_allow_conflict rd rc send s)"

definition ds_put_json ::
  "rendering \<Rightarrow> retry_context \<Rightarrow> ('s \<Rightarrow> 'v exchange \<times> 's) \<Rightarrow> 's \<Rightarrow> unit result option \<times> 's \<times> nat list" where
  "ds_put_json rd rc send = retry_transient_http rc (\<lambda>s. apfst (unit_decision ''DS PUT'' rd) (send s))"

definition ds_ack_commit_delivery ::
  "rendering \<Rightarrow> retry_context \<Rightarrow> ('s \<Rightarrow> 'v exchange \<times> 's) \<Rightarrow> 's \<Rightarrow> unit result option \<times> 's \<times> nat list" where
  "ds_ack_commit_delivery rd rc send = retry_transient_http rc (\<lambda>s. apfst (unit_decision ''DS ack commit'' rd) (send s))"

definition ds_get_bytes ::
  "rendering \<Rightarrow> retry_context \<Rightarrow> ('s \<Rightarrow> bytes exchange \<times> 's) \<Rightarrow> 's \<Rightarrow> bytes result option \<times> 's \<times> nat list" where
  "ds_get_bytes rd rc send = retry_transient_http rc (\<lambda>s. apfst (value_decision ''DS GET'' rd) (send s))"

definition ds_get_pending_commit_delivery ::
  "rendering \<Rightarrow> retry_context \<Rightarrow> ('s \<Rightarrow> 'v exchange \<times> 's) \<Rightarrow> 's \<Rightarrow> 'v result option \<times> 's \<times> nat list" where
  "ds_get_pending_commit_delivery rd rc send =
     retry_transient_http rc (\<lambda>s. apfst (value_decision ''DS pending commit GET'' rd) (send s))"

definition ds_get_pending_commits ::
  "rendering \<Rightarrow> retry_context \<Rightarrow> ('s \<Rightarrow> 'v exchange \<times> 's) \<Rightarrow> 's \<Rightarrow> 'v result option \<times> 's \<times> nat list" where
  "ds_get_pending_commits rd rc send =
     retry_transient_http rc (\<lambda>s. apfst (value_decision ''DS pending commits GET'' rd) (send s))"

definition relay_post_application_message ::
  "rendering \<Rightarrow> retry_context \<Rightarrow> ('s \<Rightarrow> 'v exchange \<times> 's) \<Rightarrow> 's \<Rightarrow> unit result option \<times> 's \<times> nat list" where
  "relay_post_application_message rd rc send =
     retry_transient_http rc (\<lambda>s. apfst (unit_decision ''Relay POST'' rd) (send s))"

definition relay_get_application_message ::
  "rendering \<Rightarrow> retry_context \<Rightarrow> ('s \<Rightarrow> bytes exchange \<times> 's) \<Rightarrow> 's \<Rightarrow> bytes result option \<times> 's \<times> nat list" where
  "relay_get_application_message rd rc send =
     retry_transient_http rc (\<lambda>s. apfst (value_decision ''Relay GET'' rd) (send s))"

definition relay_get_pending_application_message ::
  "rendering \<Rightarrow> retry_context \<Rightarrow> ('s \<Rightarrow> 'v exchange \<times> 's) \<Rightarrow> 's \<Rightarrow> 'v result option \<times> 's \<times> nat list" where
  "relay_get_pending_application_message rd rc send =
     retry_transient_http rc (\<lambda>s. apfst (value_decision ''Relay pending message GET'' rd) (send s))"

definition relay_ack_application_message ::
  "rendering \<Rightarrow> retry_context \<Rightarrow> ('s \<Rightarrow> 'v exchange \<times> 's) \<Rightarrow> 's \<Rightarrow> unit result option \<times> 's \<times> nat list" where
  "relay_ack_application_message rd rc send =
     retry_transient_http rc (\<lambda>s. apfst (unit_decision ''Relay ack application message'' rd) (send s))"

section \<open>Stale group-state updates\<close>

definition leading_u64 :: "string \<Rightarrow> nat option" where
  "leading_u64 s = parse_uint u64_max (takeWhile is_ascii_digit s)"

definition parse_group_state_update_mismatch :: "string \<Rightarrow> (nat \<times> nat) option" where
  "parse_group_state_update_mismatch message =
     (case split_once ''expected epoch '' message of
        None \<Rightarrow> None
      | Some (_, expected_rest) \<Rightarrow>
          (case leading_u64 expected_rest of
             None \<Rightarrow> None
           | Some want \<Rightarrow>
               (case split_once '', got '' expected_rest of
                  None \<Rightarrow> None
                | Some (_, got_rest) \<Rightarrow>
                    (case leading_u64 got_rest of
                       None \<Rightarrow> None
                     | Some got \<Rightarrow> Some (want, got)))))"

definition is_stale_group_state_update_error :: "string \<Rightarrow> u64 \<Rightarrow> bool" where
  "is_stale_group_state_update_error error epoch =
     (case parse_group_state_update_mismatch error of
        Some (want, got) \<Rightarrow> got = unat epoch \<and> got < want
      | None \<Rightarrow> False)"

text \<open>\<open>update_ds_group_state\<close>: the result of the PUT, with a stale update counted as done.\<close>

definition update_ds_group_state ::
  "rendering \<Rightarrow> retry_context \<Rightarrow> ('s \<Rightarrow> 'v exchange \<times> 's) \<Rightarrow> u64 \<Rightarrow> 's \<Rightarrow> unit result option \<times> 's \<times> nat list" where
  "update_ds_group_state rd rc send epoch s =
     apfst (map_option (\<lambda>res. case res of
        Inr () \<Rightarrow> Inr ()
      | Inl error \<Rightarrow> if is_stale_group_state_update_error error epoch then Inr () else Inl error))
       (ds_put_json rd rc send s)"

section \<open>Lemmas\<close>

lemma takeWhile_digits:
  "list_all is_ascii_digit ds \<Longrightarrow> (rest = [] \<or> \<not> is_ascii_digit (hd rest)) \<Longrightarrow>
     takeWhile is_ascii_digit (ds @ rest) = ds"
  by (induction ds) (cases rest; auto)+

lemma leading_u64_show:
  "(rest = [] \<or> \<not> is_ascii_digit (hd rest)) \<Longrightarrow> leading_u64 (show_u64 w @ rest) = Some (unat w)"
  by (simp add: leading_u64_def takeWhile_digits show_nat_digits parse_uint_show_nat)

text \<open>The text in front of the first marker may be anything that does not hold the marker.\<close>

lemma split_once_earliest:
  "p \<noteq> [] \<Longrightarrow> \<exists>a' b'. split_once p (a @ p @ b) = Some (a', b') \<and> length a' \<le> length a"
proof (induction a)
  case Nil
  then show ?case by (cases p) auto
next
  case (Cons c a)
  then show ?case by auto
qed

lemma split_once_first:
  assumes "\<not> contains p (a @ butlast p)" and "p \<noteq> []"
  shows "split_once p (a @ p @ b) = Some (a, b)"
proof -
  obtain a' b' where so: "split_once p (a @ p @ b) = Some (a', b')" "length a' \<le> length a"
    using split_once_earliest [OF assms(2)] by blast
  have eq: "a @ p @ b = a' @ p @ b'" using split_once_Some [OF so(1)] .
  have "length a' = length a"
  proof (rule ccontr)
    assume "length a' \<noteq> length a"
    then have "length (a' @ p) \<le> length (a @ butlast p)" using so(2) by simp
    moreover have "prefix (a' @ p) (a @ p @ b)" unfolding eq by (simp add: prefix_def)
    moreover have "prefix (a @ butlast p) (a @ p @ b)"
      by (metis append_assoc append_butlast_last_id assms(2) prefixI)
    ultimately have "prefix (a' @ p) (a @ butlast p)" by (metis prefix_length_prefix)
    then obtain zs where "a @ butlast p = a' @ p @ zs" by (auto elim: prefixE)
    then show False using assms(1) contains_iff by blast
  qed
  then show ?thesis using eq so(1) by simp
qed

text \<open>
  The worker recognises the delivery service's answer to an outdated group-state update:
  the mismatch message of the service, behind any text that does not itself hold the marker, is
  parsed back to the two epochs it prints, so it counts as stale exactly when the service is ahead
  of the epoch the worker reported.
\<close>

theorem stale_update_recognised:
  assumes "\<not> contains ''expected epoch ''
      (pre @ ''Group state update mismatch for group '' @ [CHR 0x27] @ g @ [CHR 0x27] @ '': '' @ ''expected epoch'')"
  shows "parse_group_state_update_mismatch (pre @ group_state_mismatch_message g current epoch) =
      Some (unat current, unat epoch) \<and>
    is_stale_group_state_update_error (pre @ group_state_mismatch_message g current epoch) epoch =
      (epoch < current)"
proof -
  let ?a = "pre @ ''Group state update mismatch for group '' @ [CHR 0x27] @ g @ [CHR 0x27] @ '': ''"
  let ?rest = "show_u64 current @ '', got '' @ show_u64 epoch"
  have "pre @ group_state_mismatch_message g current epoch = ?a @ ''expected epoch '' @ ?rest"
    by (simp add: group_state_mismatch_message_def)
  moreover have "split_once ''expected epoch '' (?a @ ''expected epoch '' @ ?rest) = Some (?a, ?rest)"
    using assms by (intro split_once_first) simp_all
  moreover have "leading_u64 ?rest = Some (unat current)"
    by (rule leading_u64_show) (simp add: is_ascii_digit_def)
  moreover have "split_once '', got '' ?rest = Some (show_u64 current, show_u64 epoch)"
    using split_once_append [of "'', got ''" "show_u64 current" "show_u64 epoch"]
      show_nat_no_char [of "CHR '',''" "unat current"] by (simp add: is_ascii_digit_def)
  moreover have "leading_u64 (show_u64 epoch) = Some (unat epoch)"
    using leading_u64_show [of "[]" epoch] by simp
  ultimately have p: "parse_group_state_update_mismatch (pre @ group_state_mismatch_message g current epoch) =
      Some (unat current, unat epoch)"
    by (simp only: parse_group_state_update_mismatch_def option.case prod.case)
  then show ?thesis by (simp add: is_stale_group_state_update_error_def word_less_nat_alt)
qed

theorem stale_update_recognised_witness:
  "\<not> contains ''expected epoch ''
     (''x'' @ ''Group state update mismatch for group '' @ [CHR 0x27] @ ''g'' @ [CHR 0x27] @ '': '' @ ''expected epoch'') \<and>
   is_stale_group_state_update_error (''x'' @ group_state_mismatch_message ''g'' 8 7) 7 = ((7::u64) < 8)"
proof -
  have h: "\<not> contains ''expected epoch ''
     (''x'' @ ''Group state update mismatch for group '' @ [CHR 0x27] @ ''g'' @ [CHR 0x27] @ '': '' @ ''expected epoch'')"
    by code_simp
  show ?thesis using stale_update_recognised [OF h, of 8 7] h by blast
qed

end
