(* ===== verification/Lossy_Network.thy ===== *)
theory Lossy_Network
  imports Worker_Http
begin

text \<open>
  The worker's retrying requests over a network that loses requests or answers, against the services.
  A lost request never reaches the service; when an answer is lost the service has done the work and
  the client only sees a transient error, so the retry loop sends the same request again. Requests
  that are idempotent at the service survive this; the others do not.
\<close>

section \<open>The network\<close>

datatype fate = Arrives | AnswerLost | RequestLost

text \<open>One exchange with the service \<open>handler\<close>; the list holds the fates of the next exchanges.\<close>

fun exchange_with :: "('s \<Rightarrow> 'v http_response \<times> 's) \<Rightarrow> reqwest_error \<Rightarrow> 's \<times> fate list
    \<Rightarrow> 'v exchange \<times> ('s \<times> fate list)" where
  "exchange_with handler err (s, []) = (Inr (fst (handler s)), (snd (handler s), []))"
| "exchange_with handler err (s, Arrives # fs) = (Inr (fst (handler s)), (snd (handler s), fs))"
| "exchange_with handler err (s, AnswerLost # fs) = (Inl err, (snd (handler s), fs))"
| "exchange_with handler err (s, RequestLost # fs) = (Inl err, (s, fs))"

definition text_response :: "ds_response \<Rightarrow> unit http_response" where
  "text_response resp =
     \<lparr>rsp_status = fst resp, rsp_text = (case snd resp of TextBody t \<Rightarrow> t | _ \<Rightarrow> []), rsp_value = Inr ()\<rparr>"

text \<open>The services behind the requests, as the handlers answer them.\<close>

definition commit_server :: "string \<Rightarrow> string \<Rightarrow> u64 \<Rightarrow> bytes \<Rightarrow> DeliveryService \<Rightarrow> unit http_response \<times> DeliveryService" where
  "commit_server g s e b ds = apfst text_response (http_publish_group_commit 0 ds g s e b)"

definition ack_server :: "string list \<Rightarrow> string \<Rightarrow> string \<Rightarrow> DeliveryService \<Rightarrow> unit http_response \<times> DeliveryService" where
  "ack_server order r i ds = apfst text_response (http_ack_commit 0 order ds r i)"

definition put_server :: "string \<Rightarrow> u64 \<Rightarrow> string list \<Rightarrow> DeliveryService \<Rightarrow> unit http_response \<times> DeliveryService" where
  "put_server g e ms ds = apfst text_response (http_put_group_state 0 ds g e ms)"

definition key_package_server :: "string \<Rightarrow> DeliveryService \<Rightarrow> bytes http_response \<times> DeliveryService" where
  "key_package_server owner ds =
     apfst (\<lambda>resp. \<lparr>rsp_status = fst resp, rsp_text = [],
                     rsp_value = (case snd resp of OctetBody b \<Rightarrow> Inr b | _ \<Rightarrow> Inr [])\<rparr>)
       (http_fetch_key_package 0 ds owner)"

definition message_server :: "string \<Rightarrow> string \<Rightarrow> string list \<Rightarrow> bytes \<Rightarrow> MessageRelay \<Rightarrow> unit http_response \<times> MessageRelay" where
  "message_server g s rs b mr =
     apfst (\<lambda>st. \<lparr>rsp_status = st, rsp_text = [], rsp_value = Inr ()\<rparr>)
       (http_publish_group_application_message 0 mr g s (Some (Some (join '','' rs))) b)"

text \<open>The state of the delivery service without its request statistics.\<close>

definition without_metrics :: "DeliveryService \<Rightarrow> DeliveryService" where
  "without_metrics ds = ds\<lparr>ds_metrics := service_metrics_new None\<rparr>"

section \<open>Idempotent requests\<close>

definition losses :: "fate list \<Rightarrow> bool" where
  "losses fs \<longleftrightarrow> list_all (\<lambda>f. f \<noteq> Arrives) fs"

text \<open>
  An observation \<open>view\<close> of the server state that a repeated request does not change further: after any
  number of losses and the final arrival it is what a single request gives.
\<close>

lemma state_after_losses:
  assumes "losses fs" and "\<And>s. view (snd (handler s)) = once (view s)" and "\<And>x. once (once x) = once x"
  shows "k \<le> length fs \<Longrightarrow>
    snd (state_before (\<lambda>w. apfst dec (exchange_with handler err w)) (s, fs) k) = drop k fs \<and>
    view (fst (state_before (\<lambda>w. apfst dec (exchange_with handler err w)) (s, fs) k)) \<in> {view s, once (view s)}"
  using assms(1)
proof (induction k arbitrary: s fs)
  case (Suc k)
  then obtain f fs' where fs: "fs = f # fs'" "f \<noteq> Arrives" "losses fs'" "k \<le> length fs'"
    by (cases fs) (auto simp: losses_def)
  have IH: "snd (state_before (\<lambda>w. apfst dec (exchange_with handler err w)) (t, fs') k) = drop k fs' \<and>
    view (fst (state_before (\<lambda>w. apfst dec (exchange_with handler err w)) (t, fs') k)) \<in> {view t, once (view t)}"
    for t using Suc.IH [OF fs(4) fs(3)] .
  show ?case using fs(1,2) IH [of s] IH [of "snd (handler s)"] assms(2,3) by (cases f) auto
qed simp

lemma decision_losses:
  assumes "losses fs" and "j < length fs"
    and "f = (\<lambda>w. apfst dec (exchange_with handler err w))"
  shows "decision f (s, fs) j = dec (Inl err)"
  using assms(1,2)
proof (induction j arbitrary: s fs)
  case 0
  then obtain x fs' where "fs = x # fs'" "x \<noteq> Arrives" by (cases fs) (auto simp: losses_def)
  then show ?case by (cases x) (auto simp: assms(3))
next
  case (Suc j)
  then obtain x fs' where fs: "fs = x # fs'" "x \<noteq> Arrives" "losses fs'" "j < length fs'"
    by (cases fs) (auto simp: losses_def)
  then obtain t where "snd (f (s, fs)) = (t, fs')" by (cases x) (auto simp: assms(3))
  then show ?case using Suc.IH [OF fs(3,4), of t] by simp
qed

lemma retry_idempotent:
  fixes handler :: "'s \<Rightarrow> 'v http_response \<times> 's"
  defines "f \<equiv> \<lambda>dec err w. apfst dec (exchange_with handler err w)"
  assumes l: "losses fs" "length fs < 10"
    and idem: "\<And>s. view (snd (handler s)) = once (view s)" "\<And>x. once (once x) = once x"
    and tr: "is_transient (dec (Inl err))"
    and ok: "\<And>s'. view s' \<in> {view s, once (view s)} \<Longrightarrow> dec (Inr (fst (handler s'))) = Success v"
  shows "fst (retry_transient_http rc (f dec err) (s, fs)) = Some (Inr v) \<and>
    view (fst (fst (snd (retry_transient_http rc (f dec err) (s, fs))))) = once (view s)"
proof -
  let ?k = "length fs" and ?f = "f dec err"
  have trans: "\<forall>j < ?k. is_transient (decision ?f (s, fs) j)"
    using decision_losses [OF l(1) _ refl, of _ dec handler err s] tr by (simp add: f_def)
  have st: "snd (state_before ?f (s, fs) ?k) = []"
    "view (fst (state_before ?f (s, fs) ?k)) \<in> {view s, once (view s)}"
    using state_after_losses [where view = view and once = once and handler = handler, OF l(1) idem, of ?k dec err s]
    by (simp_all add: f_def)
  then obtain s' where s': "state_before ?f (s, fs) ?k = (s', [])" "view s' \<in> {view s, once (view s)}"
    by (cases "state_before ?f (s, fs) ?k") auto
  have d: "decision ?f (s, fs) ?k = Success v" using s' ok by (simp add: decision_def f_def)
  have last: "state_before ?f (s, fs) (Suc ?k) = snd (?f (s', []))"
    using s'(1) state_before_Suc [of ?f "(s, fs)" ?k] by simp
  have le: "1 + ?k \<le> MAX_ATTEMPTS" using l(2) by (simp add: MAX_ATTEMPTS_def)
  have nt: "is_transient (decision ?f (s, fs) ?k) \<Longrightarrow> 1 + ?k = MAX_ATTEMPTS" by (simp add: d)
  have "view (fst (snd (?f (s', [])))) = once (view s)"
    using s'(2) idem by (auto simp: f_def)
  then show ?thesis
    using retry_turns_stops [OF trans le nt, of rc INITIAL_DELAY] last
    by (simp add: d retry_transient_http_def)
qed

section \<open>The delivery service without its metrics\<close>

lemma metrics_update_swap:
  "ds\<lparr>ds_metrics := m, commit_inboxes := c\<rparr> = ds\<lparr>commit_inboxes := c, ds_metrics := m\<rparr>"
  "ds\<lparr>ds_metrics := m, groups := g\<rparr> = ds\<lparr>groups := g, ds_metrics := m\<rparr>"
  by simp_all

lemma commit_inbox_push_metrics:
  "commit_inbox_push (ds\<lparr>ds_metrics := m\<rparr>) r d = (commit_inbox_push ds r d)\<lparr>ds_metrics := m\<rparr>"
  by (simp add: commit_inbox_push_def)

lemma push_all_metrics_update:
  "push_all commit_inbox_push mk (ds\<lparr>ds_metrics := m\<rparr>) rs =
     (push_all commit_inbox_push mk ds rs)\<lparr>ds_metrics := m\<rparr>"
  by (induction rs arbitrary: ds) (simp_all add: push_all_def commit_inbox_push_metrics)

lemma find_log_commit_metrics [simp]:
  "find_log_commit (ds\<lparr>ds_metrics := m\<rparr>) r i order = find_log_commit ds r i order"
  by (induction order) (simp_all split: option.split)

lemma ops_metrics_update:
  "snd (ack_commit order (ds\<lparr>ds_metrics := m\<rparr>) r i) = (snd (ack_commit order ds r i))\<lparr>ds_metrics := m\<rparr>"
  "snd (put_group_state (ds\<lparr>ds_metrics := m\<rparr>) g e ms) = (snd (put_group_state ds g e ms))\<lparr>ds_metrics := m\<rparr>"
  "fst (put_group_state (ds\<lparr>ds_metrics := m\<rparr>) g e ms) = fst (put_group_state ds g e ms)"
  "fst (publish_group_commit (ds\<lparr>ds_metrics := m\<rparr>) g s e b) = fst (publish_group_commit ds g s e b)"
  "snd (publish_group_commit (ds\<lparr>ds_metrics := m\<rparr>) g s e b) =
     (snd (publish_group_commit ds g s e b))\<lparr>ds_metrics := m\<rparr>"
  by (auto simp: ack_commit_def ack_commit_inbox_def ack_group_log_commit_compat_def cursor_of_def
      put_group_state_def publish_group_commit_def accept_commit_def deliver_commit_def Let_def
      metrics_update_swap push_all_metrics_update split: option.splits CommitDeliveryMode.splits)

lemma ack_server_once:
  "without_metrics (snd (ack_server order r i ds)) = snd (ack_commit order (without_metrics ds) r i)"
  by (simp add: ack_server_def http_ack_commit_def guard_close_def guard_start_def without_metrics_def
      ops_metrics_update split_beta)

lemma put_server_once:
  "without_metrics (snd (put_server g e ms ds)) = snd (put_group_state (without_metrics ds) g e ms)"
  by (simp add: put_server_def http_put_group_state_def guard_close_def guard_start_def without_metrics_def
      ops_metrics_update split_beta)

lemma find_log_commit_cursors [simp]:
  "find_log_commit (ds\<lparr>commit_cursors := c\<rparr>) r i order = find_log_commit ds r i order"
  by (induction order) (simp_all split: option.split)

lemma ack_commit_idempotent:
  "snd (ack_commit order (snd (ack_commit order ds r i)) r i) = snd (ack_commit order ds r i)"
proof (cases "delivery_mode ds")
  case PerRecipient
  then show ?thesis
    by (auto simp: ack_commit_def ack_commit_inbox_def Let_def retain_other_def split: option.splits)
next
  case GroupLog
  then show ?thesis
    by (auto simp: ack_commit_def ack_group_log_commit_compat_def cursor_of_def max_def split: option.splits)
qed

lemma put_group_state_idempotent:
  "snd (put_group_state (snd (put_group_state ds g e ms)) g e ms) = snd (put_group_state ds g e ms)"
  by (auto simp: put_group_state_def split: option.splits)

section \<open>Properties\<close>

text \<open>
  Acknowledging a commit is safe to retry: whatever of the first nine exchanges is lost,
  request or answer, the call succeeds, and apart from its request statistics the delivery
  service is left as by a single acknowledgement.
\<close>

theorem retried_ack_is_one_ack:
  assumes "losses fs" and "length fs < 10" and "is_transient_reqwest_error err"
  shows "fst (ds_ack_commit_delivery rd rc (exchange_with (ack_server order r i) err) (ds, fs)) = Some (Inr ()) \<and>
    without_metrics (fst (fst (snd (ds_ack_commit_delivery rd rc
      (exchange_with (ack_server order r i) err) (ds, fs))))) = snd (ack_commit order (without_metrics ds) r i)"
  unfolding ds_ack_commit_delivery_def
proof (rule retry_idempotent [where once = "\<lambda>x. snd (ack_commit order x r i)", OF assms(1,2)])
  show "is_transient (unit_decision ''DS ack commit'' rd (Inl err))"
    using assms(3) by (simp add: unit_decision_def transient_or_fatal_def)
  show "unit_decision ''DS ack commit'' rd (Inr (fst (ack_server order r i s'))) = Success ()" for s'
    by (simp add: unit_decision_def is_success_def ack_server_def http_ack_commit_def guard_close_def
        text_response_def split_beta)
qed (simp_all add: ack_server_once ack_commit_idempotent)

text \<open>
  So is reporting a group state that the delivery service accepts.
\<close>

theorem retried_put_is_one_put:
  assumes "losses fs" and "length fs < 10" and "is_transient_reqwest_error err"
    and "fst (put_group_state ds g e ms) = Inr ()"
  shows "fst (ds_put_json rd rc (exchange_with (put_server g e ms) err) (ds, fs)) = Some (Inr ()) \<and>
    without_metrics (fst (fst (snd (ds_put_json rd rc (exchange_with (put_server g e ms) err) (ds, fs))))) =
      snd (put_group_state (without_metrics ds) g e ms)"
  unfolding ds_put_json_def
proof (rule retry_idempotent [where once = "\<lambda>x. snd (put_group_state x g e ms)", OF assms(1,2)])
  show "is_transient (unit_decision ''DS PUT'' rd (Inl err))"
    using assms(3) by (simp add: unit_decision_def transient_or_fatal_def)
  fix s'
  assume "without_metrics s' \<in> {without_metrics ds, snd (put_group_state (without_metrics ds) g e ms)}"
  moreover have "fst (put_group_state (without_metrics ds) g e ms) = Inr ()"
    using assms(4) by (simp add: without_metrics_def ops_metrics_update)
  ultimately have "fst (put_group_state (without_metrics s') g e ms) = Inr ()"
    by (auto simp: put_group_state_def split: option.splits if_splits)
  then have "fst (put_group_state s' g e ms) = Inr ()" by (simp add: without_metrics_def ops_metrics_update)
  then show "unit_decision ''DS PUT'' rd (Inr (fst (put_server g e ms s'))) = Success ()"
    by (simp add: unit_decision_def is_success_def put_server_def http_put_group_state_def guard_close_def
        text_response_def guard_start_def ops_metrics_update ok_or_conflict_def split_beta)
qed (simp_all add: put_server_once put_group_state_idempotent)

definition timeout_error :: reqwest_error where
  "timeout_error = \<lparr>err_text = ''operation timed out'', err_connect = False, err_timeout = True,
     err_request = True, err_body = False, err_sources = []\<rparr>"

definition plain_rendering :: rendering where
  "plain_rendering = \<lparr>show_status = show_nat, show_chain = err_text\<rparr>"

theorem retried_ack_is_one_ack_witness:
  "losses [AnswerLost, RequestLost] \<and> is_transient_reqwest_error timeout_error \<and>
   fst (ds_ack_commit_delivery plain_rendering demo_context (exchange_with (ack_server [] ''b'' ''g:6:a:b'') timeout_error)
     (demo_group, [AnswerLost, RequestLost])) = Some (Inr ())"
proof -
  have h: "losses [AnswerLost, RequestLost]" "length [AnswerLost, RequestLost] < 10"
    "is_transient_reqwest_error timeout_error"
    by (simp_all add: losses_def is_transient_reqwest_error_def timeout_error_def)
  show ?thesis using retried_ack_is_one_ack [OF h, of plain_rendering demo_context "[]" "''b''" "''g:6:a:b''" demo_group] h
    by blast
qed

theorem retried_put_is_one_put_witness:
  "losses [AnswerLost] \<and> is_transient_reqwest_error timeout_error \<and>
   fst (put_group_state demo_group ''g'' 5 [''a'']) = Inr () \<and>
   fst (ds_put_json plain_rendering demo_context (exchange_with (put_server ''g'' 5 [''a'']) timeout_error)
     (demo_group, [AnswerLost])) = Some (Inr ())"
proof -
  have h: "losses [AnswerLost]" "length [AnswerLost] < 10" "is_transient_reqwest_error timeout_error"
    by (simp_all add: losses_def is_transient_reqwest_error_def timeout_error_def)
  have p: "fst (put_group_state demo_group ''g'' 5 [''a'']) = Inr ()"
    by (simp add: demo_group_def demo_service_def ds_step_def put_group_state_def with_delivery_mode_def)
  show ?thesis using retried_put_is_one_put [OF h p, of plain_rendering demo_context] h p by blast
qed

section \<open>Requests that are not idempotent\<close>

lemma retry_after_one_loss:
  assumes "is_transient (fst (f w))" and "\<not> is_transient (fst (f (snd (f w))))"
  shows "fst (retry_transient_http rc f w) =
      Some (case fst (f (snd (f w))) of Success v \<Rightarrow> Inr v | Transient c \<Rightarrow> Inl (retry_error rc 2 c)
            | Fatal e \<Rightarrow> Inl (retry_error rc 2 e)) \<and>
    fst (snd (retry_transient_http rc f w)) = snd (f (snd (f w)))"
proof -
  have "\<forall>j < 1. is_transient (decision f w j)" using assms(1) by simp
  moreover have "decision f w 1 = fst (f (snd (f w)))" by (simp add: decision_def)
  ultimately show ?thesis
    using retry_turns_stops [of 1 f w 1 rc INITIAL_DELAY, unfolded one_add_one] assms(2)
    by (simp add: retry_transient_http_def MAX_ATTEMPTS_def numeral_2_eq_2)
qed

lemma word_plus_one_neq: "(w :: u64) + 1 \<noteq> w"
  by simp

text \<open>
  (C33) A commit whose answer is lost is reported as a conflict although it was accepted: the
  retried request meets the epoch the first one advanced. The worker then treats its commit as
  rejected, while the delivery service holds it, at the next epoch, for every member.
\<close>

theorem lost_answer_makes_accepted_commit_conflict:
  assumes "is_transient_reqwest_error err" and "groups ds g = Some st" and "current_epoch st = e"
  shows "let (res, (ds', _), _) = ds_post_bytes_allow_conflict rd rc
      (exchange_with (commit_server g s e b) err) (ds, [AnswerLost]) in
    (\<exists>message. res = Some (Inr (DsConflict message))) \<and>
    groups ds' = (groups ds)(g \<mapsto> st\<lparr>current_epoch := e + 1\<rparr>) \<and>
    (delivery_mode ds = PerRecipient \<longrightarrow>
       (\<forall>r. inbox ds' r = inbox ds r @ map (commit_record g (e + 1) s b) (filter (\<lambda>x. x = r) (members st))))"
proof -
  let ?f = "\<lambda>w. apfst (post_allow_conflict_decision rd) (exchange_with (commit_server g s e b) err w)"
  let ?ds1 = "snd (commit_server g s e b ds)"
  have server: "fst (commit_server g s e b d) = text_response (ok_or_conflict (fst (publish_group_commit d g s e b)))"
    "\<exists>m. snd (commit_server g s e b d) = (snd (publish_group_commit d g s e b))\<lparr>ds_metrics := m\<rparr>" for d
    by (auto simp: commit_server_def http_publish_group_commit_def guard_close_def guard_start_def
        ops_metrics_update split_beta)
  obtain m where ds1: "?ds1 = (snd (publish_group_commit ds g s e b))\<lparr>ds_metrics := m\<rparr>" using server(2) by blast
  have grp: "groups ?ds1 = (groups ds)(g \<mapsto> st\<lparr>current_epoch := e + 1\<rparr>)"
    using assms(2,3) ds1 by (simp add: publish_group_commit_def accept_commit_def)
  then obtain msg where rej: "publish_group_commit ?ds1 g s e b = (Inl msg, ?ds1)"
    using publish_rejected [of ?ds1 g e s b] word_plus_one_neq [of e] by auto
  obtain m' where ds2: "snd (commit_server g s e b ?ds1) = ?ds1\<lparr>ds_metrics := m'\<rparr>"
    using server(2) [of ?ds1] rej by auto
  have f1: "?f (ds, [AnswerLost]) = (transient_or_fatal rd err, (?ds1, []))"
    by (simp add: post_allow_conflict_decision_def)
  have f2: "?f (?ds1, []) = (Success (DsConflict msg), (?ds1\<lparr>ds_metrics := m'\<rparr>, []))"
    using ds2 by (simp add: server(1) rej post_allow_conflict_decision_def ok_or_conflict_def text_response_def is_success_def)
  have box: "delivery_mode ds = PerRecipient \<Longrightarrow> inbox ?ds1 r =
      inbox ds r @ map (commit_record g (e + 1) s b) (filter (\<lambda>x. x = r) (members st))" for r
    using publish_per_recipient [OF _ assms(2,3), of s b r] ds1 by simp
  have "is_transient (fst (?f (ds, [AnswerLost])))"
    using assms(1) by (simp add: post_allow_conflict_decision_def transient_or_fatal_def)
  from retry_after_one_loss [where f = ?f and w = "(ds, [AnswerLost])" and rc = rc, OF this]
  have "fst (ds_post_bytes_allow_conflict rd rc (exchange_with (commit_server g s e b) err) (ds, [AnswerLost])) =
      Some (Inr (DsConflict msg))"
    "fst (snd (ds_post_bytes_allow_conflict rd rc (exchange_with (commit_server g s e b) err) (ds, [AnswerLost]))) =
      (?ds1\<lparr>ds_metrics := m'\<rparr>, [])"
    by (simp_all only: f1 f2 snd_conv fst_conv ds_post_bytes_allow_conflict_def is_transient.simps
        RetryDecision.case simp_thms)
  then show ?thesis using grp box by (simp add: Let_def split_beta)
qed

theorem lost_answer_makes_accepted_commit_conflict_witness:
  "is_transient_reqwest_error timeout_error \<and>
   groups demo_group ''g'' = Some \<lparr>current_epoch = 5, members = [''a'', ''b'']\<rparr> \<and>
   groups (fst (fst (snd (ds_post_bytes_allow_conflict plain_rendering demo_context
      (exchange_with (commit_server ''g'' ''a'' 5 [1]) timeout_error) (demo_group, [AnswerLost]))))) =
     (groups demo_group)(''g'' \<mapsto> \<lparr>current_epoch = 5 + 1, members = [''a'', ''b'']\<rparr>)"
proof -
  have h: "is_transient_reqwest_error timeout_error"
    by (simp add: is_transient_reqwest_error_def timeout_error_def)
  have g: "groups demo_group ''g'' = Some \<lparr>current_epoch = 5, members = [''a'', ''b'']\<rparr>"
    by (simp add: demo_group_def demo_service_def ds_step_def put_group_state_def with_delivery_mode_def)
  show ?thesis
    using lost_answer_makes_accepted_commit_conflict [OF h g, of 5 plain_rendering demo_context "''a''" "[1]"] h g
    by (simp add: Let_def split_beta)
qed

text \<open>
  (C37) A key package whose answer is lost is gone: the service removes it when it is
  fetched, the retried request finds nothing and the call fails, although a key package was
  published.
\<close>

theorem lost_answer_loses_key_package:
  assumes "is_transient_reqwest_error err" and "key_packages ds owner = Some kp"
  shows "let (res, (ds', _), _) = ds_get_bytes rd rc (exchange_with (key_package_server owner) err) (ds, [AnswerLost]) in
    (\<exists>message. res = Some (Inl message)) \<and> key_packages ds' owner = None"
proof -
  let ?f = "\<lambda>w. apfst (value_decision ''DS GET'' rd) (exchange_with (key_package_server owner) err w)"
  let ?ds1 = "snd (key_package_server owner ds)"
  have kp1: "key_packages ?ds1 owner = None"
    by (simp add: key_package_server_def http_fetch_key_package_def guard_close_def fetch_key_package_def split_beta)
  have st: "rsp_status (fst (key_package_server owner ?ds1)) = 404"
    using kp1 by (simp add: key_package_server_def [of owner ?ds1] http_fetch_key_package_def guard_close_def
        fetch_key_package_def guard_start_def bytes_or_404_def split_beta)
  have kp2: "key_packages (snd (key_package_server owner ?ds1)) owner = None"
    by (simp add: key_package_server_def http_fetch_key_package_def guard_close_def fetch_key_package_def split_beta)
  have f1: "?f (ds, [AnswerLost]) = (transient_or_fatal rd err, (?ds1, []))" by (simp add: value_decision_def)
  obtain e where f2: "?f (?ds1, []) = (Fatal e, (snd (key_package_server owner ?ds1), []))"
    using st by (simp add: value_decision_def is_success_def is_transient_status_def)
  have "is_transient (fst (?f (ds, [AnswerLost])))"
    using assms(1) by (simp add: value_decision_def transient_or_fatal_def)
  from retry_after_one_loss [where f = ?f and w = "(ds, [AnswerLost])" and rc = rc, OF this]
  have "fst (ds_get_bytes rd rc (exchange_with (key_package_server owner) err) (ds, [AnswerLost])) = Some (Inl (retry_error rc 2 e))"
    "fst (snd (ds_get_bytes rd rc (exchange_with (key_package_server owner) err) (ds, [AnswerLost]))) =
      (snd (key_package_server owner ?ds1), [])"
    by (simp_all only: f1 f2 snd_conv fst_conv ds_get_bytes_def is_transient.simps RetryDecision.case simp_thms)
  then show ?thesis using kp2 by (simp add: Let_def split_beta)
qed

theorem lost_answer_loses_key_package_witness:
  "is_transient_reqwest_error timeout_error \<and> key_packages (publish_key_package demo_service ''a'' [9]) ''a'' = Some [9] \<and>
   key_packages (fst (fst (snd (ds_get_bytes plain_rendering demo_context
     (exchange_with (key_package_server ''a'') timeout_error) (publish_key_package demo_service ''a'' [9], [AnswerLost]))))) ''a'' = None"
proof -
  have h: "is_transient_reqwest_error timeout_error"
    by (simp add: is_transient_reqwest_error_def timeout_error_def)
  have k: "key_packages (publish_key_package demo_service ''a'' [9]) ''a'' = Some [9]"
    by (simp add: publish_key_package_def)
  show ?thesis using lost_answer_loses_key_package [OF h k, of plain_rendering demo_context] h k
    by (simp add: Let_def split_beta)
qed

text \<open>
  An application message whose answer is lost is delivered twice: the retried request is
  a new publication with a new sequence number, so its recipients find the same bytes under
  two identifiers and cannot tell them apart by acknowledging.
\<close>

theorem lost_answer_duplicates_message:
  assumes "is_transient_reqwest_error err" and "r \<noteq> sn" and "r \<noteq> []" and "CHR '','' \<notin> set r" and "trim r = r"
  shows "let (res, (mr', _), _) = relay_post_application_message rd rc
      (exchange_with (message_server g sn [r] b) err) (mr, [AnswerLost]);
      n = next_message_id mr in
    res = Some (Inr ()) \<and>
    relay_inbox mr' r = relay_inbox mr r @ [relay_envelope g sn n b r, relay_envelope g sn (n + 1) b r]"
proof -
  let ?f = "\<lambda>w. apfst (unit_decision ''Relay POST'' rd) (exchange_with (message_server g sn [r] b) err w)"
  have p: "parse_recipients_header (Some (join '','' [r])) = Inr [r]"
    by (rule parse_recipients_join) (use assms(3-5) in auto)
  have server: "rsp_status (fst (message_server g sn [r] b m)) = 200 \<and>
      next_message_id (snd (message_server g sn [r] b m)) = next_message_id m + 1 \<and>
      relay_inbox (snd (message_server g sn [r] b m)) r = relay_inbox m r @ [relay_envelope g sn (next_message_id m) b r]" for m
    using assms(2) p
    by (simp add: message_server_def http_publish_group_application_message_def Let_def split_beta
        publish_group_application_message_def publish_response_def relay_inbox_def relay_inbox_push_def)
  let ?m1 = "snd (message_server g sn [r] b mr)"
  have f1: "?f (mr, [AnswerLost]) = (transient_or_fatal rd err, (?m1, []))" by (simp add: unit_decision_def)
  have f2: "?f (?m1, []) = (Success (), (snd (message_server g sn [r] b ?m1), []))"
    using server [of ?m1] by (simp add: unit_decision_def is_success_def)
  have "is_transient (fst (?f (mr, [AnswerLost])))"
    using assms(1) by (simp add: unit_decision_def transient_or_fatal_def)
  from retry_after_one_loss [where f = ?f and w = "(mr, [AnswerLost])" and rc = rc, OF this]
  have "fst (relay_post_application_message rd rc (exchange_with (message_server g sn [r] b) err) (mr, [AnswerLost])) = Some (Inr ())"
    "fst (snd (relay_post_application_message rd rc (exchange_with (message_server g sn [r] b) err) (mr, [AnswerLost]))) =
      (snd (message_server g sn [r] b ?m1), [])"
    by (simp_all only: f1 f2 snd_conv fst_conv relay_post_application_message_def is_transient.simps RetryDecision.case simp_thms)
  then show ?thesis using server [of mr] server [of ?m1] by (simp add: Let_def split_beta)
qed

theorem lost_answer_duplicates_message_witness:
  "is_transient_reqwest_error timeout_error \<and> ''b'' \<noteq> ''a'' \<and> trim ''b'' = ''b'' \<and>
   fst (relay_post_application_message plain_rendering demo_context (exchange_with (message_server ''g'' ''a'' [''b''] [7]) timeout_error)
     (message_relay_new (service_metrics_new None), [AnswerLost])) = Some (Inr ())"
proof -
  have h: "is_transient_reqwest_error timeout_error" "''b'' \<noteq> ''a''" "''b'' \<noteq> []" "CHR '','' \<notin> set ''b''"
    by (simp_all add: is_transient_reqwest_error_def timeout_error_def)
  have t: "trim ''b'' = ''b''" by code_simp
  show ?thesis
    using lost_answer_duplicates_message [OF h t, of plain_rendering demo_context "''g''" "[7]" "message_relay_new (service_metrics_new None)"] h t
    by (simp add: Let_def split_beta)
qed

end
