(* ===== verification/Command_Cache.thy ===== *)
theory Command_Cache
  imports Interfaces "HOL-Library.AList"
begin

text \<open>
  The worker's cache of completed commands (\<^verbatim>\<open>CompletedCommandCache\<close> in
  \<^verbatim>\<open>src/OpenMLS_containerized/src/worker_api.rs\<close>, the same code in the Signal tree) and the command actor
  that consults it (\<^verbatim>\<open>client_command_actor\<close> in \<^verbatim>\<open>bin/worker.rs\<close>). The hash map is an association
  list with distinct keys. Every reading of the clock is an argument, in milliseconds of a monotonic
  clock. What the actor runs (the MLS client and the services behind it) is a parameter \<open>exec\<close> on a
  state; the heap budget and the profile check enter through the verdicts they return.
\<close>

section \<open>The cache\<close>

record CommandResponse =
  cr_status :: string
  cr_message :: string

definition command_ok :: "string \<Rightarrow> CommandResponse" where
  "command_ok message = \<lparr>cr_status = ''ok'', cr_message = message\<rparr>"

definition command_error :: "string \<Rightarrow> CommandResponse" where
  "command_error message = \<lparr>cr_status = ''error'', cr_message = message\<rparr>"

record CachedCommandResponse =
  cc_response :: CommandResponse
  cc_completed_at :: nat

record CompletedCommandCache =
  cache_entries :: "(string \<times> CachedCommandResponse) list"
  cache_order :: "string list"
  cache_max_entries :: nat
  cache_ttl :: nat

definition cache_new :: "nat \<Rightarrow> nat \<Rightarrow> CompletedCommandCache" where
  "cache_new max_entries ttl =
     \<lparr>cache_entries = [], cache_order = [], cache_max_entries = max_entries, cache_ttl = ttl\<rparr>"

fun prune_loop :: "nat \<Rightarrow> nat \<Rightarrow> (string \<times> CachedCommandResponse) list \<Rightarrow> string list
    \<Rightarrow> (string \<times> CachedCommandResponse) list \<times> string list" where
  "prune_loop now ttl entries [] = (entries, [])"
| "prune_loop now ttl entries (request_id # rest) =
     (let expired = (case map_of entries request_id of
                       Some cached \<Rightarrow> now - cc_completed_at cached > ttl
                     | None \<Rightarrow> True)
      in if \<not> expired then (entries, request_id # rest)
         else prune_loop now ttl (AList.delete request_id entries) rest)"

definition prune_expired :: "nat \<Rightarrow> CompletedCommandCache \<Rightarrow> CompletedCommandCache" where
  "prune_expired now c =
     (if cache_ttl c = 0 then c\<lparr>cache_entries := [], cache_order := []\<rparr>
      else case prune_loop now (cache_ttl c) (cache_entries c) (cache_order c) of
             (entries, order) \<Rightarrow> c\<lparr>cache_entries := entries, cache_order := order\<rparr>)"

definition cache_get :: "nat \<Rightarrow> CompletedCommandCache \<Rightarrow> string \<Rightarrow> CommandResponse option \<times> CompletedCommandCache" where
  "cache_get now c request_id =
     (let c' = prune_expired now c
      in (map_option cc_response (map_of (cache_entries c') request_id), c'))"

fun evict_loop :: "nat \<Rightarrow> (string \<times> CachedCommandResponse) list \<Rightarrow> string list
    \<Rightarrow> (string \<times> CachedCommandResponse) list \<times> string list" where
  "evict_loop max_entries entries [] = (entries, [])"
| "evict_loop max_entries entries (oldest # rest) =
     (if length entries > max_entries then evict_loop max_entries (AList.delete oldest entries) rest
      else (entries, oldest # rest))"

text \<open>The first time is the one the pruning reads, the second the completion time stored.\<close>

definition cache_insert ::
  "nat \<Rightarrow> nat \<Rightarrow> CompletedCommandCache \<Rightarrow> string \<Rightarrow> CommandResponse \<Rightarrow> CompletedCommandCache" where
  "cache_insert now completed c request_id response =
     (if cache_max_entries c = 0 then c
      else let c1 = prune_expired now c;
               order = (if map_of (cache_entries c1) request_id = None
                        then cache_order c1 @ [request_id] else cache_order c1);
               entries = AList.update request_id
                 \<lparr>cc_response = response, cc_completed_at = completed\<rparr> (cache_entries c1)
           in case evict_loop (cache_max_entries c1) entries order of
                (entries', order') \<Rightarrow> c1\<lparr>cache_entries := entries', cache_order := order'\<rparr>)"

section \<open>The command actor\<close>

record 'cmd command_envelope =
  ev_request_id :: "string option"
  ev_command :: 'cmd

text \<open>The clock readings of one turn and the verdicts of the checks after the command.\<close>

record turn =
  tn_get :: nat
  tn_prune :: nat
  tn_completed :: nat
  tn_heap_failure :: "string option"
  tn_profile_missing :: "string option"

record 'c client_slot =
  slot_client :: 'c
  slot_cache :: CompletedCommandCache

text \<open>The heap budget overrides every result; the profile check only overrides a success.\<close>

definition checked_result :: "turn \<Rightarrow> string result \<Rightarrow> string result" where
  "checked_result t result =
     (let r1 = (case tn_heap_failure t of Some failure \<Rightarrow> Inl failure | None \<Rightarrow> result)
      in case (r1, tn_profile_missing t) of
           (Inr message, Some op) \<Rightarrow>
             if \<not> contains ''queued for retry'' message
             then Inl (''PROFILE_MEASUREMENT_NOT_PERSISTED: canonical_op='' @ op @
                       '' requires positive cpu_process_ns and alloc_bytes'')
             else r1
         | _ \<Rightarrow> r1)"

definition command_response :: "string result \<Rightarrow> CommandResponse" where
  "command_response result = (case result of Inr message \<Rightarrow> command_ok message | Inl err \<Rightarrow> command_error err)"

definition run_envelope ::
  "('c \<Rightarrow> 'cmd \<Rightarrow> string result \<times> 'c) \<Rightarrow> turn \<Rightarrow> 'c client_slot \<Rightarrow> 'cmd command_envelope
     \<Rightarrow> CommandResponse \<times> 'c client_slot" where
  "run_envelope exec t slot ev =
     (case exec (slot_client slot) (ev_command ev) of
        (result, client') \<Rightarrow>
          (let response = command_response (checked_result t result);
               cache' = (case ev_request_id ev of
                           Some request_id \<Rightarrow>
                             cache_insert (tn_prune t) (tn_completed t) (slot_cache slot) request_id response
                         | None \<Rightarrow> slot_cache slot)
           in (response, slot\<lparr>slot_client := client', slot_cache := cache'\<rparr>)))"

definition client_command_actor ::
  "('c \<Rightarrow> 'cmd \<Rightarrow> string result \<times> 'c) \<Rightarrow> turn \<Rightarrow> 'c client_slot \<Rightarrow> 'cmd command_envelope
     \<Rightarrow> CommandResponse \<times> 'c client_slot" where
  "client_command_actor exec t slot ev =
     (case ev_request_id ev of
        Some request_id \<Rightarrow>
          (case cache_get (tn_get t) (slot_cache slot) request_id of
             (Some response, cache') \<Rightarrow> (response, slot\<lparr>slot_cache := cache'\<rparr>)
           | (None, cache') \<Rightarrow> run_envelope exec t (slot\<lparr>slot_cache := cache'\<rparr>) ev)
      | None \<Rightarrow> run_envelope exec t slot ev)"

fun actor_run :: "('c \<Rightarrow> 'cmd \<Rightarrow> string result \<times> 'c) \<Rightarrow> 'c client_slot \<Rightarrow> (turn \<times> 'cmd command_envelope) list
    \<Rightarrow> 'c client_slot" where
  "actor_run exec slot [] = slot"
| "actor_run exec slot ((t, ev) # evs) = actor_run exec (snd (client_command_actor exec t slot ev)) evs"

section \<open>The cache invariant\<close>

text \<open>The order lists every key once; the size is bounded.\<close>

definition cache_inv :: "CompletedCommandCache \<Rightarrow> bool" where
  "cache_inv c \<longleftrightarrow>
     distinct (map fst (cache_entries c)) \<and> distinct (cache_order c) \<and>
     set (cache_order c) = fst ` set (cache_entries c) \<and>
     length (cache_entries c) \<le> cache_max_entries c"

definition linked :: "(string \<times> CachedCommandResponse) list \<Rightarrow> string list \<Rightarrow> bool" where
  "linked entries order \<longleftrightarrow>
     distinct (map fst entries) \<and> distinct order \<and> set order = fst ` set entries"

lemma linked_length: "linked entries order \<Longrightarrow> length entries = length order"
  by (metis distinct_card length_map linked_def list.set_map)

lemma keys_delete: "fst ` set (AList.delete x entries) = fst ` set entries - {x}"
  by (metis delete_keys list.set_map set_removeAll)

lemma linked_pop: "linked entries (x # order) \<Longrightarrow> linked (AList.delete x entries) order"
  unfolding linked_def keys_delete using distinct_delete [of entries x] by auto

lemma linked_prune: "linked entries order \<Longrightarrow> prune_loop now ttl entries order = (e', o') \<Longrightarrow> linked e' o'"
  by (induction now ttl entries order rule: prune_loop.induct)
    (auto simp: Let_def linked_pop split: if_splits)

lemma linked_evict:
  "linked entries order \<Longrightarrow> evict_loop n entries order = (e', o') \<Longrightarrow> linked e' o' \<and> length e' \<le> n"
proof (induction n entries order rule: evict_loop.induct)
  case (1 n entries)
  then show ?case using linked_length by fastforce
next
  case (2 n entries x order)
  then show ?case by (auto simp: linked_pop split: if_splits)
qed

lemma linked_insert:
  assumes "linked entries order"
  shows "linked (AList.update k v entries) (if map_of entries k = None then order @ [k] else order)"
proof -
  have "map_of entries k = None \<longleftrightarrow> k \<notin> set order"
    using assms by (simp add: linked_def map_of_eq_None_iff)
  then show ?thesis using assms by (auto simp: linked_def distinct_update dom_update)
qed

lemma cache_inv_linked:
  "cache_inv c \<longleftrightarrow> linked (cache_entries c) (cache_order c) \<and> length (cache_entries c) \<le> cache_max_entries c"
  by (auto simp: cache_inv_def linked_def)

lemma prune_sub: "prune_loop now ttl entries order = (e', o') \<Longrightarrow> length e' \<le> length entries"
proof (induction now ttl entries order rule: prune_loop.induct)
  case (2 now ttl entries x order)
  have "length (AList.delete x entries) \<le> length entries" by (rule length_delete_le)
  then show ?case using 2 by (fastforce simp: Let_def split: if_splits)
qed simp

lemma cache_inv_prune: "cache_inv c \<Longrightarrow> cache_inv (prune_expired now c)"
  by (auto simp: cache_inv_linked prune_expired_def linked_def [of "[]"] dest: prune_sub
      split: prod.split intro: linked_prune)

lemma prune_max [simp]: "cache_max_entries (prune_expired now c) = cache_max_entries c"
  "cache_ttl (prune_expired now c) = cache_ttl c"
  by (simp_all add: prune_expired_def split: prod.split)

lemma cache_insert_max [simp]: "cache_max_entries (cache_insert now t c k r) = cache_max_entries c"
  "cache_ttl (cache_insert now t c k r) = cache_ttl c"
  by (simp_all add: cache_insert_def Let_def split: prod.split)

lemma cache_insert_eq:
  assumes "cache_max_entries c \<noteq> 0"
  obtains e' o' where "cache_insert now t c k r = (prune_expired now c)\<lparr>cache_entries := e', cache_order := o'\<rparr>"
    "evict_loop (cache_max_entries c)
       (AList.update k \<lparr>cc_response = r, cc_completed_at = t\<rparr> (cache_entries (prune_expired now c)))
       (if map_of (cache_entries (prune_expired now c)) k = None
        then cache_order (prune_expired now c) @ [k] else cache_order (prune_expired now c)) = (e', o')"
proof -
  obtain e' o' where ev: "evict_loop (cache_max_entries c)
       (AList.update k \<lparr>cc_response = r, cc_completed_at = t\<rparr> (cache_entries (prune_expired now c)))
       (if map_of (cache_entries (prune_expired now c)) k = None
        then cache_order (prune_expired now c) @ [k] else cache_order (prune_expired now c)) = (e', o')"
    by fastforce
  show thesis by (rule that [OF _ ev]) (simp only: cache_insert_def Let_def prune_max ev prod.case assms if_False)
qed

lemma cache_inv_insert:
  assumes "cache_inv c"
  shows "cache_inv (cache_insert now t c k r)"
proof (cases "cache_max_entries c = 0")
  case True
  then show ?thesis using assms by (simp add: cache_insert_def)
next
  case False
  have l: "linked (cache_entries (prune_expired now c)) (cache_order (prune_expired now c))"
    using cache_inv_prune [OF assms] by (simp add: cache_inv_linked)
  obtain e' o' where i: "cache_insert now t c k r = (prune_expired now c)\<lparr>cache_entries := e', cache_order := o'\<rparr>"
    and ev: "evict_loop (cache_max_entries c)
       (AList.update k \<lparr>cc_response = r, cc_completed_at = t\<rparr> (cache_entries (prune_expired now c)))
       (if map_of (cache_entries (prune_expired now c)) k = None
        then cache_order (prune_expired now c) @ [k] else cache_order (prune_expired now c)) = (e', o')"
    using cache_insert_eq [OF False] .
  from linked_evict [OF linked_insert [OF l] ev] show ?thesis by (simp add: i cache_inv_linked)
qed

lemma cache_inv_new: "cache_inv (cache_new n ttl)"
  by (simp add: cache_inv_def cache_new_def)

section \<open>A completed command stays cached\<close>

text \<open>
  The command \<open>k\<close>, completed at \<open>t\<close> with response \<open>r\<close>, is cached, and at most \<open>n\<close> entries are younger.
\<close>

definition held :: "string \<Rightarrow> CommandResponse \<Rightarrow> nat \<Rightarrow> nat \<Rightarrow> CompletedCommandCache \<Rightarrow> bool" where
  "held k r t n c \<longleftrightarrow> cache_inv c \<and>
     map_of (cache_entries c) k = Some \<lparr>cc_response = r, cc_completed_at = t\<rparr> \<and>
     (\<exists>pre suf. cache_order c = pre @ k # suf \<and> length suf \<le> n)"

lemma held_mono: "held k r t n c \<Longrightarrow> n \<le> n' \<Longrightarrow> held k r t n' c"
  unfolding held_def by (meson le_trans)

lemma prune_loop_keeps:
  assumes "map_of entries k = Some v" and "\<not> now - cc_completed_at v > ttl" and "k \<notin> set pre"
  shows "\<exists>e' pre'. prune_loop now ttl entries (pre @ k # suf) = (e', pre' @ k # suf) \<and> map_of e' k = Some v"
  using assms(1,3)
proof (induction pre arbitrary: entries)
  case Nil
  then show ?case using assms(2) by (auto simp: Let_def)
next
  case (Cons x pre)
  have "map_of (AList.delete x entries) k = Some v" using Cons.prems by (simp add: delete_conv')
  from Cons.IH [OF this] Cons.prems show ?case by (fastforce simp: Let_def)
qed

lemma held_prune:
  assumes "held k r t n c" and "now \<le> t + cache_ttl c" and "cache_ttl c \<noteq> 0"
  shows "held k r t n (prune_expired now c)"
proof -
  obtain pre suf where o: "cache_order c = pre @ k # suf" "length suf \<le> n"
    and m: "map_of (cache_entries c) k = Some \<lparr>cc_response = r, cc_completed_at = t\<rparr>"
    and inv: "cache_inv c" using assms(1) by (auto simp: held_def)
  have "k \<notin> set pre" using inv o by (auto simp: cache_inv_def)
  moreover have "\<not> now - cc_completed_at \<lparr>cc_response = r, cc_completed_at = t\<rparr> > cache_ttl c" using assms(2) by simp
  ultimately obtain e' pre' where "prune_loop now (cache_ttl c) (cache_entries c) (pre @ k # suf) = (e', pre' @ k # suf)"
    "map_of e' k = Some \<lparr>cc_response = r, cc_completed_at = t\<rparr>"
    using prune_loop_keeps [OF m, of "cache_ttl c" now pre suf] by blast
  then show ?thesis using cache_inv_prune [OF inv, of now] assms(3) o
    by (auto simp: held_def prune_expired_def)
qed

lemma evict_loop_keeps:
  assumes "linked entries (pre @ k # suf)" and "map_of entries k = Some v" and "length suf < n"
  shows "\<exists>e' pre'. evict_loop n entries (pre @ k # suf) = (e', pre' @ k # suf) \<and> map_of e' k = Some v"
  using assms(1,2)
proof (induction pre arbitrary: entries)
  case Nil
  then show ?case using linked_length [OF Nil.prems(1)] assms(3) by auto
next
  case (Cons x pre)
  have "k \<noteq> x" using Cons.prems(1) by (auto simp: linked_def)
  then have "map_of (AList.delete x entries) k = Some v" using Cons.prems(2) by (simp add: delete_conv')
  moreover have "linked (AList.delete x entries) (pre @ k # suf)" using Cons.prems(1) linked_pop by simp
  ultimately show ?case using Cons.IH Cons.prems(2) by (auto intro: exI [of _ "x # pre"])
qed

lemma held_insert:
  assumes h: "held k r t n c" and now: "now \<le> t + cache_ttl c" and ttl: "cache_ttl c \<noteq> 0"
    and n: "Suc n < cache_max_entries c" and ne: "k' \<noteq> k"
  shows "held k r t (Suc n) (cache_insert now t' c k' r')"
proof -
  let ?c = "prune_expired now c"
  have hp: "held k r t n ?c" by (rule held_prune [OF h now ttl])
  then obtain pre suf where o: "cache_order ?c = pre @ k # suf" "length suf \<le> n"
    and m: "map_of (cache_entries ?c) k = Some \<lparr>cc_response = r, cc_completed_at = t\<rparr>"
    by (auto simp: held_def)
  let ?o = "if map_of (cache_entries ?c) k' = None then cache_order ?c @ [k'] else cache_order ?c"
  let ?e = "AList.update k' \<lparr>cc_response = r', cc_completed_at = t'\<rparr> (cache_entries ?c)"
  have "?o = pre @ k # (if map_of (cache_entries ?c) k' = None then suf @ [k'] else suf)" using o(1) by simp
  moreover have "length (if map_of (cache_entries ?c) k' = None then suf @ [k'] else suf) \<le> Suc n" using o(2) by simp
  ultimately obtain suf' where o': "?o = pre @ k # suf'" "length suf' \<le> Suc n" by blast
  have nz: "cache_max_entries c \<noteq> 0" using n by simp
  obtain e' q where i: "cache_insert now t' c k' r' = ?c\<lparr>cache_entries := e', cache_order := q\<rparr>"
    and ev: "evict_loop (cache_max_entries c) ?e ?o = (e', q)"
    using cache_insert_eq [OF nz] .
  have "linked ?e (pre @ k # suf')"
    using linked_insert [of "cache_entries ?c" "cache_order ?c" k'] hp o'(1) by (simp add: held_def cache_inv_linked)
  moreover have "map_of ?e k = Some \<lparr>cc_response = r, cc_completed_at = t\<rparr>"
    using m ne by (simp add: update_conv')
  ultimately obtain pre' where "q = pre' @ k # suf'" "map_of e' k = Some \<lparr>cc_response = r, cc_completed_at = t\<rparr>"
    using evict_loop_keeps [of ?e pre k suf' _ "cache_max_entries c"] ev o' n by fastforce
  then show ?thesis using i o'(2) cache_inv_insert [of c now t' k' r'] h by (auto simp: held_def)
qed

lemma held_fresh:
  assumes inv: "cache_inv c" and nz: "cache_max_entries c \<noteq> 0"
    and fresh: "map_of (cache_entries (prune_expired now c)) k = None"
  shows "held k r t 0 (cache_insert now t c k r)"
proof -
  let ?c = "prune_expired now c"
  let ?e = "AList.update k \<lparr>cc_response = r, cc_completed_at = t\<rparr> (cache_entries ?c)"
  obtain e' q where i: "cache_insert now t c k r = ?c\<lparr>cache_entries := e', cache_order := q\<rparr>"
    and "evict_loop (cache_max_entries c) ?e
      (if map_of (cache_entries ?c) k = None then cache_order ?c @ [k] else cache_order ?c) = (e', q)"
    using cache_insert_eq [OF nz] .
  then have ev: "evict_loop (cache_max_entries c) ?e (cache_order ?c @ [k]) = (e', q)" using fresh by simp
  have "linked ?e (cache_order ?c @ [k])"
    using linked_insert [of "cache_entries ?c" "cache_order ?c" k] cache_inv_prune [OF inv, of now] fresh
    by (simp add: cache_inv_linked)
  moreover have "map_of ?e k = Some \<lparr>cc_response = r, cc_completed_at = t\<rparr>" by (simp add: update_conv')
  ultimately obtain pre' where "q = pre' @ [k]" "map_of e' k = Some \<lparr>cc_response = r, cc_completed_at = t\<rparr>"
    using evict_loop_keeps [of ?e "cache_order ?c" k "[]" _ "cache_max_entries c"] ev nz by fastforce
  then show ?thesis using i cache_inv_insert [OF inv, of now t k r] by (auto simp: held_def)
qed

section \<open>The actor runs a command once\<close>

lemma prune_loop_none: "map_of entries k = None \<Longrightarrow> map_of (fst (prune_loop now ttl entries order)) k = None"
proof (induction now ttl entries order rule: prune_loop.induct)
  case (2 now ttl entries x order)
  have "map_of (AList.delete x entries) k = None" using "2.prems" by (simp add: delete_conv')
  then show ?case using 2 by (simp add: Let_def)
qed simp

lemma prune_none: "map_of (cache_entries c) k = None \<Longrightarrow> map_of (cache_entries (prune_expired now c)) k = None"
  using prune_loop_none [of "cache_entries c" k now "cache_ttl c" "cache_order c"]
  by (simp add: prune_expired_def split_beta)

lemma cache_get_state [simp]: "snd (cache_get now c k) = prune_expired now c"
  by (simp add: cache_get_def Let_def)

lemma held_get: "held k r t n (prune_expired now c) \<Longrightarrow> fst (cache_get now c k) = Some r"
  by (simp add: cache_get_def Let_def held_def)

lemma run_envelope_cache:
  "slot_cache (snd (run_envelope exec tn slot ev)) =
     (case ev_request_id ev of
        Some k \<Rightarrow> cache_insert (tn_prune tn) (tn_completed tn) (slot_cache slot) k (fst (run_envelope exec tn slot ev))
      | None \<Rightarrow> slot_cache slot)"
  by (simp add: run_envelope_def Let_def split_beta split: option.split)

lemma actor_cache_inv: "cache_inv (slot_cache slot) \<Longrightarrow> cache_inv (slot_cache (snd (client_command_actor exec tn slot ev)))"
  by (auto simp: client_command_actor_def cache_get_def Let_def run_envelope_cache cache_inv_prune cache_inv_insert
      split: option.split)

text \<open>One turn with another request ages the entry by at most one.\<close>

lemma held_turn:
  assumes h: "held k r t n (slot_cache slot)" and ne: "ev_request_id ev \<noteq> Some k"
    and now: "tn_get tn \<le> t + cache_ttl (slot_cache slot)" "tn_prune tn \<le> t + cache_ttl (slot_cache slot)"
    and ttl: "cache_ttl (slot_cache slot) \<noteq> 0" and n: "Suc n < cache_max_entries (slot_cache slot)"
  shows "held k r t (Suc n) (slot_cache (snd (client_command_actor exec tn slot ev)))"
proof (cases "ev_request_id ev")
  case None
  have "held k r t (Suc n) (slot_cache slot)" using h held_mono by fastforce
  then show ?thesis using None by (simp add: client_command_actor_def run_envelope_cache)
next
  case (Some k')
  let ?c = "prune_expired (tn_get tn) (slot_cache slot)"
  have hp: "held k r t n ?c" by (rule held_prune [OF h now(1) ttl])
  show ?thesis
  proof (cases "fst (cache_get (tn_get tn) (slot_cache slot) k')")
    case None
    have "held k r t (Suc n) (cache_insert (tn_prune tn) (tn_completed tn) ?c k' r')" for r'
      by (rule held_insert [OF hp]) (use now ttl n ne Some in auto)
    then show ?thesis using Some None
      by (simp add: client_command_actor_def run_envelope_cache cache_get_def Let_def)
  next
    case (Some r')
    have "held k r t (Suc n) ?c" using hp held_mono by fastforce
    then show ?thesis using Some \<open>ev_request_id ev = Some k'\<close>
      by (auto simp: client_command_actor_def cache_get_def Let_def)
  qed
qed

lemma actor_cache_params:
  "cache_max_entries (slot_cache (snd (client_command_actor exec tn slot ev))) = cache_max_entries (slot_cache slot)"
  "cache_ttl (slot_cache (snd (client_command_actor exec tn slot ev))) = cache_ttl (slot_cache slot)"
  by (auto simp: client_command_actor_def cache_get_def Let_def run_envelope_cache split: option.split)

lemma held_run:
  assumes "held k r t n (slot_cache slot)" and "cache_ttl (slot_cache slot) \<noteq> 0"
    and "n + length evs < cache_max_entries (slot_cache slot)"
    and "list_all (\<lambda>(tn, ev). ev_request_id ev \<noteq> Some k \<and>
      tn_get tn \<le> t + cache_ttl (slot_cache slot) \<and> tn_prune tn \<le> t + cache_ttl (slot_cache slot)) evs"
  shows "held k r t (n + length evs) (slot_cache (actor_run exec slot evs)) \<and>
    cache_ttl (slot_cache (actor_run exec slot evs)) = cache_ttl (slot_cache slot)"
  using assms
proof (induction evs arbitrary: n slot)
  case (Cons x evs)
  obtain tn ev where x: "x = (tn, ev)" by (cases x)
  have "held k r t (Suc n) (slot_cache (snd (client_command_actor exec tn slot ev)))"
    using Cons.prems x by (intro held_turn) auto
  from Cons.IH [OF this] Cons.prems x show ?case by (simp add: actor_cache_params)
qed simp

text \<open>
  (C27) A worker executes a command once per request id: when a request that was executed is
  sent again, with fewer than \<open>max_entries\<close> other requests handled in between and before the
  response's time to live is over, the actor answers with the stored response and leaves the MLS
  client untouched, whatever the other requests were and however the first ended.
\<close>

theorem repeated_request_not_reexecuted:
  assumes "cache_inv (slot_cache slot)" and "ev_request_id ev = Some k"
    and "fst (cache_get (tn_get t1) (slot_cache slot) k) = None"
    and "length evs < cache_max_entries (slot_cache slot)" and "0 < cache_ttl (slot_cache slot)"
    and "list_all (\<lambda>(tn, e). ev_request_id e \<noteq> Some k \<and>
      tn_get tn \<le> tn_completed t1 + cache_ttl (slot_cache slot) \<and>
      tn_prune tn \<le> tn_completed t1 + cache_ttl (slot_cache slot)) evs"
    and "tn_get t2 \<le> tn_completed t1 + cache_ttl (slot_cache slot)"
  shows "let (r1, slot1) = client_command_actor exec t1 slot ev;
             slot2 = actor_run exec slot1 evs;
             (r2, slot3) = client_command_actor exec t2 slot2 ev
    in r2 = r1 \<and> slot_client slot3 = slot_client slot2"
proof -
  let ?r = "fst (client_command_actor exec t1 slot ev)" and ?s1 = "snd (client_command_actor exec t1 slot ev)"
  let ?c = "prune_expired (tn_get t1) (slot_cache slot)"
  have none: "map_of (cache_entries ?c) k = None"
    using assms(3) by (simp add: cache_get_def Let_def)
  have step: "client_command_actor exec t1 slot ev = run_envelope exec t1 (slot\<lparr>slot_cache := ?c\<rparr>) ev"
    using assms(2) none by (simp add: client_command_actor_def cache_get_def Let_def)
  have none': "map_of (cache_entries (prune_expired (tn_prune t1) ?c)) k = None"
    by (rule prune_none [OF none])
  have "slot_cache ?s1 = cache_insert (tn_prune t1) (tn_completed t1) ?c k ?r"
    using assms(2) by (simp add: step run_envelope_cache)
  moreover have "held k ?r (tn_completed t1) 0 (cache_insert (tn_prune t1) (tn_completed t1) ?c k ?r)"
    by (rule held_fresh [OF cache_inv_prune [OF assms(1)] _ none']) (use assms(4) in simp)
  ultimately have "held k ?r (tn_completed t1) 0 (slot_cache ?s1)" by simp
  from held_run [OF this, of evs exec] assms(4-6)
  have h: "held k ?r (tn_completed t1) (length evs) (slot_cache (actor_run exec ?s1 evs))"
    "cache_ttl (slot_cache (actor_run exec ?s1 evs)) = cache_ttl (slot_cache slot)"
    by (simp_all add: actor_cache_params)
  have "held k ?r (tn_completed t1) (length evs) (prune_expired (tn_get t2) (slot_cache (actor_run exec ?s1 evs)))"
    by (rule held_prune [OF h(1)]) (use assms(5,7) h(2) in auto)
  from held_get [OF this] assms(2) show ?thesis
    by (auto simp: Let_def split_beta client_command_actor_def [of exec t2] cache_get_def)
qed

definition demo_turn :: "nat \<Rightarrow> turn" where
  "demo_turn n = \<lparr>tn_get = n, tn_prune = n, tn_completed = n, tn_heap_failure = None, tn_profile_missing = None\<rparr>"

definition demo_exec :: "nat \<Rightarrow> nat \<Rightarrow> string result \<times> nat" where
  "demo_exec c cmd = (Inr (show_nat (c + cmd)), c + cmd)"

definition demo_slot :: "nat client_slot" where
  "demo_slot = \<lparr>slot_client = 0, slot_cache = cache_new 4 100\<rparr>"

definition demo_envelope :: "string \<Rightarrow> nat \<Rightarrow> nat command_envelope" where
  "demo_envelope k n = \<lparr>ev_request_id = Some k, ev_command = n\<rparr>"

theorem repeated_request_not_reexecuted_witness:
  "cache_inv (slot_cache demo_slot) \<and> length [(demo_turn 2, demo_envelope ''b'' 7)] < cache_max_entries (slot_cache demo_slot) \<and>
   (let (r1, slot1) = client_command_actor demo_exec (demo_turn 1) demo_slot (demo_envelope ''a'' 5);
        slot2 = actor_run demo_exec slot1 [(demo_turn 2, demo_envelope ''b'' 7)];
        (r2, slot3) = client_command_actor demo_exec (demo_turn 3) slot2 (demo_envelope ''a'' 5)
    in r2 = r1 \<and> slot_client slot3 = slot_client slot2)"
proof -
  have c: "cache_inv (slot_cache demo_slot)" by (simp add: demo_slot_def cache_inv_new)
  have l: "length [(demo_turn 2, demo_envelope ''b'' 7)] < cache_max_entries (slot_cache demo_slot)"
    by (simp add: demo_slot_def cache_new_def)
  have n: "fst (cache_get (tn_get (demo_turn 1)) (slot_cache demo_slot) ''a'') = None"
    by (simp add: demo_slot_def cache_new_def cache_get_def prune_expired_def Let_def)
  show ?thesis
    using repeated_request_not_reexecuted [OF c _ n l, of "demo_envelope ''a'' 5" "demo_turn 3" demo_exec] c l
    by (simp add: demo_envelope_def demo_turn_def demo_slot_def cache_new_def)
qed

section \<open>The cache stays bounded\<close>

datatype cache_op = CacheGet nat string | CacheInsert nat nat string CommandResponse

fun cache_step :: "CompletedCommandCache \<Rightarrow> cache_op \<Rightarrow> CompletedCommandCache" where
  "cache_step c (CacheGet now k) = snd (cache_get now c k)"
| "cache_step c (CacheInsert now t k r) = cache_insert now t c k r"

interpretation command_cache: operation_system "cache_new n ttl" cache_step "\<lambda>_ _. True" cache_inv
proof unfold_locales
  show "cache_inv (cache_new n ttl)" by (rule cache_inv_new)
  show "cache_inv c \<Longrightarrow> True \<Longrightarrow> cache_inv (cache_step c x)" for c x
    by (cases x) (simp_all add: cache_inv_prune cache_inv_insert)
qed

lemma cache_step_max: "cache_max_entries (run_ops cache_step c ops) = cache_max_entries c"
proof (induction ops arbitrary: c)
  case (Cons x ops)
  then show ?case by (cases x) simp_all
qed simp

text \<open>
  After any sequence of lookups and insertions the cache holds at most \<open>max_entries\<close> responses,
  and its eviction queue names exactly the cached requests, each once.
\<close>

theorem cache_bounded:
  "let c = run_ops cache_step (cache_new n ttl) ops in
   length (cache_entries c) \<le> n \<and> distinct (cache_order c) \<and>
   set (cache_order c) = fst ` set (cache_entries c)"
  using command_cache.inv_run [of n ttl ops] cache_step_max [of "cache_new n ttl" ops]
  by (simp add: Let_def cache_inv_def cache_new_def)

end
