(* ===== verification/Heap_Budget.thy ===== *)
theory Heap_Budget
  imports Interfaces
begin

text \<open>
  The heap budget tracker (\<^verbatim>\<open>allocation_counter/src/embedded_heap_budget.rs\<close>): live-byte accounting against a
  baseline, the peak of an operation and the latch that records the first moment the
  budget is exceeded. The MLS tree and the Signal tree have different versions of three functions;
  both are modelled, the Signal ones with the prefix \<open>signal_\<close>. The global atomics are the fields of one
  record: the model is the behaviour of one thread, whose updates nothing interleaves.
  Counters are 64-bit words; \<open>fetch_add\<close> wraps.
\<close>

section \<open>State\<close>

datatype HeapBudgetContext =
    Unknown | OperationEntry | WorkerCommand | OpenMlsSpanExecution
  | ProfilingStart | ProfilingFinish | ProfilingEmit

fun context_raw :: "HeapBudgetContext \<Rightarrow> u64" where
  "context_raw Unknown = 0" | "context_raw OperationEntry = 1" | "context_raw WorkerCommand = 2"
| "context_raw OpenMlsSpanExecution = 3" | "context_raw ProfilingStart = 4"
| "context_raw ProfilingFinish = 5" | "context_raw ProfilingEmit = 6"

fun context_as_str :: "HeapBudgetContext \<Rightarrow> string" where
  "context_as_str Unknown = ''unknown''"
| "context_as_str OperationEntry = ''operation_entry''"
| "context_as_str WorkerCommand = ''worker_command_outside_profiled_span''"
| "context_as_str OpenMlsSpanExecution = ''openmls_span_execution''"
| "context_as_str ProfilingStart = ''profiling_start''"
| "context_as_str ProfilingFinish = ''profiling_finish''"
| "context_as_str ProfilingEmit = ''profiling_emit''"

definition context_from_raw :: "u64 \<Rightarrow> HeapBudgetContext" where
  "context_from_raw v =
     (if v = 1 then OperationEntry else if v = 2 then WorkerCommand
      else if v = 3 then OpenMlsSpanExecution else if v = 4 then ProfilingStart
      else if v = 5 then ProfilingFinish else if v = 6 then ProfilingEmit else Unknown)"

record heap =
  budget_bytes :: u64
  baseline_live_bytes :: u64
  current_live_bytes :: u64
  peak_live_bytes :: u64
  operation_peak_live_bytes :: u64
  total_allocated_bytes :: u64
  allocation_count :: u64
  deallocation_count :: u64
  active_operation_count :: u64
  active_span_id :: u64
  active_context :: u64
  budget_exceeded :: bool
  failed_allocation_size :: u64
  failure_current_live_bytes :: u64
  failure_peak_live_bytes :: u64
  failure_operation_peak_live_bytes :: u64
  failure_total_allocated_bytes :: u64
  failure_allocation_count :: u64
  failure_deallocation_count :: u64
  failure_span_id :: u64
  failure_context :: u64

record HeapBudgetSnapshot =
  hs_configured_heap_budget_bytes :: u64
  hs_current_live_heap_bytes :: u64
  hs_peak_live_heap_bytes :: u64
  hs_operation_peak_live_heap_bytes :: u64
  hs_total_allocated_bytes :: u64
  hs_allocation_count :: u64
  hs_deallocation_count :: u64
  hs_budget_exceeded :: bool
  hs_failed_allocation_size_bytes :: "u64 option"
  hs_failure_current_live_heap_bytes :: u64
  hs_failure_peak_live_heap_bytes :: u64
  hs_failure_operation_peak_live_heap_bytes :: u64
  hs_failure_total_allocated_bytes :: u64
  hs_failure_allocation_count :: u64
  hs_failure_deallocation_count :: u64
  hs_failure_span_id :: "u64 option"
  hs_failure_context :: HeapBudgetContext

section \<open>Operations\<close>

definition heap_enabled :: "heap \<Rightarrow> bool" where
  "heap_enabled h = (budget_bytes h > 0)"

definition configured_budget_bytes :: "heap \<Rightarrow> u64 option" where
  "configured_budget_bytes h = (if budget_bytes h > 0 then Some (budget_bytes h) else None)"

definition accounted_live_bytes :: "heap \<Rightarrow> u64" where
  "accounted_live_bytes h = word_saturating_sub (current_live_bytes h) (baseline_live_bytes h)"

definition reset_operation_state :: "heap \<Rightarrow> heap" where
  "reset_operation_state h = h\<lparr>budget_exceeded := False, failed_allocation_size := 0,
     failure_current_live_bytes := 0, failure_peak_live_bytes := 0,
     failure_operation_peak_live_bytes := 0, failure_total_allocated_bytes := 0,
     failure_allocation_count := 0, failure_deallocation_count := 0,
     failure_span_id := 0, failure_context := 0\<rparr>"

definition configure_budget :: "u64 option \<Rightarrow> heap \<Rightarrow> heap" where
  "configure_budget budget h =
     (let b = (case budget of Some x \<Rightarrow> x | None \<Rightarrow> 0)
      in reset_operation_state (h\<lparr>budget_bytes := b, baseline_live_bytes := current_live_bytes h\<rparr>))"

definition check_budget :: "u64 \<Rightarrow> heap \<Rightarrow> heap" where
  "check_budget sz h =
     (if budget_bytes h = 0 \<or> active_operation_count h = 0 then h
      else let current = accounted_live_bytes h
           in if current \<le> budget_bytes h then h
              else if budget_exceeded h then h
              else h\<lparr>budget_exceeded := True, failed_allocation_size := sz,
                     failure_current_live_bytes := current,
                     failure_peak_live_bytes := word_saturating_sub (peak_live_bytes h) (baseline_live_bytes h),
                     failure_operation_peak_live_bytes := operation_peak_live_bytes h,
                     failure_total_allocated_bytes := total_allocated_bytes h,
                     failure_allocation_count := allocation_count h,
                     failure_deallocation_count := deallocation_count h,
                     failure_span_id := active_span_id h,
                     failure_context := active_context h\<rparr>)"

text \<open>The result tells whether the guard is active.\<close>

definition heap_begin_operation :: "heap \<Rightarrow> bool \<times> heap" where
  "heap_begin_operation h =
     (if \<not> heap_enabled h then (False, h)
      else let h1 = reset_operation_state h;
               h2 = h1\<lparr>operation_peak_live_bytes := accounted_live_bytes h1,
                       active_operation_count := active_operation_count h1 + 1,
                       active_span_id := 0, active_context := context_raw OperationEntry\<rparr>
           in (True, check_budget 0 h2))"

definition operation_guard_drop :: "bool \<Rightarrow> heap \<Rightarrow> heap" where
  "operation_guard_drop active h =
     (if active then
        (let n = active_operation_count h; h1 = h\<lparr>active_operation_count := n - 1\<rparr>
         in if n = 1 then h1\<lparr>active_span_id := 0, active_context := 0\<rparr> else h1)
      else h)"

definition enter_attribution_context :: "HeapBudgetContext \<Rightarrow> u64 option \<Rightarrow> heap \<Rightarrow> (u64 \<times> u64) \<times> heap" where
  "enter_attribution_context ctx span h =
     ((active_span_id h, active_context h),
      h\<lparr>active_span_id := (case span of Some i \<Rightarrow> i | None \<Rightarrow> 0), active_context := context_raw ctx\<rparr>)"

definition attribution_guard_drop :: "u64 \<times> u64 \<Rightarrow> heap \<Rightarrow> heap" where
  "attribution_guard_drop previous h = h\<lparr>active_span_id := fst previous, active_context := snd previous\<rparr>"

definition set_active_span_id :: "u64 option \<Rightarrow> heap \<Rightarrow> heap" where
  "set_active_span_id span h = h\<lparr>active_span_id := (case span of Some i \<Rightarrow> i | None \<Rightarrow> 0)\<rparr>"

definition set_active_context :: "HeapBudgetContext \<Rightarrow> heap \<Rightarrow> heap" where
  "set_active_context ctx h = h\<lparr>active_context := context_raw ctx\<rparr>"

definition record_alloc :: "u64 \<Rightarrow> heap \<Rightarrow> heap" where
  "record_alloc sz h =
     (let current = word_saturating_add (current_live_bytes h) sz;
          h1 = h\<lparr>current_live_bytes := current_live_bytes h + sz,
                 peak_live_bytes := max (peak_live_bytes h) current\<rparr>
      in if heap_enabled h1 then
           (let h2 = h1\<lparr>total_allocated_bytes := total_allocated_bytes h1 + sz,
                        allocation_count := allocation_count h1 + 1\<rparr>
            in if active_operation_count h2 > 0 then
                 check_budget sz (h2\<lparr>operation_peak_live_bytes :=
                   max (operation_peak_live_bytes h2) (word_saturating_sub current (baseline_live_bytes h2))\<rparr>)
               else h2)
         else h1)"

definition record_dealloc :: "u64 \<Rightarrow> heap \<Rightarrow> heap" where
  "record_dealloc sz h =
     (let h1 = h\<lparr>current_live_bytes := word_saturating_sub (current_live_bytes h) sz\<rparr>
      in if heap_enabled h1 then h1\<lparr>deallocation_count := deallocation_count h1 + 1\<rparr> else h1)"

definition heap_snapshot :: "heap \<Rightarrow> HeapBudgetSnapshot" where
  "heap_snapshot h =
     \<lparr>hs_configured_heap_budget_bytes = budget_bytes h,
      hs_current_live_heap_bytes = accounted_live_bytes h,
      hs_peak_live_heap_bytes = word_saturating_sub (peak_live_bytes h) (baseline_live_bytes h),
      hs_operation_peak_live_heap_bytes = operation_peak_live_bytes h,
      hs_total_allocated_bytes = total_allocated_bytes h,
      hs_allocation_count = allocation_count h, hs_deallocation_count = deallocation_count h,
      hs_budget_exceeded = budget_exceeded h,
      hs_failed_allocation_size_bytes =
        (if failed_allocation_size h > 0 then Some (failed_allocation_size h) else None),
      hs_failure_current_live_heap_bytes = failure_current_live_bytes h,
      hs_failure_peak_live_heap_bytes = failure_peak_live_bytes h,
      hs_failure_operation_peak_live_heap_bytes = failure_operation_peak_live_bytes h,
      hs_failure_total_allocated_bytes = failure_total_allocated_bytes h,
      hs_failure_allocation_count = failure_allocation_count h,
      hs_failure_deallocation_count = failure_deallocation_count h,
      hs_failure_span_id = (if failure_span_id h = 0 then None else Some (failure_span_id h)),
      hs_failure_context = context_from_raw (failure_context h)\<rparr>"

section \<open>The Signal versions\<close>

definition signal_begin_operation :: "heap \<Rightarrow> bool \<times> heap" where
  "signal_begin_operation h =
     (let budget_active = heap_enabled h;
          h1 = (if budget_active then reset_operation_state h else h);
          h2 = h1\<lparr>operation_peak_live_bytes := accounted_live_bytes h1,
                  active_operation_count := active_operation_count h1 + 1,
                  active_span_id := 0, active_context := context_raw OperationEntry\<rparr>
      in (True, if budget_active then check_budget 0 h2 else h2))"

definition signal_record_alloc :: "u64 \<Rightarrow> heap \<Rightarrow> heap" where
  "signal_record_alloc sz h =
     (let current = word_saturating_add (current_live_bytes h) sz;
          h1 = h\<lparr>current_live_bytes := current_live_bytes h + sz,
                 peak_live_bytes := max (peak_live_bytes h) current\<rparr>;
          h2 = (if active_operation_count h1 > 0
                then h1\<lparr>operation_peak_live_bytes :=
                  max (operation_peak_live_bytes h1) (word_saturating_sub current (baseline_live_bytes h1))\<rparr>
                else h1);
          h3 = h2\<lparr>total_allocated_bytes := total_allocated_bytes h2 + sz,
                  allocation_count := allocation_count h2 + 1\<rparr>
      in if heap_enabled h3 \<and> active_operation_count h3 > 0 then check_budget sz h3 else h3)"

definition signal_record_dealloc :: "u64 \<Rightarrow> heap \<Rightarrow> heap" where
  "signal_record_dealloc sz h =
     (let h1 = h\<lparr>current_live_bytes := word_saturating_sub (current_live_bytes h) sz\<rparr>
      in h1\<lparr>deallocation_count := deallocation_count h1 + 1\<rparr>)"

section \<open>Events of an operation\<close>

datatype heap_event =
    Alloc u64
  | Dealloc u64
  | Attribute HeapBudgetContext "u64 option"

fun heap_step :: "heap \<Rightarrow> heap_event \<Rightarrow> heap" where
  "heap_step h (Alloc n) = record_alloc n h"
| "heap_step h (Dealloc n) = record_dealloc n h"
| "heap_step h (Attribute ctx span) = snd (enter_attribution_context ctx span h)"

fun signal_step :: "heap \<Rightarrow> heap_event \<Rightarrow> heap" where
  "signal_step h (Alloc n) = signal_record_alloc n h"
| "signal_step h (Dealloc n) = signal_record_dealloc n h"
| "signal_step h (Attribute ctx span) = snd (enter_attribution_context ctx span h)"

fun requested :: "heap_event \<Rightarrow> nat" where
  "requested (Alloc n) = unat n" | "requested _ = 0"

text \<open>The accounted live bytes after each event, with the size of the allocation.\<close>

fun live_trace :: "heap \<Rightarrow> heap_event list \<Rightarrow> (u64 \<times> u64) list" where
  "live_trace h [] = []"
| "live_trace h (x # xs) =
     ((case x of Alloc n \<Rightarrow> n | _ \<Rightarrow> 0), accounted_live_bytes (heap_step h x)) # live_trace (heap_step h x) xs"

section \<open>Lemmas\<close>

text \<open>Within an active operation on an enabled tracker.\<close>

definition tracking :: "heap \<Rightarrow> bool" where
  "tracking h \<longleftrightarrow> heap_enabled h \<and> active_operation_count h > 0"

lemma word_saturating_add_no_wrap:
  fixes a b :: "'a::len word"
  shows "unat a + unat b < 2 ^ LENGTH('a) \<Longrightarrow> word_saturating_add a b = a + b"
  by (simp add: word_saturating_add_def)

lemma accounted_fields [simp]:
  "accounted_live_bytes (check_budget n h) = accounted_live_bytes h"
  "budget_bytes (check_budget n h) = budget_bytes h"
  "active_operation_count (check_budget n h) = active_operation_count h"
  "operation_peak_live_bytes (check_budget n h) = operation_peak_live_bytes h"
  "current_live_bytes (check_budget n h) = current_live_bytes h"
  "baseline_live_bytes (check_budget n h) = baseline_live_bytes h"
  by (simp_all add: check_budget_def Let_def accounted_live_bytes_def)

lemma check_budget_tracking:
  assumes "tracking h"
  shows "check_budget n h =
    (if \<not> budget_exceeded h \<and> budget_bytes h < accounted_live_bytes h then check_budget n h else h)"
  using assms by (auto simp: check_budget_def Let_def tracking_def heap_enabled_def not_less)

lemma check_budget_latches:
  assumes "tracking h" and "\<not> budget_exceeded h"
  shows "budget_exceeded (check_budget n h) \<longleftrightarrow> budget_bytes h < accounted_live_bytes h"
    and "budget_bytes h < accounted_live_bytes h \<Longrightarrow>
      failure_current_live_bytes (check_budget n h) = accounted_live_bytes h \<and>
      failed_allocation_size (check_budget n h) = n"
  using assms by (auto simp: check_budget_def Let_def tracking_def heap_enabled_def not_le not_less)

lemma check_budget_exceeded: "budget_exceeded h \<Longrightarrow> check_budget n h = h"
  by (simp add: check_budget_def Let_def)

lemma word_saturating_sub_mono: "a \<le> b \<Longrightarrow> word_saturating_sub a c \<le> word_saturating_sub b c"
  by (simp add: word_le_nat_alt word_saturating_sub_unat diff_le_mono)

lemma record_dealloc_accounted: "accounted_live_bytes (record_dealloc n h) \<le> accounted_live_bytes h"
proof -
  have "word_saturating_sub (current_live_bytes h) n \<le> current_live_bytes h"
    by (simp add: word_le_nat_alt word_saturating_sub_unat)
  then show ?thesis
    using word_saturating_sub_mono by (simp add: record_dealloc_def accounted_live_bytes_def Let_def)
qed

lemma step_tracking: "tracking h \<Longrightarrow> tracking (heap_step h x)"
  by (cases x) (auto simp: tracking_def record_alloc_def record_dealloc_def heap_enabled_def Let_def
      enter_attribution_context_def)

lemma step_budget [simp]: "budget_bytes (heap_step h x) = budget_bytes h"
  by (cases x) (auto simp: record_alloc_def record_dealloc_def Let_def enter_attribution_context_def)

lemma alloc_step:
  assumes "tracking h" and "unat (current_live_bytes h) + unat n < 2 ^ 64"
  obtains h' where "record_alloc n h = check_budget n h'" "tracking h'" "budget_exceeded h' = budget_exceeded h"
    "accounted_live_bytes h' = accounted_live_bytes (record_alloc n h)" "budget_bytes h' = budget_bytes h"
    "operation_peak_live_bytes h' = max (operation_peak_live_bytes h) (accounted_live_bytes (record_alloc n h))"
    "failure_current_live_bytes h' = failure_current_live_bytes h"
    "failed_allocation_size h' = failed_allocation_size h"
proof -
  have sat: "word_saturating_add (current_live_bytes h) n = current_live_bytes h + n"
    using assms(2) by (intro word_saturating_add_no_wrap) simp
  let ?h = "h\<lparr>current_live_bytes := current_live_bytes h + n,
      peak_live_bytes := max (peak_live_bytes h) (current_live_bytes h + n),
      total_allocated_bytes := total_allocated_bytes h + n, allocation_count := allocation_count h + 1,
      operation_peak_live_bytes := max (operation_peak_live_bytes h)
        (word_saturating_sub (current_live_bytes h + n) (baseline_live_bytes h))\<rparr>"
  have "record_alloc n h = check_budget n ?h"
    using assms(1) sat by (simp add: record_alloc_def Let_def tracking_def heap_enabled_def)
  then show thesis
    by (rule that) (use assms(1) \<open>record_alloc n h = check_budget n ?h\<close> in
      \<open>simp_all add: tracking_def heap_enabled_def accounted_live_bytes_def\<close>)
qed

lemma step_current:
  assumes "unat (current_live_bytes h) + requested x < 2 ^ 64"
  shows "unat (current_live_bytes (heap_step h x)) \<le> unat (current_live_bytes h) + requested x"
proof (cases x)
  case (Alloc n)
  have "current_live_bytes (record_alloc n h) = current_live_bytes h + n"
    by (simp add: record_alloc_def Let_def)
  then show ?thesis using assms Alloc by (simp add: unat_word_ariths)
next
  case (Dealloc n)
  have "current_live_bytes (record_dealloc n h) = word_saturating_sub (current_live_bytes h) n"
    by (simp add: record_dealloc_def Let_def)
  then show ?thesis using Dealloc by (simp add: word_saturating_sub_unat)
next
  case (Attribute ctx span)
  then show ?thesis by (simp add: enter_attribution_context_def)
qed

text \<open>Once set, the latch and the failure record stay.\<close>

lemma exceeded_step:
  assumes "tracking h" and "budget_exceeded h" and "unat (current_live_bytes h) + requested x < 2 ^ 64"
  shows "budget_exceeded (heap_step h x) \<and>
    failure_current_live_bytes (heap_step h x) = failure_current_live_bytes h \<and>
    failed_allocation_size (heap_step h x) = failed_allocation_size h"
proof (cases x)
  case (Alloc n)
  obtain h' where "record_alloc n h = check_budget n h'" "budget_exceeded h' = budget_exceeded h"
    "failure_current_live_bytes h' = failure_current_live_bytes h"
    "failed_allocation_size h' = failed_allocation_size h"
    using alloc_step [OF assms(1), of n] assms(3) Alloc by auto
  then show ?thesis using Alloc assms(2) by (simp add: check_budget_exceeded)
qed (use assms in \<open>auto simp: record_dealloc_def enter_attribution_context_def Let_def\<close>)

text \<open>A step that does not find the budget exceeded leaves the latch open; the first that does sets it.\<close>

lemma open_step:
  assumes t: "tracking h" and o: "\<not> budget_exceeded h" and le: "accounted_live_bytes h \<le> budget_bytes h"
    and nw: "unat (current_live_bytes h) + requested x < 2 ^ 64"
  shows "budget_exceeded (heap_step h x) \<longleftrightarrow> budget_bytes h < accounted_live_bytes (heap_step h x)"
    and "budget_bytes h < accounted_live_bytes (heap_step h x) \<Longrightarrow>
      failure_current_live_bytes (heap_step h x) = accounted_live_bytes (heap_step h x) \<and>
      failed_allocation_size (heap_step h x) = (case x of Alloc n \<Rightarrow> n | _ \<Rightarrow> 0)"
proof -
  have "(budget_exceeded (heap_step h x) \<longleftrightarrow> budget_bytes h < accounted_live_bytes (heap_step h x)) \<and>
    (budget_bytes h < accounted_live_bytes (heap_step h x) \<longrightarrow>
      failure_current_live_bytes (heap_step h x) = accounted_live_bytes (heap_step h x) \<and>
      failed_allocation_size (heap_step h x) = (case x of Alloc n \<Rightarrow> n | _ \<Rightarrow> 0))"
  proof (cases x)
    case (Alloc n)
    obtain h' where h': "record_alloc n h = check_budget n h'" "tracking h'" "budget_exceeded h' = budget_exceeded h"
      "accounted_live_bytes h' = accounted_live_bytes (record_alloc n h)" "budget_bytes h' = budget_bytes h"
      using alloc_step [OF t, of n] nw Alloc by auto
    then show ?thesis using check_budget_latches [OF h'(2), of n] o Alloc by simp
  next
    case (Dealloc n)
    have "accounted_live_bytes (record_dealloc n h) \<le> budget_bytes h"
      using record_dealloc_accounted le by (rule order_trans)
    then show ?thesis using Dealloc o by (auto simp: record_dealloc_def Let_def)
  next
    case (Attribute ctx span)
    then show ?thesis using o le by (auto simp: enter_attribution_context_def accounted_live_bytes_def)
  qed
  then show "budget_exceeded (heap_step h x) \<longleftrightarrow> budget_bytes h < accounted_live_bytes (heap_step h x)"
    and "budget_bytes h < accounted_live_bytes (heap_step h x) \<Longrightarrow>
      failure_current_live_bytes (heap_step h x) = accounted_live_bytes (heap_step h x) \<and>
      failed_allocation_size (heap_step h x) = (case x of Alloc n \<Rightarrow> n | _ \<Rightarrow> 0)" by auto
qed

lemma exceeded_run:
  assumes "tracking h" and "budget_exceeded h" and "unat (current_live_bytes h) + sum_list (map requested xs) < 2 ^ 64"
  shows "budget_exceeded (run_ops heap_step h xs) \<and>
    failure_current_live_bytes (run_ops heap_step h xs) = failure_current_live_bytes h \<and>
    failed_allocation_size (run_ops heap_step h xs) = failed_allocation_size h"
  using assms
proof (induction xs arbitrary: h)
  case (Cons x xs)
  have nw: "unat (current_live_bytes h) + requested x < 2 ^ 64" using Cons.prems(3) by simp
  have nw': "unat (current_live_bytes (heap_step h x)) + sum_list (map requested xs) < 2 ^ 64"
    using step_current [OF nw] Cons.prems(3) by simp
  show ?case
    using Cons.IH [OF step_tracking [OF Cons.prems(1)] _ nw'] exceeded_step [OF Cons.prems(1,2) nw] by simp
qed simp

lemma latch_run:
  assumes "tracking h" and "\<not> budget_exceeded h" and "accounted_live_bytes h \<le> budget_bytes h"
    and "unat (current_live_bytes h) + sum_list (map requested xs) < 2 ^ 64"
  defines "over \<equiv> filter (\<lambda>(n, live). budget_bytes h < live) (live_trace h xs)"
  shows "(budget_exceeded (run_ops heap_step h xs) \<longleftrightarrow> over \<noteq> []) \<and>
    (over \<noteq> [] \<longrightarrow> (failed_allocation_size (run_ops heap_step h xs), failure_current_live_bytes (run_ops heap_step h xs)) = hd over)"
  using assms(1-4) unfolding over_def
proof (induction xs arbitrary: h)
  case (Cons x xs)
  have nw: "unat (current_live_bytes h) + requested x < 2 ^ 64" using Cons.prems(4) by simp
  have nw': "unat (current_live_bytes (heap_step h x)) + sum_list (map requested xs) < 2 ^ 64"
    using step_current [OF nw] Cons.prems(4) by simp
  note t = step_tracking [OF Cons.prems(1), of x] and os = open_step [OF Cons.prems(1-3) nw]
  show ?case
  proof (cases "budget_bytes h < accounted_live_bytes (heap_step h x)")
    case True
    then show ?thesis using exceeded_run [OF t _ nw'] os by simp
  next
    case False
    then show ?thesis using Cons.IH [OF t _ _ nw'] os by simp
  qed
qed simp

lemma peak_step:
  assumes "tracking h" and "accounted_live_bytes h \<le> operation_peak_live_bytes h"
    and "unat (current_live_bytes h) + requested x < 2 ^ 64"
  shows "operation_peak_live_bytes (heap_step h x) =
    max (operation_peak_live_bytes h) (accounted_live_bytes (heap_step h x))"
proof (cases x)
  case (Alloc n)
  obtain h' where "record_alloc n h = check_budget n h'"
    "operation_peak_live_bytes h' = max (operation_peak_live_bytes h) (accounted_live_bytes (record_alloc n h))"
    using alloc_step [OF assms(1), of n] assms(3) Alloc by auto
  then show ?thesis using Alloc by simp
next
  case (Dealloc n)
  have "accounted_live_bytes (record_dealloc n h) \<le> operation_peak_live_bytes h"
    using record_dealloc_accounted assms(2) by (rule order_trans)
  then show ?thesis using Dealloc by (simp add: record_dealloc_def Let_def max_def accounted_live_bytes_def heap_enabled_def)
next
  case (Attribute ctx span)
  then show ?thesis using assms(2) by (simp add: enter_attribution_context_def accounted_live_bytes_def max_def)
qed

lemma peak_run:
  assumes "tracking h" and "accounted_live_bytes h \<le> operation_peak_live_bytes h"
    and "unat (current_live_bytes h) + sum_list (map requested xs) < 2 ^ 64"
  shows "operation_peak_live_bytes (run_ops heap_step h xs) =
    fold max (map snd (live_trace h xs)) (operation_peak_live_bytes h)"
  using assms
proof (induction xs arbitrary: h)
  case (Cons x xs)
  have nw: "unat (current_live_bytes h) + requested x < 2 ^ 64" using Cons.prems(3) by simp
  have nw': "unat (current_live_bytes (heap_step h x)) + sum_list (map requested xs) < 2 ^ 64"
    using step_current [OF nw] Cons.prems(3) by simp
  note p = peak_step [OF Cons.prems(1,2) nw]
  show ?case
    using Cons.IH [OF step_tracking [OF Cons.prems(1)] _ nw'] p by (simp add: max.commute)
qed simp

section \<open>Properties\<close>


definition demo_heap :: heap where
  "demo_heap = \<lparr>budget_bytes = 100, baseline_live_bytes = 1000, current_live_bytes = 1050, peak_live_bytes = 1050,
     operation_peak_live_bytes = 0, total_allocated_bytes = 0, allocation_count = 0, deallocation_count = 0,
     active_operation_count = 0, active_span_id = 0, active_context = 0, budget_exceeded = False,
     failed_allocation_size = 0, failure_current_live_bytes = 0, failure_peak_live_bytes = 0,
     failure_operation_peak_live_bytes = 0, failure_total_allocated_bytes = 0, failure_allocation_count = 0,
     failure_deallocation_count = 0, failure_span_id = 0, failure_context = 0\<rparr>"

definition demo_events :: "heap_event list" where
  "demo_events = [Alloc 40, Dealloc 20, Alloc 60, Alloc 90, Dealloc 200]"

lemma demo_heap_ok:
  "heap_enabled demo_heap" "active_operation_count demo_heap \<noteq> - 1"
  "unat (current_live_bytes demo_heap) + sum_list (map requested demo_events) < 2 ^ 64"
  by (simp_all add: demo_heap_def heap_enabled_def demo_events_def)


lemma peak_update_swap:
  "h\<lparr>operation_peak_live_bytes := p, total_allocated_bytes := t, allocation_count := a\<rparr> =
   h\<lparr>total_allocated_bytes := t, allocation_count := a, operation_peak_live_bytes := p\<rparr>"
  by simp

lemma signal_step_tracking: "tracking h \<Longrightarrow> signal_step h x = heap_step h x"
  by (cases x) (auto simp: tracking_def heap_enabled_def record_alloc_def signal_record_alloc_def
      record_dealloc_def signal_record_dealloc_def peak_update_swap Let_def)

lemma signal_run_tracking: "tracking h \<Longrightarrow> run_ops signal_step h xs = run_ops heap_step h xs"
  by (induction xs arbitrary: h) (simp_all add: signal_step_tracking step_tracking)

text \<open>
  The Signal tree's version of the tracker is a different program but the same
  tracker: with a budget configured, an operation begins in the same state and every sequence of
  events in it leads to the same state, so its verdicts are those of the MLS version.
\<close>

theorem signal_tracker_agrees:
  assumes "heap_enabled h" and "active_operation_count h \<noteq> - 1"
  shows "signal_begin_operation h = heap_begin_operation h \<and>
    run_ops signal_step (snd (signal_begin_operation h)) xs = run_ops heap_step (snd (heap_begin_operation h)) xs"
proof -
  have b: "signal_begin_operation h = heap_begin_operation h"
    using assms(1) by (simp add: signal_begin_operation_def heap_begin_operation_def Let_def)
  have "active_operation_count h + 1 > 0"
    using assms(2) by (metis add.commute add_eq_0_iff word_gt_0 add.inverse_inverse)
  then have "tracking (snd (heap_begin_operation h))"
    using assms(1) by (simp add: heap_begin_operation_def Let_def tracking_def heap_enabled_def reset_operation_state_def)
  then show ?thesis using b signal_run_tracking by simp
qed

theorem signal_tracker_agrees_witness:
  "heap_enabled demo_heap \<and> active_operation_count demo_heap \<noteq> - 1 \<and>
   run_ops signal_step (snd (signal_begin_operation demo_heap)) demo_events =
     run_ops heap_step (snd (heap_begin_operation demo_heap)) demo_events"
  using signal_tracker_agrees [OF demo_heap_ok(1,2)] demo_heap_ok(1,2) by blast

text \<open>The attribution guard restores what it replaced, also around nested guards.\<close>

lemma attribution_guard_restores:
  "attribution_guard_drop (fst (enter_attribution_context ctx span h)) (snd (enter_attribution_context ctx span h)) = h"
  by (simp add: attribution_guard_drop_def enter_attribution_context_def)

lemma context_raw_roundtrip: "context_from_raw (context_raw c) = c"
  by (cases c) (simp_all add: context_from_raw_def)

end
