(* ===== verification/Heap_Report.thy ===== *)
theory Heap_Report
  imports Heap_Budget
begin

text \<open>
  Reporting an exceeded heap budget: the configuration and the error message of the worker
  (\<^verbatim>\<open>src/OpenMLS_containerized/src/embedded_heap_budget.rs\<close>) and the reader of that message in the
  benchmark runner (\<^verbatim>\<open>app_heap_field\<close>, \<^verbatim>\<open>apply_app_heap_budget_failure_fields\<close> and
  \<^verbatim>\<open>classify_worker_error\<close> in \<^verbatim>\<open>staircase_runner.rs\<close>). The values of environment variables are arguments.
\<close>

section \<open>Configuration\<close>

record EmbeddedHeapBudgetConfig =
  hc_enabled :: bool
  hc_memory_model :: string
  hc_app_heap_budget :: string
  hc_app_heap_budget_bytes :: u64
  hc_docker_memory_limit :: string
  hc_resource_profile_id :: string
  hc_resource_profile_index :: "nat option"

definition memory_unit :: "string \<Rightarrow> nat option" where
  "memory_unit unit =
     (if unit = '''' \<or> unit = ''b'' then Some 1
      else if unit = ''k'' \<or> unit = ''kb'' \<or> unit = ''kib'' then Some 1024
      else if unit = ''m'' \<or> unit = ''mb'' \<or> unit = ''mib'' then Some (1024 * 1024)
      else if unit = ''g'' \<or> unit = ''gb'' \<or> unit = ''gib'' then Some (1024 * 1024 * 1024)
      else None)"

definition parse_memory_to_bytes :: "string \<Rightarrow> nat option" where
  "parse_memory_to_bytes raw =
     (let trimmed = trim raw
      in if trimmed = [] then None
         else let digits = takeWhile is_ascii_digit trimmed; unit = dropWhile is_ascii_digit trimmed
              in case parse_uint u64_max digits of
                   None \<Rightarrow> None
                 | Some v \<Rightarrow>
                     (case memory_unit (to_ascii_lowercase unit) of
                        None \<Rightarrow> None
                      | Some multiplier \<Rightarrow> if v * multiplier \<le> u64_max then Some (v * multiplier) else None))"

record heap_env =
  env_memory_model :: "string option"
  env_app_heap_budget :: "string option"
  env_app_heap_budget_bytes :: "string option"
  env_docker_memory_limit :: "string option"
  env_resource_profile_id :: "string option"
  env_resource_profile_index :: "string option"

definition or_empty :: "string option \<Rightarrow> string" where
  "or_empty v = (case v of Some s \<Rightarrow> s | None \<Rightarrow> [])"

definition configure_from_env :: "heap_env \<Rightarrow> heap \<Rightarrow> EmbeddedHeapBudgetConfig \<times> heap" where
  "configure_from_env env h =
     (let memory_model = or_empty (env_memory_model env);
          label = or_empty (env_app_heap_budget env);
          bytes = (case Option.bind (env_app_heap_budget_bytes env) (parse_uint u64_max) of
                     Some b \<Rightarrow> Some b
                   | None \<Rightarrow> parse_memory_to_bytes label);
          bytes0 = (case bytes of Some b \<Rightarrow> b | None \<Rightarrow> 0);
          enabled = (memory_model = ''app-heap-budget'' \<and> bytes0 > 0)
      in (\<lparr>hc_enabled = enabled, hc_memory_model = memory_model, hc_app_heap_budget = label,
           hc_app_heap_budget_bytes = of_nat bytes0,
           hc_docker_memory_limit = or_empty (env_docker_memory_limit env),
           hc_resource_profile_id = or_empty (env_resource_profile_id env),
           hc_resource_profile_index = Option.bind (env_resource_profile_index env) (parse_uint usize_max)\<rparr>,
          configure_budget (if enabled then Some (of_nat bytes0) else None) h))"

section \<open>The failure message\<close>

record OperationAttribution =
  oa_operation_family :: string
  oa_benchmark_operation :: string
  oa_span_or_phase :: string
  oa_member_count :: "nat option"
  oa_epoch :: "u64 option"
  oa_worker_id :: string
  oa_resource_profile_id :: string
  oa_resource_profile_index :: "nat option"
  oa_app_heap_budget :: string
  oa_app_heap_budget_bytes :: u64

record HeapBudgetFailure =
  hf_attribution :: OperationAttribution
  hf_snapshot :: HeapBudgetSnapshot

definition begin_budget_operation :: "OperationAttribution \<Rightarrow> heap \<Rightarrow> (OperationAttribution \<times> bool) option \<times> heap" where
  "begin_budget_operation attribution h =
     (if \<not> heap_enabled h then (None, h)
      else case heap_begin_operation h of (active, h') \<Rightarrow> (Some (attribution, active), h'))"

definition mark_worker_command_execution :: "heap \<Rightarrow> heap" where
  "mark_worker_command_execution h = set_active_context WorkerCommand h"

definition failure_if_exceeded :: "OperationAttribution \<Rightarrow> heap \<Rightarrow> HeapBudgetFailure option" where
  "failure_if_exceeded attribution h =
     (let snap = heap_snapshot h
      in if hs_budget_exceeded snap then Some \<lparr>hf_attribution = attribution, hf_snapshot = snap\<rparr> else None)"

definition show_option :: "('a \<Rightarrow> string) \<Rightarrow> 'a option \<Rightarrow> string" where
  "show_option f v = (case v of Some x \<Rightarrow> f x | None \<Rightarrow> [])"

definition operation_family_for_command :: "string \<Rightarrow> string option \<Rightarrow> string" where
  "operation_family_for_command command_name benchmark_operation =
     (if command_name = ''GenerateKeyPackage'' then ''key_package_create''
      else if command_name = ''AddMembers'' then ''add_commit_create''
      else if command_name = ''JoinFromWelcome'' then ''welcome_receive''
      else if command_name = ''SendApplicationMessage'' then ''application_message_create''
      else if command_name = ''ReceiveApplicationMessage'' then ''application_message_receive''
      else if command_name = ''SelfUpdate'' then ''update_commit_create''
      else if command_name = ''RemoveMembers'' then ''remove_commit_create''
      else if command_name = ''ReceiveCommit'' then ''commit_receive''
      else if command_name = ''ProcessPending'' then
        (case benchmark_operation of Some op \<Rightarrow> op | None \<Rightarrow> ''process_pending'')
      else if command_name = ''CreateGroup'' then ''create_group''
      else command_name)"

definition display_operation :: "string \<Rightarrow> string" where
  "display_operation family =
     (if family = ''key_package_create'' then ''KeyPackageCreate''
      else if family = ''add_commit_create'' then ''AddCommitCreate''
      else if family = ''welcome_receive'' then ''WelcomeReceive''
      else if family = ''application_message_create'' then ''ApplicationMessageCreate''
      else if family = ''application_message_receive'' then ''ApplicationMessageReceive''
      else if family = ''update_commit_create'' then ''UpdateCommitCreate''
      else if family = ''remove_commit_create'' then ''RemoveCommitCreate''
      else if family = ''commit_receive'' then ''CommitReceive''
      else if family = ''create_group'' then ''CreateGroup''
      else if family = ''process_pending'' then ''ProcessPending''
      else ''OpenMLSOperation'')"

definition display_budget :: "u64 \<Rightarrow> string" where
  "display_budget bytes =
     (let n = unat bytes
      in if 1024 * 1024 \<le> n \<and> n mod (1024 * 1024) = 0 then show_nat (n div (1024 * 1024)) @ '' MiB''
         else if 1024 \<le> n \<and> n mod 1024 = 0 then show_nat (n div 1024) @ '' KiB''
         else show_nat n @ '' bytes'')"

definition human_detail :: "HeapBudgetFailure \<Rightarrow> string" where
  "human_detail f =
     (let a = hf_attribution f;
          start = ''The profiled singleton exceeded the '' @ display_budget (oa_app_heap_budget_bytes a) @
                  '' application heap budget during '' @ display_operation (oa_operation_family a)
      in case (oa_member_count a, oa_epoch a) of
           (Some m, Some e) \<Rightarrow> start @ '' at member_count = '' @ show_nat m @ '', epoch = '' @ show_u64 e @ ''.''
         | (Some m, None) \<Rightarrow> start @ '' at member_count = '' @ show_nat m @ ''.''
         | (None, Some e) \<Rightarrow> start @ '' at epoch = '' @ show_u64 e @ ''.''
         | (None, None) \<Rightarrow> start @ ''.'')"

text \<open>The fields between the marker and the detail, in the order of the format string.\<close>

definition failure_fields :: "HeapBudgetFailure \<Rightarrow> (string \<times> string) list" where
  "failure_fields f =
     (let a = hf_attribution f; s = hf_snapshot f in
      [(''failure_class'', ''app_heap_budget_exceeded''),
       (''memory_model'', ''app-heap-budget''),
       (''operation_family'', oa_operation_family a),
       (''benchmark_operation'', oa_benchmark_operation a),
       (''span_or_phase'', oa_span_or_phase a),
       (''member_count'', show_option show_nat (oa_member_count a)),
       (''epoch'', show_option (\<lambda>e. show_u64 e) (oa_epoch a)),
       (''worker_id'', oa_worker_id a),
       (''resource_profile_id'', oa_resource_profile_id a),
       (''resource_profile_index'', show_option show_nat (oa_resource_profile_index a)),
       (''app_heap_budget'', oa_app_heap_budget a),
       (''app_heap_budget_bytes'', show_u64 (oa_app_heap_budget_bytes a)),
       (''configured_heap_budget_bytes'', show_u64 (hs_configured_heap_budget_bytes s)),
       (''current_live_heap_bytes'', show_u64 (hs_failure_current_live_heap_bytes s)),
       (''peak_live_heap_bytes'', show_u64 (hs_failure_peak_live_heap_bytes s)),
       (''operation_peak_live_heap_bytes'', show_u64 (hs_failure_operation_peak_live_heap_bytes s)),
       (''total_allocated_bytes'', show_u64 (hs_failure_total_allocated_bytes s)),
       (''allocation_count'', show_u64 (hs_failure_allocation_count s)),
       (''deallocation_count'', show_u64 (hs_failure_deallocation_count s)),
       (''failed_allocation_size_bytes'', show_option (\<lambda>n. show_u64 n) (hs_failed_allocation_size_bytes s)),
       (''failure_span_id'', show_option (\<lambda>n. show_u64 n) (hs_failure_span_id s)),
       (''heap_failure_context'', context_as_str (hs_failure_context s))])"

definition field_token :: "string \<times> string \<Rightarrow> string" where
  "field_token kv = fst kv @ ''='' @ snd kv"

definition to_worker_error_message :: "HeapBudgetFailure \<Rightarrow> string" where
  "to_worker_error_message f =
     ''APP_HEAP_BUDGET_EXCEEDED '' @ concat (map (\<lambda>kv. field_token kv @ '' '') (failure_fields f)) @
     ''detail='' @ [CHR 0x22] @
     map (\<lambda>c. if c = CHR 0x22 then CHR 0x27 else c) (human_detail f) @ [CHR 0x22]"

section \<open>The reader in the runner\<close>

fun first_field :: "string \<Rightarrow> string list \<Rightarrow> string option" where
  "first_field pre [] = None"
| "first_field pre (token # tokens) =
     (case strip_prefix pre token of
        Some v \<Rightarrow> Some (trim_matches_char (CHR 0x22) v)
      | None \<Rightarrow> first_field pre tokens)"

definition app_heap_field :: "string \<Rightarrow> string \<Rightarrow> string option" where
  "app_heap_field detail key = first_field (key @ ''='') (split_whitespace detail)"

text \<open>The fields of a profile event that the reader fills.\<close>

record heap_event_fields =
  he_memory_model :: "string option"
  he_app_heap_budget :: "string option"
  he_app_heap_budget_bytes :: "nat option"
  he_heap_current_live_bytes :: "nat option"
  he_heap_peak_live_bytes :: "nat option"
  he_heap_operation_peak_live_bytes :: "nat option"
  he_heap_total_allocated_bytes :: "nat option"
  he_heap_allocation_count :: "nat option"
  he_heap_deallocation_count :: "nat option"
  he_heap_failed_allocation_size_bytes :: "nat option"
  he_heap_failure_context :: "string option"
  he_span_id :: "nat option"
  he_operation_family :: "string option"
  he_member_count :: "nat option"
  he_member_count_before :: "nat option"
  he_group_epoch :: "nat option"

definition u64_field :: "string \<Rightarrow> string \<Rightarrow> nat option" where
  "u64_field detail key = Option.bind (app_heap_field detail key) (parse_uint u64_max)"

definition apply_app_heap_budget_failure_fields :: "string option \<Rightarrow> heap_event_fields \<Rightarrow> heap_event_fields" where
  "apply_app_heap_budget_failure_fields failure_detail ev =
     (case failure_detail of
        None \<Rightarrow> ev
      | Some detail \<Rightarrow>
          if \<not> contains ''APP_HEAP_BUDGET_EXCEEDED'' detail then ev
          else let ev1 = ev\<lparr>
                 he_memory_model := app_heap_field detail ''memory_model'',
                 he_app_heap_budget := app_heap_field detail ''app_heap_budget'',
                 he_app_heap_budget_bytes := u64_field detail ''app_heap_budget_bytes'',
                 he_heap_current_live_bytes := u64_field detail ''current_live_heap_bytes'',
                 he_heap_peak_live_bytes := u64_field detail ''peak_live_heap_bytes'',
                 he_heap_operation_peak_live_bytes := u64_field detail ''operation_peak_live_heap_bytes'',
                 he_heap_total_allocated_bytes := u64_field detail ''total_allocated_bytes'',
                 he_heap_allocation_count := u64_field detail ''allocation_count'',
                 he_heap_deallocation_count := u64_field detail ''deallocation_count'',
                 he_heap_failed_allocation_size_bytes := u64_field detail ''failed_allocation_size_bytes'',
                 he_heap_failure_context := app_heap_field detail ''heap_failure_context'',
                 he_span_id := u64_field detail ''failure_span_id''\<rparr>;
               ev2 = (if he_operation_family ev1 = None
                      then ev1\<lparr>he_operation_family := app_heap_field detail ''operation_family''\<rparr> else ev1);
               ev3 = (case Option.bind (app_heap_field detail ''member_count'') (parse_uint usize_max) of
                        Some m \<Rightarrow> ev2\<lparr>he_member_count := Some m,
                          he_member_count_before := (case he_member_count_before ev2 of None \<Rightarrow> Some m | x \<Rightarrow> x)\<rparr>
                      | None \<Rightarrow> ev2)
           in if he_group_epoch ev3 = None then ev3\<lparr>he_group_epoch := u64_field detail ''epoch''\<rparr> else ev3)"

text \<open>
  What the classifier reads of an error: the underlying \<^verbatim>\<open>reqwest\<close> error, if it is one (its kind and its
  source), and the rendered chain, which is ASCII text (\<^verbatim>\<open>to_lowercase\<close> is ASCII lower case on it).
\<close>

record transport_error =
  te_connect :: bool
  te_timeout :: bool
  te_body :: bool
  te_decode :: bool
  te_source :: "string option"

record worker_error =
  we_transport :: "transport_error option"
  we_text :: string

definition classify_text :: "string \<Rightarrow> string" where
  "classify_text error_str =
     (if contains ''app_heap_budget_exceeded'' error_str then ''app_heap_budget_exceeded''
      else if contains ''app_heap_budget_allocator_abort'' error_str then ''app_heap_budget_allocator_abort''
      else if contains ''embedded_budget_timeout'' error_str then ''embedded_budget_timeout''
      else if contains ''connection refused'' error_str then ''container_exit''
      else if contains ''timeout'' error_str \<or> contains ''deadline'' error_str \<or> contains ''timed out'' error_str
      then ''cpu_starvation_timeout''
      else if contains ''connect'' error_str then ''worker_unreachable''
      else ''infrastructure_failure'')"

definition classify_worker_error :: "worker_error \<Rightarrow> string" where
  "classify_worker_error e =
     (let fallback = classify_text (to_ascii_lowercase (we_text e))
      in case we_transport e of
           None \<Rightarrow> fallback
         | Some t \<Rightarrow>
             if te_connect t then
               (case te_source t of
                  Some src \<Rightarrow> if contains ''Connection refused'' src \<or> contains ''connection refused'' src
                              then ''container_exit'' else ''worker_unreachable''
                | None \<Rightarrow> ''worker_unreachable'')
             else if te_timeout t then ''cpu_starvation_timeout''
             else if te_body t \<or> te_decode t then ''protocol_failure''
             else fallback)"

definition is_resource_budget_failure :: "worker_error \<Rightarrow> bool" where
  "is_resource_budget_failure e =
     (let c = classify_worker_error e
      in c = ''app_heap_budget_exceeded'' \<or> c = ''app_heap_budget_allocator_abort'' \<or>
         c = ''embedded_budget_timeout'' \<or> c = ''cpu_starvation_timeout'')"

section \<open>Reading tokens\<close>

lemma split_on_sep: "split_on d (x @ d # y) = split_on d x @ split_on d y"
  by (induction x) (auto split: list.splits)

lemma split_on_chars: "w \<in> set (split_on d s) \<Longrightarrow> set w \<subseteq> set s"
proof (induction s arbitrary: w)
  case (Cons c s)
  obtain v vs where "split_on d s = v # vs" by (cases "split_on d s") simp_all
  then show ?case using Cons.prems Cons.IH by (auto split: if_splits) blast+
qed simp

lemma split_whitespace_sep:
  "is_ws c \<Longrightarrow> split_whitespace (x @ c # y) = split_whitespace x @ split_whitespace y"
  by (simp add: split_whitespace_def split_on_sep)

lemma split_whitespace_token:
  assumes "list_all (\<lambda>c. \<not> is_ws c) w" and "w \<noteq> []"
  shows "split_whitespace w = [w]"
proof -
  have "map (\<lambda>c. if is_ws c then CHR '' '' else c) w = w"
    using assms(1) by (induction w) auto
  moreover have "CHR '' '' \<notin> set w"
    using assms(1) by (auto simp: list_all_iff is_ws_def Let_def)
  ultimately show ?thesis using assms(2) by (simp add: split_whitespace_def split_on_no_sep)
qed

lemma split_whitespace_no_eq:
  assumes "CHR ''='' \<notin> set s" and "w \<in> set (split_whitespace s)"
  shows "CHR ''='' \<notin> set w"
proof -
  have "set w \<subseteq> set (map (\<lambda>c. if is_ws c then CHR '' '' else c) s)"
    using assms(2) split_on_chars unfolding split_whitespace_def by fastforce
  then show ?thesis using assms(1) by auto
qed

lemma split_whitespace_prefix:
  assumes "pre = [] \<or> is_ws (last pre)"
  shows "split_whitespace (pre @ s) = split_whitespace pre @ split_whitespace s"
proof (cases pre rule: rev_cases)
  case Nil
  then show ?thesis by (simp add: split_whitespace_def)
next
  case (snoc p c)
  then have "is_ws c" using assms by simp
  then show ?thesis
    using split_whitespace_sep [of c p s] split_whitespace_sep [of c p "[]"] snoc
    by (simp add: split_whitespace_def)
qed

lemma split_whitespace_fields:
  assumes "\<And>kv. kv \<in> set kvs \<Longrightarrow> list_all (\<lambda>c. \<not> is_ws c) (field_token kv)"
  shows "split_whitespace (concat (map (\<lambda>kv. field_token kv @ '' '') kvs) @ rest) =
    map field_token kvs @ split_whitespace rest"
  using assms
proof (induction kvs)
  case (Cons kv kvs)
  have "is_ws CHR '' ''" by (simp add: is_ws_def)
  moreover have "split_whitespace (field_token kv) = [field_token kv]"
    using Cons.prems [of kv] by (intro split_whitespace_token) (auto simp: field_token_def)
  ultimately show ?case
    using Cons by (simp add: split_whitespace_sep)
qed simp

lemma first_field_append:
  "first_field p (xs @ ys) = (case first_field p xs of None \<Rightarrow> first_field p ys | Some v \<Rightarrow> Some v)"
  by (induction xs) (auto split: option.splits)

lemma first_field_no_eq:
  "(\<And>w. w \<in> set xs \<Longrightarrow> CHR ''='' \<notin> set w) \<Longrightarrow> first_field (k @ ''='') xs = None"
  by (induction xs) (auto simp: strip_prefix_def dest!: set_mono_prefix)

lemma strip_prefix_field:
  assumes "CHR ''='' \<notin> set key" and "CHR ''='' \<notin> set (fst kv)"
  shows "strip_prefix (key @ ''='') (field_token kv) = (if fst kv = key then Some (snd kv) else None)"
proof (cases "fst kv = key")
  case True
  then show ?thesis by (simp add: strip_prefix_def field_token_def)
next
  case False
  then have "\<not> prefix (key @ ''='') (field_token kv)"
    using append_sep_inj [OF assms(2) assms(1)] by (auto simp: field_token_def prefix_def)
  then show ?thesis using False by (simp add: strip_prefix_def)
qed

lemma first_field_fields:
  assumes "CHR ''='' \<notin> set key" and "\<And>kv. kv \<in> set kvs \<Longrightarrow> CHR ''='' \<notin> set (fst kv)"
  shows "first_field (key @ ''='') (map field_token kvs @ rest) =
    (case map_of kvs key of
       Some v \<Rightarrow> Some (trim_matches_char (CHR 0x22) v)
     | None \<Rightarrow> first_field (key @ ''='') rest)"
  using assms(2)
  by (induction kvs) (auto simp: strip_prefix_field [OF assms(1)])

section \<open>The report is read back\<close>

definition token_safe :: "string \<Rightarrow> bool" where
  "token_safe s = (list_all (\<lambda>c. \<not> is_ws c) s \<and> trim_matches_char (CHR 0x22) s = s)"

definition attribution_safe :: "OperationAttribution \<Rightarrow> bool" where
  "attribution_safe a =
     (token_safe (oa_operation_family a) \<and> token_safe (oa_benchmark_operation a) \<and>
      token_safe (oa_span_or_phase a) \<and> token_safe (oa_worker_id a) \<and>
      token_safe (oa_resource_profile_id a) \<and> token_safe (oa_app_heap_budget a))"

lemma dropWhile_absent: "q \<notin> set s \<Longrightarrow> dropWhile (\<lambda>c. c = q) s = s"
  by (cases s) auto

lemma trim_matches_absent: "q \<notin> set s \<Longrightarrow> trim_matches_char q s = s"
  by (simp add: trim_matches_char_def trim_end_with_def dropWhile_absent)

lemma token_safe_nat [simp]: "token_safe (show_nat n)"
proof -
  have "list_all (\<lambda>c. \<not> is_ws c) (show_nat n)"
    using show_nat_digits [of n] digit_not_ws by (auto simp: list_all_iff)
  moreover have "CHR 0x22 \<notin> set (show_nat n)"
    by (rule show_nat_no_char) (simp add: is_ascii_digit_def)
  ultimately show ?thesis by (simp add: token_safe_def trim_matches_absent)
qed

lemma token_safe_Nil [simp]: "token_safe []"
  by (simp add: token_safe_def trim_matches_absent)

lemma token_safe_option [simp]: "(\<And>x. token_safe (g x)) \<Longrightarrow> token_safe (show_option g v)"
  by (cases v) (simp_all add: show_option_def)

lemma token_safe_context [simp]: "token_safe (context_as_str c)"
  by (cases c) (simp_all add: token_safe_def trim_matches_absent is_ws_def)

lemma token_safe_constants [simp]:
  "token_safe ''app_heap_budget_exceeded''" "token_safe ''app-heap-budget''"
  by (simp_all add: token_safe_def trim_matches_absent is_ws_def)

lemma failure_fields_safe:
  assumes "attribution_safe (hf_attribution f)" and "kv \<in> set (failure_fields f)"
  shows "token_safe (snd kv)"
proof -
  have "list_all token_safe (map snd (failure_fields f))"
    using assms(1) by (simp add: failure_fields_def Let_def attribution_safe_def)
  then show ?thesis using assms(2) by (simp add: list_all_iff)
qed

definition key_safe :: "string \<Rightarrow> bool" where
  "key_safe k = list_all (\<lambda>c. c \<noteq> CHR ''='' \<and> \<not> is_ws c) k"

lemma failure_fields_keys:
  assumes "kv \<in> set (failure_fields f)"
  shows "CHR ''='' \<notin> set (fst kv)" and "list_all (\<lambda>c. \<not> is_ws c) (fst kv)"
proof -
  have "list_all key_safe (map fst (failure_fields f))"
    by (simp add: failure_fields_def Let_def key_safe_def is_ws_def)
  then have "key_safe (fst kv)" using assms by (simp add: list_all_iff)
  then show "CHR ''='' \<notin> set (fst kv)" and "list_all (\<lambda>c. \<not> is_ws c) (fst kv)"
    by (auto simp: key_safe_def list_all_iff)
qed

definition marker :: string where
  "marker = ''APP_HEAP_BUDGET_EXCEEDED''"

lemma marker_token: "split_whitespace marker = [marker]" "CHR ''='' \<notin> set marker"
  by (rule split_whitespace_token) (simp_all add: is_ws_def marker_def)

definition report_tail :: "HeapBudgetFailure \<Rightarrow> string" where
  "report_tail f = ''detail='' @ [CHR 0x22] @
     map (\<lambda>c. if c = CHR 0x22 then CHR 0x27 else c) (human_detail f) @ [CHR 0x22]"

lemma report_shape:
  "to_worker_error_message f =
     marker @ CHR '' '' # (concat (map (\<lambda>kv. field_token kv @ '' '') (failure_fields f)) @ report_tail f)"
  by (simp add: to_worker_error_message_def report_tail_def marker_def)

lemma report_tokens:
  assumes "attribution_safe (hf_attribution f)"
  shows "split_whitespace (to_worker_error_message f) =
    marker # map field_token (failure_fields f) @ split_whitespace (report_tail f)"
proof -
  have tok: "list_all (\<lambda>c. \<not> is_ws c) (field_token kv)" if "kv \<in> set (failure_fields f)" for kv
    using failure_fields_keys(2) [OF that] failure_fields_safe [OF assms that]
    by (auto simp: field_token_def token_safe_def is_ws_def)
  have "is_ws CHR '' ''" by (simp add: is_ws_def)
  then show ?thesis
    by (simp add: report_shape split_whitespace_sep split_whitespace_fields [OF tok] marker_token)
qed

lemma app_heap_field_report:
  assumes safe: "attribution_safe (hf_attribution f)"
    and pre: "CHR ''='' \<notin> set pre" "pre = [] \<or> is_ws (last pre)"
    and key: "map_of (failure_fields f) key = Some v"
  shows "app_heap_field (pre @ to_worker_error_message f) key = Some v"
proof -
  have mem: "(key, v) \<in> set (failure_fields f)" using key by (rule map_of_SomeD)
  have keq: "CHR ''='' \<notin> set key" using failure_fields_keys(1) [OF mem] by simp
  have v: "trim_matches_char (CHR 0x22) v = v"
    using failure_fields_safe [OF safe mem] by (simp add: token_safe_def)
  have none: "first_field (key @ ''='') (split_whitespace pre @ [marker]) = None"
    using split_whitespace_no_eq [OF pre(1)] marker_token(2) by (intro first_field_no_eq) auto
  have "first_field (key @ ''='') ((split_whitespace pre @ [marker]) @
      map field_token (failure_fields f) @ split_whitespace (report_tail f)) = Some v"
    unfolding first_field_append [of _ "split_whitespace pre @ [marker]"] none option.case
    using key v by (simp add: first_field_fields [OF keq failure_fields_keys(1)])
  then show ?thesis
    by (simp add: app_heap_field_def split_whitespace_prefix [OF pre(2)] report_tokens [OF safe])
qed

lemma parse_uint_Nil: "parse_uint b [] = None"
  by (simp add: parse_uint_def)

lemma parse_shown:
  "parse_uint u64_max (show_u64 w) = Some (unat w)"
  by (simp add: parse_uint_show_nat)

lemma parse_shown_option:
  "parse_uint u64_max (show_option (\<lambda>w. show_u64 w) v) = map_option unat v"
  by (cases v) (simp_all add: parse_shown parse_uint_Nil show_option_def)

lemma parse_shown_usize:
  "(case v of Some m \<Rightarrow> m \<le> usize_max | None \<Rightarrow> True) \<Longrightarrow> parse_uint usize_max (show_option show_nat v) = v"
  by (cases v) (simp_all add: parse_uint_show_nat parse_uint_Nil show_option_def)

lemma report_marked: "contains ''APP_HEAP_BUDGET_EXCEEDED'' (pre @ to_worker_error_message f)"
  using report_shape [of f] by (auto simp: contains_iff marker_def)

lemma lower_append: "to_ascii_lowercase (x @ y) = to_ascii_lowercase x @ to_ascii_lowercase y"
  by (simp add: to_ascii_lowercase_def)

lemma lower_marker: "to_ascii_lowercase marker = ''app_heap_budget_exceeded''"
  by code_simp

lemma report_classified: "classify_text (to_ascii_lowercase (pre @ to_worker_error_message f)) = ''app_heap_budget_exceeded''"
proof -
  have "contains ''app_heap_budget_exceeded'' (to_ascii_lowercase (pre @ to_worker_error_message f))"
    unfolding report_shape lower_append lower_marker contains_iff by blast
  then show ?thesis by (simp add: classify_text_def)
qed

text \<open>
  (C29) A worker whose operation exceeded its heap budget reports it as one line of text, which reaches the
  runner behind the contexts the error collected on the way. Provided no context contains an equals sign and the
  labels of the attribution contain neither white space nor quotes at their ends, the runner
  classifies the error as an exceeded application heap budget, and the profile event it writes
  holds exactly the numbers of the tracker at the moment of the failure (current and peak
  live bytes, counts, the size of the failing allocation, its span and its context) and
  the attribution's family, member count and epoch where the event had none.
\<close>

theorem heap_report_read_back:
  assumes failed: "failure_if_exceeded a h = Some f"
    and safe: "attribution_safe a"
    and usize: "case oa_member_count a of Some m \<Rightarrow> m \<le> usize_max | None \<Rightarrow> True"
    and pre: "CHR ''='' \<notin> set pre" "pre = [] \<or> is_ws (last pre)"
  shows "classify_worker_error \<lparr>we_transport = None, we_text = pre @ to_worker_error_message f\<rparr> = ''app_heap_budget_exceeded''
   \<and> apply_app_heap_budget_failure_fields (Some (pre @ to_worker_error_message f)) ev =
      ev\<lparr>he_memory_model := Some ''app-heap-budget'',
         he_app_heap_budget := Some (oa_app_heap_budget a),
         he_app_heap_budget_bytes := Some (unat (oa_app_heap_budget_bytes a)),
         he_heap_current_live_bytes := Some (unat (failure_current_live_bytes h)),
         he_heap_peak_live_bytes := Some (unat (failure_peak_live_bytes h)),
         he_heap_operation_peak_live_bytes := Some (unat (failure_operation_peak_live_bytes h)),
         he_heap_total_allocated_bytes := Some (unat (failure_total_allocated_bytes h)),
         he_heap_allocation_count := Some (unat (failure_allocation_count h)),
         he_heap_deallocation_count := Some (unat (failure_deallocation_count h)),
         he_heap_failed_allocation_size_bytes :=
           (if failed_allocation_size h = 0 then None else Some (unat (failed_allocation_size h))),
         he_heap_failure_context := Some (context_as_str (context_from_raw (failure_context h))),
         he_span_id := (if failure_span_id h = 0 then None else Some (unat (failure_span_id h))),
         he_operation_family := (case he_operation_family ev of None \<Rightarrow> Some (oa_operation_family a) | x \<Rightarrow> x),
         he_member_count := (case oa_member_count a of None \<Rightarrow> he_member_count ev | x \<Rightarrow> x),
         he_member_count_before := (case he_member_count_before ev of None \<Rightarrow> oa_member_count a | x \<Rightarrow> x),
         he_group_epoch := (case he_group_epoch ev of None \<Rightarrow> map_option unat (oa_epoch a) | x \<Rightarrow> x)\<rparr>" (is "_ \<and> _ = ?ev")
proof
  show "classify_worker_error \<lparr>we_transport = None, we_text = pre @ to_worker_error_message f\<rparr> = ''app_heap_budget_exceeded''"
    by (simp add: classify_worker_error_def report_classified)
next
  have f: "f = \<lparr>hf_attribution = a, hf_snapshot = heap_snapshot h\<rparr>"
    using failed by (auto simp: failure_if_exceeded_def Let_def split: if_splits)
  define d where "d = pre @ to_worker_error_message f"
  have rd: "app_heap_field d k = Some v" if "map_of (failure_fields f) k = Some v" for k v
    using app_heap_field_report [OF _ pre that] safe by (simp add: d_def f)
  have strs:
    "app_heap_field d ''memory_model'' = Some ''app-heap-budget''"
    "app_heap_field d ''app_heap_budget'' = Some (oa_app_heap_budget a)"
    "app_heap_field d ''heap_failure_context'' = Some (context_as_str (context_from_raw (failure_context h)))"
    "app_heap_field d ''operation_family'' = Some (oa_operation_family a)"
    by (rule rd; simp add: failure_fields_def f heap_snapshot_def)+
  have nums:
    "u64_field d ''app_heap_budget_bytes'' = Some (unat (oa_app_heap_budget_bytes a))"
    "u64_field d ''current_live_heap_bytes'' = Some (unat (failure_current_live_bytes h))"
    "u64_field d ''peak_live_heap_bytes'' = Some (unat (failure_peak_live_bytes h))"
    "u64_field d ''operation_peak_live_heap_bytes'' = Some (unat (failure_operation_peak_live_bytes h))"
    "u64_field d ''total_allocated_bytes'' = Some (unat (failure_total_allocated_bytes h))"
    "u64_field d ''allocation_count'' = Some (unat (failure_allocation_count h))"
    "u64_field d ''deallocation_count'' = Some (unat (failure_deallocation_count h))"
    unfolding u64_field_def
    by (subst rd, simp add: failure_fields_def f heap_snapshot_def, simp add: parse_shown)+
  have opts:
    "u64_field d ''failed_allocation_size_bytes'' =
       (if failed_allocation_size h = 0 then None else Some (unat (failed_allocation_size h)))"
    "u64_field d ''failure_span_id'' = (if failure_span_id h = 0 then None else Some (unat (failure_span_id h)))"
    "u64_field d ''epoch'' = map_option unat (oa_epoch a)"
    unfolding u64_field_def
    by (subst rd, simp add: failure_fields_def f heap_snapshot_def, simp add: parse_shown_option word_greater_zero_iff)+
  have marked: "contains ''APP_HEAP_BUDGET_EXCEEDED'' d" using report_marked by (simp add: d_def)
  have count: "Option.bind (app_heap_field d ''member_count'') (parse_uint usize_max) = oa_member_count a"
  proof -
    have "app_heap_field d ''member_count'' = Some (show_option show_nat (oa_member_count a))"
      by (rule rd) (simp add: failure_fields_def f Let_def)
    then show ?thesis using parse_shown_usize [OF usize] by simp
  qed
  show "apply_app_heap_budget_failure_fields (Some (pre @ to_worker_error_message f)) ev = ?ev"
    unfolding d_def [symmetric] apply_app_heap_budget_failure_fields_def
    by (cases "oa_member_count a"; cases "he_member_count_before ev"; cases "he_operation_family ev";
        cases "he_group_epoch ev"; simp add: marked Let_def strs opts nums count)
qed

definition demo_attribution :: OperationAttribution where
  "demo_attribution =
     \<lparr>oa_operation_family = ''commit_receive'', oa_benchmark_operation = ''receive'', oa_span_or_phase = ''merge'',
      oa_member_count = Some 12, oa_epoch = Some 7, oa_worker_id = ''00003'', oa_resource_profile_id = ''esp32'',
      oa_resource_profile_index = Some 1, oa_app_heap_budget = ''100b'', oa_app_heap_budget_bytes = 100\<rparr>"

definition demo_exceeded :: heap where
  "demo_exceeded = run_ops heap_step (snd (heap_begin_operation demo_heap)) demo_events"

definition demo_event :: heap_event_fields where
  "demo_event =
     \<lparr>he_memory_model = None, he_app_heap_budget = None, he_app_heap_budget_bytes = None,
      he_heap_current_live_bytes = None, he_heap_peak_live_bytes = None, he_heap_operation_peak_live_bytes = None,
      he_heap_total_allocated_bytes = None, he_heap_allocation_count = None, he_heap_deallocation_count = None,
      he_heap_failed_allocation_size_bytes = None, he_heap_failure_context = None, he_span_id = None,
      he_operation_family = None, he_member_count = None, he_member_count_before = Some 11, he_group_epoch = None\<rparr>"

lemma demo_exceeded_run:
  "budget_exceeded demo_exceeded" "failed_allocation_size demo_exceeded = 60"
  "failure_current_live_bytes demo_exceeded = 130"
  by (simp_all add: demo_exceeded_def demo_heap_def demo_events_def heap_begin_operation_def heap_enabled_def record_alloc_def
      record_dealloc_def check_budget_def accounted_live_bytes_def reset_operation_state_def Let_def
      word_saturating_sub_def word_saturating_add_def)

lemma demo_report_ok:
  "failure_if_exceeded demo_attribution demo_exceeded =
     Some \<lparr>hf_attribution = demo_attribution, hf_snapshot = heap_snapshot demo_exceeded\<rparr>"
  "attribution_safe demo_attribution"
  "case oa_member_count demo_attribution of Some m \<Rightarrow> m \<le> usize_max | None \<Rightarrow> True"
  "CHR ''='' \<notin> set ''worker 00003: ''" "''worker 00003: '' = [] \<or> is_ws (last ''worker 00003: '')"
  by (simp_all add: failure_if_exceeded_def heap_snapshot_def demo_exceeded_run attribution_safe_def demo_attribution_def
      token_safe_def trim_matches_absent is_ws_def usize_max_def)

theorem heap_report_read_back_witness:
  "attribution_safe demo_attribution \<and> budget_exceeded demo_exceeded \<and>
   (let msg = ''worker 00003: '' @ to_worker_error_message
                \<lparr>hf_attribution = demo_attribution, hf_snapshot = heap_snapshot demo_exceeded\<rparr>;
        ev = apply_app_heap_budget_failure_fields (Some msg) demo_event
    in classify_worker_error \<lparr>we_transport = None, we_text = msg\<rparr> = ''app_heap_budget_exceeded'' \<and>
       he_heap_current_live_bytes ev = Some 130 \<and> he_heap_failed_allocation_size_bytes ev = Some 60 \<and>
       he_member_count ev = Some 12 \<and> he_member_count_before ev = Some 11 \<and> he_group_epoch ev = Some 7)"
  using heap_report_read_back [OF demo_report_ok, of demo_event] demo_report_ok(2)
  by (simp add: Let_def demo_exceeded_run demo_attribution_def demo_event_def)

section \<open>Configuring the budget\<close>

definition unit_names :: "string list" where
  "unit_names = [[], ''b'', ''k'', ''kb'', ''kib'', ''m'', ''mb'', ''mib'', ''g'', ''gb'', ''gib'']"

lemma memory_unit_None: "w \<notin> set unit_names \<Longrightarrow> memory_unit w = None"
  by (simp add: memory_unit_def unit_names_def)

lemma memory_unit_letters:
  assumes "memory_unit w = Some m"
  shows "list_all is_ascii_lower w"
proof -
  have "w \<in> set unit_names" using assms memory_unit_None [of w] by fastforce
  moreover have "list_all (list_all is_ascii_lower) unit_names"
    by (simp add: is_ascii_lower_def unit_names_def)
  ultimately show ?thesis unfolding list_all_iff [of "list_all _"] by blast
qed

lemma unit_letters:
  assumes "memory_unit (to_ascii_lowercase u) = Some m" and "c \<in> set u"
  shows "\<not> is_ascii_digit c" and "\<not> is_ws c"
proof -
  have "is_ascii_lower (if is_ascii_upper c then char_of ((of_char c :: nat) + 32) else c)"
    using memory_unit_letters [OF assms(1)] assms(2) by (auto simp: list_all_iff to_ascii_lowercase_def)
  then have "is_ascii_upper c \<or> is_ascii_lower c" by (auto split: if_splits)
  then show "\<not> is_ascii_digit c" and "\<not> is_ws c"
    by (auto simp: is_ascii_upper_def is_ascii_lower_def is_ascii_digit_def is_ws_def Let_def)
qed

lemma digits_then_unit:
  assumes "list_all is_ascii_digit ds" and "\<And>c. c \<in> set u \<Longrightarrow> \<not> is_ascii_digit c"
  shows "takeWhile is_ascii_digit (ds @ u) = ds" and "dropWhile is_ascii_digit (ds @ u) = u"
  using assms by (cases u; simp add: takeWhile_append dropWhile_append list_all_iff)+

lemma parse_memory_label:
  assumes "memory_unit (to_ascii_lowercase u) = Some m"
  shows "parse_memory_to_bytes (show_nat n @ u) = (if n \<le> u64_max \<and> n * m \<le> u64_max then Some (n * m) else None)"
proof -
  have "list_all (\<lambda>c. \<not> is_ws c) (show_nat n @ u)"
    using show_nat_digits [of n] digit_not_ws unit_letters(2) [OF assms] by (auto simp: list_all_iff)
  then have "trim (show_nat n @ u) = show_nat n @ u" by (rule trim_no_ws)
  then show ?thesis
    using assms unit_letters(1) [OF assms]
    by (simp add: parse_memory_to_bytes_def digits_then_unit [OF show_nat_digits] parse_uint_digits show_nat_digits)
qed

lemma configured_after: "configured_budget_bytes (configure_budget b h) =
    (case b of Some x \<Rightarrow> if x = 0 then None else Some x | None \<Rightarrow> None)"
  by (auto simp: configured_budget_bytes_def configure_budget_def reset_operation_state_def word_greater_zero_iff
      Let_def split: option.splits)

text \<open>
  A worker configured with a budget label of decimal digits and a unit tracks exactly that many
  bytes: under the application heap budget memory model the budget is enabled if and only if the product of
  number and unit is positive and fits 64 bits, and then the tracker enforces the product; a label that overflows
  switches the budget off instead of wrapping to a smaller one.
\<close>

theorem configured_budget_exact:
  assumes "env_memory_model env = Some ''app-heap-budget''" and "env_app_heap_budget_bytes env = None"
    and "env_app_heap_budget env = Some (show_nat n @ u)" and "memory_unit (to_ascii_lowercase u) = Some m"
  shows "(if 0 < n * m \<and> n * m \<le> u64_max
          then hc_enabled (fst (configure_from_env env h)) \<and>
               unat (hc_app_heap_budget_bytes (fst (configure_from_env env h))) = n * m \<and>
               configured_budget_bytes (snd (configure_from_env env h)) = Some (of_nat (n * m))
          else \<not> hc_enabled (fst (configure_from_env env h)) \<and>
               configured_budget_bytes (snd (configure_from_env env h)) = None)"
proof -
  have "memory_unit w \<noteq> Some 0" for w by (simp add: memory_unit_def)
  then have m: "0 < m" using assms(4) by (cases m) auto
  have p: "parse_memory_to_bytes (show_nat n @ u) = (if n * m \<le> u64_max then Some (n * m) else None)"
    using parse_memory_label [OF assms(4), of n] m
      order_trans [of n "n * m" u64_max] by (simp split: if_splits)
  have z: "unat (of_nat (n * m) :: u64) = n * m" if "n * m \<le> u64_max"
    using that by (simp add: u64_max_def unat_of_nat take_bit_nat_eq_self_iff del: of_nat_mult)
  then have nz: "(of_nat (n * m) :: u64) \<noteq> 0" if "0 < n * m" "n * m \<le> u64_max"
    using that by (metis less_numeral_extra(3) unat_0)
  define c where "c = n * m"
  show ?thesis
    using assms(1-3) p z nz unfolding c_def [symmetric]
    by (auto simp: configure_from_env_def Let_def or_empty_def configured_after)
qed

definition demo_env :: heap_env where
  "demo_env =
     \<lparr>env_memory_model = Some ''app-heap-budget'', env_app_heap_budget = Some ''512KiB'',
      env_app_heap_budget_bytes = None, env_docker_memory_limit = None, env_resource_profile_id = None,
      env_resource_profile_index = None\<rparr>"

lemma demo_env_ok:
  "env_memory_model demo_env = Some ''app-heap-budget''" "env_app_heap_budget_bytes demo_env = None"
  "env_app_heap_budget demo_env = Some (show_nat 512 @ ''KiB'')"
  "memory_unit (to_ascii_lowercase ''KiB'') = Some 1024"
  by (simp_all add: demo_env_def show_nat.simps digit_char_def) code_simp+

theorem configured_budget_exact_witness:
  "memory_unit (to_ascii_lowercase ''KiB'') = Some 1024 \<and> hc_enabled (fst (configure_from_env demo_env demo_heap)) \<and>
   configured_budget_bytes (snd (configure_from_env demo_env demo_heap)) = Some 524288"
  using configured_budget_exact [OF demo_env_ok, of demo_heap] demo_env_ok(4) by (simp add: u64_max_def)


end
