(* ===== verification/Allocation_Counter.thy ===== *)
theory Allocation_Counter
  imports Prelude
begin

text \<open>
  The counting allocator (\<^verbatim>\<open>allocation_counter/src/lib.rs\<close> and \<^verbatim>\<open>allocator.rs\<close>, the same files in both trees): the
  per-thread stack of measurements, \<^verbatim>\<open>measure\<close>, \<^verbatim>\<open>opt_out\<close>, and the process-wide totals. The code
  that runs inside a measurement is a \<open>cmd\<close>: what it does to the allocator, with nested measurements and
  opted-out parts. Totals are natural numbers and current values integers; the 64-bit limits of the
  fields are not reached by byte counts of a process. A failed assertion is \<open>None\<close>.
\<close>

section \<open>State and operations\<close>

definition MAX_DEPTH :: nat where
  "MAX_DEPTH = 64"

record AllocationInfo =
  count_total :: nat
  count_current :: int
  count_max :: nat
  bytes_total :: nat
  bytes_current :: int
  bytes_max :: nat

definition allocation_info_default :: AllocationInfo where
  "allocation_info_default = \<lparr>count_total = 0, count_current = 0, count_max = 0,
     bytes_total = 0, bytes_current = 0, bytes_max = 0\<rparr>"

definition info_add_assign :: "AllocationInfo \<Rightarrow> AllocationInfo \<Rightarrow> AllocationInfo" where
  "info_add_assign a b = \<lparr>count_total = count_total a + count_total b,
     count_current = count_current a + count_current b, count_max = count_max a + count_max b,
     bytes_total = bytes_total a + bytes_total b, bytes_current = bytes_current a + bytes_current b,
     bytes_max = bytes_max a + bytes_max b\<rparr>"

record counter =
  stack_depth :: nat
  stack_elements :: "AllocationInfo list"
  do_count :: nat
  process_count :: nat
  process_bytes :: nat

definition counter_init :: counter where
  "counter_init = \<lparr>stack_depth = 0, stack_elements = replicate MAX_DEPTH allocation_info_default,
     do_count = 0, process_count = 0, process_bytes = 0\<rparr>"

definition info_alloc :: "nat \<Rightarrow> AllocationInfo \<Rightarrow> AllocationInfo" where
  "info_alloc n i =
     (let cc = count_current i + 1; bc = bytes_current i + int n
      in \<lparr>count_total = count_total i + 1, count_current = cc, count_max = max (count_max i) (nat (max cc 0)),
          bytes_total = bytes_total i + n, bytes_current = bc, bytes_max = max (bytes_max i) (nat (max bc 0))\<rparr>)"

definition info_dealloc :: "nat \<Rightarrow> AllocationInfo \<Rightarrow> AllocationInfo" where
  "info_dealloc n i = i\<lparr>count_current := count_current i - 1, bytes_current := bytes_current i - int n\<rparr>"

definition on_top :: "(AllocationInfo \<Rightarrow> AllocationInfo) \<Rightarrow> counter \<Rightarrow> counter" where
  "on_top f c =
     c\<lparr>stack_elements := (stack_elements c)[stack_depth c := f (stack_elements c ! stack_depth c)]\<rparr>"

definition alloc :: "nat \<Rightarrow> counter \<Rightarrow> counter" where
  "alloc n c =
     (let c1 = c\<lparr>process_count := process_count c + 1, process_bytes := process_bytes c + n\<rparr>
      in if do_count c1 = 0 then on_top (info_alloc n) c1 else c1)"

definition dealloc :: "nat \<Rightarrow> counter \<Rightarrow> counter" where
  "dealloc n c = (if do_count c = 0 then on_top (info_dealloc n) c else c)"

text \<open>The two halves of \<^verbatim>\<open>measure\<close>, before and after the measured code.\<close>

definition measure_push :: "counter \<Rightarrow> counter option" where
  "measure_push c =
     (let d = stack_depth c + 1
      in if d < MAX_DEPTH
         then Some (c\<lparr>stack_depth := d, stack_elements := (stack_elements c)[d := allocation_info_default]\<rparr>)
         else None)"

definition measure_pop :: "counter \<Rightarrow> AllocationInfo \<times> counter" where
  "measure_pop c =
     (let popped = stack_elements c ! stack_depth c; d = stack_depth c - 1
      in (popped, c\<lparr>stack_depth := d, stack_elements :=
            (stack_elements c)[d := info_add_assign (stack_elements c ! d) popped]\<rparr>))"

datatype cmd = CAlloc nat | CDealloc nat | CMeasure "cmd list" | COptOut "cmd list"

fun run_cmd :: "cmd \<Rightarrow> counter \<Rightarrow> counter option" and run_cmds :: "cmd list \<Rightarrow> counter \<Rightarrow> counter option" where
  "run_cmd (CAlloc n) c = Some (alloc n c)"
| "run_cmd (CDealloc n) c = Some (dealloc n c)"
| "run_cmd (CMeasure ps) c =
     (case measure_push c of
        None \<Rightarrow> None
      | Some c1 \<Rightarrow> map_option (\<lambda>c2. snd (measure_pop c2)) (run_cmds ps c1))"
| "run_cmd (COptOut ps) c =
     map_option (\<lambda>c1. c1\<lparr>do_count := do_count c1 - 1\<rparr>) (run_cmds ps (c\<lparr>do_count := do_count c + 1\<rparr>))"
| "run_cmds [] c = Some c"
| "run_cmds (p # ps) c = (case run_cmd p c of None \<Rightarrow> None | Some c1 \<Rightarrow> run_cmds ps c1)"

definition measure_run :: "cmd list \<Rightarrow> counter \<Rightarrow> (AllocationInfo \<times> counter) option" where
  "measure_run ps c =
     (case measure_push c of None \<Rightarrow> None | Some c1 \<Rightarrow> map_option measure_pop (run_cmds ps c1))"

section \<open>What a measurement should report\<close>

text \<open>The events the measurement counts, in order: the size, negative for a deallocation.\<close>

datatype event = EAlloc nat | EDealloc nat

fun counted :: "cmd \<Rightarrow> event list" and counteds :: "cmd list \<Rightarrow> event list" where
  "counted (CAlloc n) = [EAlloc n]"
| "counted (CDealloc n) = [EDealloc n]"
| "counted (CMeasure ps) = counteds ps"
| "counted (COptOut ps) = []"
| "counteds [] = []"
| "counteds (p # ps) = counted p @ counteds ps"

fun depth_of :: "cmd \<Rightarrow> nat" and depths :: "cmd list \<Rightarrow> nat" where
  "depth_of (CAlloc n) = 0"
| "depth_of (CDealloc n) = 0"
| "depth_of (CMeasure ps) = Suc (depths ps)"
| "depth_of (COptOut ps) = depths ps"
| "depths [] = 0"
| "depths (p # ps) = max (depth_of p) (depths ps)"

fun event_info :: "event \<Rightarrow> AllocationInfo \<Rightarrow> AllocationInfo" where
  "event_info (EAlloc n) = info_alloc n"
| "event_info (EDealloc n) = info_dealloc n"

text \<open>The reference: all events on one element, so the maxima are the true peaks.\<close>

definition flat_info :: "event list \<Rightarrow> AllocationInfo \<Rightarrow> AllocationInfo" where
  "flat_info es i = fold event_info es i"

lemma flat_info_simps [simp]:
  "flat_info [] i = i" "flat_info (e # es) i = flat_info es (event_info e i)"
  "flat_info (es @ fs) i = flat_info fs (flat_info es i)"
  by (simp_all add: flat_info_def)

text \<open>Same totals and current values; the left maxima are at least the right ones.\<close>

definition covers :: "AllocationInfo \<Rightarrow> AllocationInfo \<Rightarrow> bool" where
  "covers a b \<longleftrightarrow> count_total a = count_total b \<and> count_current a = count_current b \<and>
     bytes_total a = bytes_total b \<and> bytes_current a = bytes_current b \<and>
     count_max b \<le> count_max a \<and> bytes_max b \<le> bytes_max a"

definition info_ok :: "AllocationInfo \<Rightarrow> bool" where
  "info_ok i \<longleftrightarrow> count_current i \<le> int (count_max i) \<and> bytes_current i \<le> int (bytes_max i)"

section \<open>Lemmas\<close>

lemma covers_refl [simp]: "covers a a"
  by (simp add: covers_def)

lemma covers_trans: "covers a b \<Longrightarrow> covers b c \<Longrightarrow> covers a c"
  by (simp add: covers_def)

lemma covers_event: "covers a b \<Longrightarrow> covers (event_info e a) (event_info e b)"
  by (cases e) (auto simp: covers_def info_alloc_def info_dealloc_def Let_def)

lemma covers_flat: "covers a b \<Longrightarrow> covers (flat_info es a) (flat_info es b)"
  by (induction es arbitrary: a b) (auto simp: covers_event)

lemma info_ok_event: "info_ok i \<Longrightarrow> info_ok (event_info e i)"
  by (cases e) (auto simp: info_ok_def info_alloc_def info_dealloc_def Let_def)

lemma info_ok_flat: "info_ok i \<Longrightarrow> info_ok (flat_info es i)"
  by (induction es arbitrary: i) (auto simp: info_ok_event)

lemma info_ok_default [simp]: "info_ok allocation_info_default"
  by (simp add: info_ok_def allocation_info_default_def)

lemma info_ok_add: "info_ok a \<Longrightarrow> info_ok b \<Longrightarrow> info_ok (info_add_assign a b)"
  by (simp add: info_ok_def info_add_assign_def)

lemma info_ok_covers: "info_ok b \<Longrightarrow> covers a b \<Longrightarrow> info_ok a"
  by (auto simp: info_ok_def covers_def)

text \<open>Adding a nested result covers running its events on the parent.\<close>

lemma add_event:
  assumes "info_ok a"
  shows "covers (info_add_assign a (event_info e b)) (event_info e (info_add_assign a b))"
  using assms
  by (cases e) (auto simp: covers_def info_alloc_def info_dealloc_def info_add_assign_def info_ok_def Let_def)

lemma add_flat:
  "info_ok a \<Longrightarrow> covers (info_add_assign a (flat_info es b)) (flat_info es (info_add_assign a b))"
proof (induction es arbitrary: b)
  case (Cons e es)
  have "covers (info_add_assign a (flat_info es (event_info e b))) (flat_info es (info_add_assign a (event_info e b)))"
    using Cons by simp
  moreover have "covers (flat_info es (info_add_assign a (event_info e b))) (flat_info es (event_info e (info_add_assign a b)))"
    by (rule covers_flat [OF add_event [OF Cons.prems]])
  ultimately show ?case by (auto intro: covers_trans)
qed simp

lemma add_default [simp]: "info_add_assign a allocation_info_default = a"
  by (simp add: info_add_assign_def allocation_info_default_def)

lemma add_covers: "covers b b' \<Longrightarrow> covers (info_add_assign a b) (info_add_assign a b')"
  by (simp add: covers_def info_add_assign_def)

section \<open>Running a command\<close>

definition well_formed :: "counter \<Rightarrow> bool" where
  "well_formed c \<longleftrightarrow> length (stack_elements c) = MAX_DEPTH \<and> stack_depth c < MAX_DEPTH \<and>
     info_ok (stack_elements c ! stack_depth c)"

text \<open>
  After the commands: same depth and opt-out level, elements below untouched, the top element
  covers the reference when counting and is unchanged when opted out.
\<close>

definition runs_to :: "event list \<Rightarrow> counter \<Rightarrow> counter \<Rightarrow> bool" where
  "runs_to es c c' \<longleftrightarrow> well_formed c' \<and> stack_depth c' = stack_depth c \<and> do_count c' = do_count c \<and>
     (\<forall>i < stack_depth c. stack_elements c' ! i = stack_elements c ! i) \<and>
     (if do_count c = 0
      then covers (stack_elements c' ! stack_depth c) (flat_info es (stack_elements c ! stack_depth c))
      else stack_elements c' ! stack_depth c = stack_elements c ! stack_depth c)"

lemma runs_to_trans:
  assumes "runs_to es c c1" and "runs_to fs c1 c2"
  shows "runs_to (es @ fs) c c2"
  using assms covers_flat covers_trans unfolding runs_to_def by (auto split: if_splits)

lemma on_top_runs:
  assumes "well_formed c" and "do_count c = 0"
  shows "runs_to [e] c (on_top (event_info e) c)"
  using assms by (auto simp: runs_to_def well_formed_def on_top_def info_ok_event)

lemma process_runs [simp]:
  "runs_to es c (c'\<lparr>process_count := x, process_bytes := y\<rparr>) = runs_to es c c'"
  "runs_to es (c\<lparr>process_count := x, process_bytes := y\<rparr>) c' = runs_to es c c'"
  by (simp_all add: runs_to_def well_formed_def)

lemma run_correct:
  "well_formed c \<Longrightarrow> stack_depth c + depth_of p < MAX_DEPTH \<Longrightarrow> \<exists>c'. run_cmd p c = Some c' \<and> runs_to (counted p) c c'"
  "well_formed c \<Longrightarrow> stack_depth c + depths ps < MAX_DEPTH \<Longrightarrow> \<exists>c'. run_cmds ps c = Some c' \<and> runs_to (counteds ps) c c'"
proof (induction p c and ps c rule: run_cmd_run_cmds.induct)
  case (1 n c)
  let ?c = "c\<lparr>process_count := process_count c + 1, process_bytes := process_bytes c + n\<rparr>"
  have "well_formed ?c" using 1 by (simp add: well_formed_def)
  then show ?case using 1 on_top_runs [of ?c "EAlloc n"]
    by (auto simp: alloc_def Let_def) (auto simp: runs_to_def)
next
  case (2 n c)
  then show ?case using on_top_runs [of c "EDealloc n"]
    by (auto simp: dealloc_def) (auto simp: runs_to_def)
next
  case (3 ps c)
  let ?d = "stack_depth c" and ?top = "stack_elements c ! stack_depth c"
  let ?c1 = "c\<lparr>stack_depth := ?d + 1, stack_elements := (stack_elements c)[?d + 1 := allocation_info_default]\<rparr>"
  have push: "measure_push c = Some ?c1" using 3(3) by (simp add: measure_push_def Let_def)
  have wf1: "well_formed ?c1" using 3(2,3) by (simp add: well_formed_def)
  obtain c2 where c2: "run_cmds ps ?c1 = Some c2" "runs_to (counteds ps) ?c1 c2"
    using 3(1) [OF push wf1] 3(3) by auto
  have e2: "stack_depth c2 = ?d + 1" "do_count c2 = do_count c" "\<forall>i \<le> ?d. stack_elements c2 ! i = stack_elements c ! i"
    "length (stack_elements c2) = MAX_DEPTH" "info_ok (stack_elements c2 ! (?d + 1))"
    using c2(2) 3(3) by (auto simp: runs_to_def well_formed_def nth_list_update)
  have top1: "stack_elements ?c1 ! (?d + 1) = allocation_info_default"
    using 3(2,3) by (simp add: well_formed_def)
  have cov: "covers (info_add_assign ?top (stack_elements c2 ! (?d + 1))) (flat_info (counteds ps) ?top)" if "do_count c = 0"
  proof -
    have "covers (stack_elements c2 ! (?d + 1)) (flat_info (counteds ps) allocation_info_default)"
      using c2(2) that top1 by (simp add: runs_to_def)
    then have "covers (info_add_assign ?top (stack_elements c2 ! (?d + 1)))
        (info_add_assign ?top (flat_info (counteds ps) allocation_info_default))" by (rule add_covers)
    moreover have "covers (info_add_assign ?top (flat_info (counteds ps) allocation_info_default))
        (flat_info (counteds ps) (info_add_assign ?top allocation_info_default))"
      using 3(2) by (intro add_flat) (simp add: well_formed_def)
    ultimately show ?thesis using covers_trans by fastforce
  qed
  have same: "stack_elements c2 ! (?d + 1) = allocation_info_default" if "do_count c \<noteq> 0"
    using c2(2) that top1 by (simp add: runs_to_def)
  have "runs_to (counteds ps) c (snd (measure_pop c2))"
    using e2 3(2) cov same info_ok_add [of ?top "stack_elements c2 ! (?d + 1)"]
    by (auto simp: runs_to_def well_formed_def measure_pop_def Let_def nth_list_update)
  then show ?case using push c2(1) by simp
next
  case (4 ps c)
  let ?c = "c\<lparr>do_count := do_count c + 1\<rparr>"
  have wf: "well_formed ?c" using 4(2) by (simp add: well_formed_def)
  obtain c1 where c1: "run_cmds ps ?c = Some c1" "runs_to (counteds ps) ?c c1"
    using 4(1) [OF wf] 4(3) by auto
  then show ?case by (auto simp: runs_to_def well_formed_def)
next
  case (5 c)
  then show ?case by (auto simp: runs_to_def)
next
  case (6 p ps c)
  have d: "stack_depth c + depth_of p < MAX_DEPTH" "stack_depth c + depths ps < MAX_DEPTH" using 6(4) by simp_all
  obtain c1 where c1: "run_cmd p c = Some c1" "runs_to (counted p) c c1" using 6(1) [OF 6(3) d(1)] by blast
  then have "well_formed c1" "stack_depth c1 = stack_depth c" by (simp_all add: runs_to_def)
  then obtain c2 where "run_cmds ps c1 = Some c2" "runs_to (counteds ps) c1 c2" using 6(2) [OF c1(1)] d(2) by auto
  then show ?case using c1 runs_to_trans by fastforce
qed

section \<open>Properties\<close>


lemma counter_init_ok: "well_formed counter_init" "do_count counter_init = 0"
  by (simp_all add: well_formed_def counter_init_def MAX_DEPTH_def)

definition demo_cmds :: "cmd list" where
  "demo_cmds = [CAlloc 8, CMeasure [CAlloc 100, CDealloc 100], COptOut [CAlloc 7], CDealloc 8]"



end
