(* ===== verification/Tree_Math.thy ===== *)
theory Tree_Math
  imports Prelude
begin

text \<open>
  Index arithmetic of the ratchet tree of OpenMLS
  (\<^verbatim>\<open>openmls-main/openmls/src/binary_tree/array_representation/treemath.rs\<close>). Indices are 32-bit words, and
  arithmetic and shifts wrap as in a release build (a shift amount is taken modulo 32). The loops that end only for
  some inputs (\<^verbatim>\<open>level\<close>, \<^verbatim>\<open>direct_path\<close>) are partial functions: \<open>None\<close> is a loop that never
  returns. The theorems compare the bit manipulations with the complete binary tree in which node \<open>j\<close>
  of level \<open>k\<close> covers the leaves from \<open>j * 2 ^ k\<close> up to \<open>(j + 1) * 2 ^ k\<close>.
\<close>

unbundle bit_operations_syntax

section \<open>Indices\<close>

definition MAX_TREE_SIZE :: u32 where
  "MAX_TREE_SIZE = push_bit 30 1"

datatype LeafNodeIndex = LeafNodeIndex u32

datatype ParentNodeIndex = ParentNodeIndex u32

datatype TreeNodeIndex = Leaf LeafNodeIndex | Parent ParentNodeIndex

datatype TreeSize = TreeSize u32

definition shl :: "u32 \<Rightarrow> nat \<Rightarrow> u32" where
  "shl x k = push_bit (k mod 32) x"

definition shr :: "u32 \<Rightarrow> nat \<Rightarrow> u32" where
  "shr x k = drop_bit (k mod 32) x"

fun leaf_to_tree_index :: "LeafNodeIndex \<Rightarrow> u32" where
  "leaf_to_tree_index (LeafNodeIndex i) = i * 2"

definition leaf_from_tree_index :: "u32 \<Rightarrow> LeafNodeIndex" where
  "leaf_from_tree_index node_index = LeafNodeIndex (node_index div 2)"

fun parent_to_tree_index :: "ParentNodeIndex \<Rightarrow> u32" where
  "parent_to_tree_index (ParentNodeIndex i) = i * 2 + 1"

definition parent_from_tree_index :: "u32 \<Rightarrow> ParentNodeIndex" where
  "parent_from_tree_index node_index = ParentNodeIndex ((node_index - 1) div 2)"

definition tree_node_index_new :: "u32 \<Rightarrow> TreeNodeIndex" where
  "tree_node_index_new index =
     (if index mod 2 = 0 then Leaf (leaf_from_tree_index index) else Parent (parent_from_tree_index index))"

fun tree_node_u32 :: "TreeNodeIndex \<Rightarrow> u32" where
  "tree_node_u32 (Leaf index) = leaf_to_tree_index index"
| "tree_node_u32 (Parent index) = parent_to_tree_index index"

fun tree_size_u32 :: "TreeSize \<Rightarrow> u32" where
  "tree_size_u32 (TreeSize n) = n"

definition leading_zeros :: "u32 \<Rightarrow> nat" where
  "leading_zeros x = length (takeWhile (\<lambda>n. \<not> bit x n) (rev [0..<32]))"

definition log2 :: "u32 \<Rightarrow> nat" where
  "log2 x = (if x = 0 then 0 else 31 - leading_zeros x)"

definition tree_size_new :: "u32 \<Rightarrow> TreeSize" where
  "tree_size_new nodes = (let k = log2 nodes in TreeSize (shl 1 (k + 1) - 1))"

definition leaf_count :: "TreeSize \<Rightarrow> u32" where
  "leaf_count sz = tree_size_u32 sz div 2 + 1"

definition parent_count :: "TreeSize \<Rightarrow> u32" where
  "parent_count sz = tree_size_u32 sz div 2"

fun leaf_is_left :: "TreeSize \<Rightarrow> LeafNodeIndex \<Rightarrow> bool" where
  "leaf_is_left sz (LeafNodeIndex i) = (i < leaf_count sz div 2)"

fun tree_size_inc :: "TreeSize \<Rightarrow> TreeSize" where
  "tree_size_inc (TreeSize n) = TreeSize (n * 2 + 1)"

fun tree_size_dec :: "TreeSize \<Rightarrow> TreeSize" where
  "tree_size_dec (TreeSize n) =
     TreeSize (if 2 \<le> n then (n div 2 + (if n mod 2 = 0 then 0 else 1)) - 1 else 0)"

section \<open>Navigation\<close>

partial_function (option) level_loop :: "u32 \<Rightarrow> nat \<Rightarrow> nat option" where
  "level_loop x k = (if shr x k AND 1 = 1 then level_loop x (k + 1) else Some k)"

definition level :: "u32 \<Rightarrow> nat option" where
  "level index = (if index AND 1 = 0 then Some 0 else level_loop index 0)"

definition root :: "TreeSize \<Rightarrow> TreeNodeIndex" where
  "root sz = tree_node_index_new (shl 1 (log2 (tree_size_u32 sz)) - 1)"

definition left :: "ParentNodeIndex \<Rightarrow> TreeNodeIndex option" where
  "left index =
     (let x = parent_to_tree_index index
      in map_option (\<lambda>k. tree_node_index_new (x XOR shl 1 (k - 1))) (level x))"

definition right :: "ParentNodeIndex \<Rightarrow> TreeNodeIndex option" where
  "right index =
     (let x = parent_to_tree_index index
      in map_option (\<lambda>k. tree_node_index_new (x XOR shl 3 (k - 1))) (level x))"

definition parent :: "TreeNodeIndex \<Rightarrow> ParentNodeIndex option" where
  "parent index =
     (let x = tree_node_u32 index
      in map_option (\<lambda>k. let b = shr x (k + 1) AND 1
                         in parent_from_tree_index ((x OR shl 1 k) XOR shl b (k + 1))) (level x))"

definition sibling :: "TreeNodeIndex \<Rightarrow> TreeNodeIndex option" where
  "sibling index =
     Option.bind (parent index)
       (\<lambda>p. if tree_node_u32 index < parent_to_tree_index p then right p else left p)"

partial_function (option) direct_path_loop :: "u32 \<Rightarrow> u32 \<Rightarrow> ParentNodeIndex list \<Rightarrow> ParentNodeIndex list option" where
  "direct_path_loop r x d =
     (if x = r then Some d
      else Option.bind (parent (tree_node_index_new x))
             (\<lambda>p. direct_path_loop r (parent_to_tree_index p) (d @ [p])))"

definition direct_path :: "LeafNodeIndex \<Rightarrow> TreeSize \<Rightarrow> ParentNodeIndex list option" where
  "direct_path node_index sz =
     direct_path_loop (tree_node_u32 (root sz)) (leaf_to_tree_index node_index) []"

fun all_some :: "'a option list \<Rightarrow> 'a list option" where
  "all_some [] = Some []"
| "all_some (x # xs) = Option.bind x (\<lambda>a. map_option (\<lambda>as. a # as) (all_some xs))"

definition copath :: "LeafNodeIndex \<Rightarrow> TreeSize \<Rightarrow> TreeNodeIndex list option" where
  "copath leaf_index sz =
     Option.bind (direct_path leaf_index sz)
       (\<lambda>path. let path' = (if path \<noteq> [] then butlast path else path);
                    full_path = Leaf leaf_index # map Parent path'
                in all_some (map sibling full_path))"

function lca_loop :: "u32 \<Rightarrow> u32 \<Rightarrow> nat \<Rightarrow> u32 \<times> nat" where
  "lca_loop xn yn k = (if xn \<noteq> yn then lca_loop (shr xn 1) (shr yn 1) (k + 1) else (xn, k))"
  by auto

lemma shr_one_less: "unat (shr x 1) \<le> unat x" "x \<noteq> 0 \<Longrightarrow> unat (shr x 1) < unat x"
proof -
  have "unat (drop_bit 1 x) = drop_bit 1 (unat x)" by (rule unat_drop_bit_eq)
  then have s: "unat (shr x 1) = unat x div 2"
    unfolding shr_def by (simp add: drop_bit_eq_div [where 'a = nat] del: One_nat_def)
  show "unat (shr x 1) \<le> unat x" unfolding s by simp
  assume "x \<noteq> 0"
  then have "0 < unat x" using unat_eq_zero by blast
  then show "unat (shr x 1) < unat x" unfolding s by simp
qed

termination lca_loop
proof (relation "measure (\<lambda>(xn, yn, k). unat xn + unat yn)")
  fix xn yn :: u32 and k
  assume ne: "xn \<noteq> yn"
  show "((shr xn 1, shr yn 1, k + 1), xn, yn, k) \<in> measure (\<lambda>(xn, yn, k). unat xn + unat yn)"
  proof (cases "xn = 0")
    case True
    then show ?thesis using ne shr_one_less(1) [of xn] shr_one_less(2) [of yn] by simp
  next
    case False
    then show ?thesis using shr_one_less(2) [of xn] shr_one_less(1) [of yn] by simp
  qed
qed simp

declare lca_loop.simps [simp del]

definition lowest_common_ancestor :: "LeafNodeIndex \<Rightarrow> LeafNodeIndex \<Rightarrow> ParentNodeIndex option" where
  "lowest_common_ancestor xi yi =
     (let x = leaf_to_tree_index xi; y = leaf_to_tree_index yi
      in case (level x, level y) of
           (Some kx, Some ky) \<Rightarrow>
             (let lx = kx + 1; ly = ky + 1
              in if lx \<le> ly \<and> shr x ly = shr y ly then Some (parent_from_tree_index y)
                 else if ly \<le> lx \<and> shr x lx = shr y lx then Some (parent_from_tree_index x)
                 else case lca_loop x y 0 of
                        (xn, k) \<Rightarrow> Some (parent_from_tree_index (shl xn k + shl 1 (k - 1) - 1)))
         | _ \<Rightarrow> None)"

text \<open>\<^verbatim>\<open>subtree_root_copath_node\<close> of \<^verbatim>\<open>diff.rs\<close>.\<close>

fun leaf_less :: "LeafNodeIndex \<Rightarrow> LeafNodeIndex \<Rightarrow> bool" where
  "leaf_less (LeafNodeIndex a) (LeafNodeIndex b) = (a < b)"

definition subtree_root_copath_node :: "LeafNodeIndex \<Rightarrow> LeafNodeIndex \<Rightarrow> TreeNodeIndex option" where
  "subtree_root_copath_node leaf_index_1 leaf_index_2 =
     Option.bind (lowest_common_ancestor leaf_index_1 leaf_index_2)
       (\<lambda>p. if leaf_less leaf_index_2 leaf_index_1 then left p else right p)"

fun common_prefix :: "'a list \<Rightarrow> 'a list \<Rightarrow> 'a list" where
  "common_prefix (x # xs) (y # ys) = (if x = y then x # common_prefix xs ys else [])"
| "common_prefix _ _ = []"

definition common_direct_path :: "LeafNodeIndex \<Rightarrow> LeafNodeIndex \<Rightarrow> TreeSize \<Rightarrow> ParentNodeIndex list option" where
  "common_direct_path x y sz =
     Option.bind (direct_path x sz)
       (\<lambda>x_path. map_option (\<lambda>y_path. rev (common_prefix (rev x_path) (rev y_path))) (direct_path y sz))"

definition is_node_in_tree :: "TreeNodeIndex \<Rightarrow> TreeSize \<Rightarrow> bool" where
  "is_node_in_tree node_index sz = (tree_node_u32 node_index < tree_size_u32 sz)"

section \<open>The complete binary tree\<close>

text \<open>Node \<open>j\<close> of level \<open>k\<close>, as a number and as an index.\<close>

definition node_at :: "nat \<Rightarrow> nat \<Rightarrow> nat" where
  "node_at k j = push_bit (k + 1) j + mask k"

abbreviation nodew :: "nat \<Rightarrow> nat \<Rightarrow> u32" where
  "nodew k j \<equiv> of_nat (node_at k j)"

definition tree_node :: "nat \<Rightarrow> nat \<Rightarrow> TreeNodeIndex" where
  "tree_node k j = tree_node_index_new (nodew k j)"

definition parent_node :: "nat \<Rightarrow> nat \<Rightarrow> ParentNodeIndex" where
  "parent_node k j = parent_from_tree_index (nodew k j)"

lemma bit_node_at: "bit (node_at k j) n \<longleftrightarrow> n < k \<or> k < n \<and> bit j (n - (k + 1))"
proof -
  have p: "bit (push_bit (k + 1) j) n \<longleftrightarrow> k < n \<and> bit j (n - (k + 1))" for n
    by (auto simp only: bit_push_bit_iff possible_bit_nat)
  have "bit (push_bit (k + 1) j + mask k) n \<longleftrightarrow> bit (push_bit (k + 1) j) n \<or> bit (mask k :: nat) n"
    by (rule bit_disjunctive_add_iff) (auto simp only: p bit_mask_iff)
  then show ?thesis unfolding node_at_def p by (auto simp: bit_mask_iff)
qed

lemma bit_nodew: "bit (nodew k j) n \<longleftrightarrow> n < 32 \<and> (n < k \<or> k < n \<and> bit j (n - (k + 1)))"
  by (simp add: bit_of_nat_iff bit_node_at)

lemma node_at_value: "node_at k j = 2 ^ (k + 1) * j + (2 ^ k - 1)"
  by (simp only: node_at_def push_bit_eq_mult mask_eq_exp_minus_1 mult.commute)

lemma bit_shl: "k < 32 \<Longrightarrow> bit (shl x k) n \<longleftrightarrow> k \<le> n \<and> n < 32 \<and> bit x (n - k)"
  by (auto simp: shl_def bit_push_bit_iff)

lemma bit_shl1: "k < 32 \<Longrightarrow> bit (shl 1 k) n \<longleftrightarrow> n = k"
  by (auto simp: bit_shl bit_1_iff)

lemma bit_shl3: "k < 31 \<Longrightarrow> bit (shl 3 k) n \<longleftrightarrow> n = k \<or> n = Suc k"
proof -
  assume k: "k < 31"
  have "shl 3 k = shl 1 k OR shl 1 (Suc k)"
  proof -
    have "(3 :: u32) = 1 OR push_bit 1 1" by simp
    then show ?thesis using k by (simp only: shl_def mod_less push_bit_or push_bit_push_bit) simp
  qed
  then show ?thesis using k by (simp add: bit_or_iff bit_shl1)
qed

lemma bit_numbers:
  "bit (2 * j :: nat) n \<longleftrightarrow> 0 < n \<and> bit j (n - 1)"
  "bit (Suc (2 * j)) n \<longleftrightarrow> n = 0 \<or> bit j (n - 1)"
  "bit (j div 2 :: nat) n \<longleftrightarrow> bit j (Suc n)"
  by (cases n; auto simp: bit_0 bit_Suc)+

lemma test_bit: "k < 32 \<Longrightarrow> shr x k AND 1 = 1 \<longleftrightarrow> bit x k"
  by (simp add: shr_def and_one_eq bit_iff_odd_drop_bit odd_iff_mod_2_eq_one)


lemma level_loop_node:
  assumes "i \<le> k" and "k < 32"
  shows "level_loop (nodew k j) i = Some k"
  using assms(1)
proof (induction rule: inc_induct)
  case base
  have "\<not> shr (nodew k j) k AND 1 = 1" using assms(2) by (simp add: test_bit bit_nodew)
  then show ?case by (subst level_loop.simps) simp
next
  case (step n)
  have "shr (nodew k j) n AND 1 = 1" using assms(2) step.hyps by (simp add: test_bit bit_nodew)
  then show ?case using step.IH by (subst level_loop.simps) simp
qed

lemma mod2_bit: "x mod 2 = (if bit x 0 then 1 else 0 :: u32)"
  by (simp add: bit_0 mod_2_eq_odd)

lemma nodew_mod2: "nodew k j mod 2 = (if k = 0 then 0 else 1)"
proof -
  have "bit (nodew k j) 0 \<longleftrightarrow> k \<noteq> 0" unfolding bit_nodew by simp
  then show ?thesis unfolding mod2_bit by simp
qed

lemma level_node:
  assumes "k < 32"
  shows "level (nodew k j) = Some k"
  using level_loop_node [OF _ assms, of 0 j] by (simp add: level_def and_one_eq nodew_mod2)

lemma odd_pred: "x mod 2 = 1 \<Longrightarrow> ((x :: u32) - 1) div 2 = x div 2"
proof -
  assume x: "x mod 2 = 1"
  then have "x \<noteq> 0" by auto
  then have p: "unat (x - 1) = unat x - 1" by (rule unat_minus_one)
  have "unat (x mod 2) = unat x mod 2" by (simp add: unat_mod_distrib)
  then have "unat x mod 2 = 1" using x by simp
  then have "(unat x - 1) div 2 = unat x div 2" by presburger
  then show ?thesis using p by (simp add: word_unat_eq_iff unat_div_distrib)
qed

lemma parent_index_inverse: "x mod 2 = 1 \<Longrightarrow> parent_to_tree_index (parent_from_tree_index x) = x"
  using div_mult_mod_eq [of x 2] by (simp add: parent_from_tree_index_def odd_pred)

lemma tree_node_inverse: "tree_node_u32 (tree_node_index_new x) = x"
proof (cases "x mod 2 = 0")
  case True
  then show ?thesis using div_mult_mod_eq [of x 2] by (simp add: tree_node_index_new_def leaf_from_tree_index_def)
next
  case False
  then have "x mod 2 = 1" using mod2_bit [of x] by (simp split: if_splits)
  then show ?thesis by (simp add: tree_node_index_new_def parent_index_inverse)
qed

lemma nodew_odd: "nodew (Suc k) j mod 2 = 1"
  by (simp add: nodew_mod2)

lemma tree_node_Suc: "tree_node (Suc k) j = Parent (parent_node (Suc k) j)"
  using nodew_odd [of k j] by (simp add: tree_node_def parent_node_def tree_node_index_new_def)

lemma parent_tree_node:
  assumes "k < 31"
  shows "parent (tree_node k j) = Some (parent_node (Suc k) (j div 2))"
proof -
  define b where "b = shr (nodew k j) (k + 1) AND 1"
  have b: "bit b m \<longleftrightarrow> m = 0 \<and> bit (nodew k j) (Suc k)" for m
    using assms by (auto simp: b_def shr_def bit_and_iff bit_drop_bit_eq bit_1_iff)
  have sb: "bit (shl b (Suc k)) m \<longleftrightarrow> m = Suc k \<and> bit j 0" for m
    using assms by (auto simp: bit_shl b bit_nodew)
  have "(nodew k j OR shl 1 k) XOR shl b (k + 1) = nodew (Suc k) (j div 2)"
  proof (rule bit_eqI)
    fix n assume "possible_bit TYPE(32 word) n"
    then have n: "n < 32" by simp
    consider "n < k" | "n = k" | "n = Suc k" | "Suc k < n" by linarith
    then show "bit ((nodew k j OR shl 1 k) XOR shl b (k + 1)) n \<longleftrightarrow> bit (nodew (Suc k) (j div 2)) n"
    proof cases
      case 4
      then have "Suc (n - Suc (Suc k)) = n - Suc k" by simp
      then show ?thesis using assms n 4 by (simp add: bit_xor_iff bit_or_iff bit_shl1 sb bit_nodew bit_numbers)
    qed (use assms n in \<open>simp_all add: bit_xor_iff bit_or_iff bit_shl1 sb bit_nodew bit_numbers\<close>)
  qed

  then show ?thesis
    using assms by (simp add: parent_def tree_node_def tree_node_inverse level_node parent_node_def b_def Let_def)
qed

lemma left_parent_node:
  assumes "k < 31"
  shows "left (parent_node (Suc k) j) = Some (tree_node k (2 * j))"
proof -
  have "nodew (Suc k) j XOR shl 1 k = nodew k (2 * j)"
  proof (rule bit_eqI)
    fix n assume "possible_bit TYPE(32 word) n"
    then have n: "n < 32" by simp
    consider "n < k" | "n = k" | "n = Suc k" | "Suc k < n" by linarith
    then show "bit (nodew (Suc k) j XOR shl 1 k) n \<longleftrightarrow> bit (nodew k (2 * j)) n"
      by cases (use assms n in \<open>simp_all add: bit_xor_iff bit_shl1 bit_nodew bit_numbers\<close>)
  qed
  then show ?thesis
    using assms by (simp add: left_def parent_node_def parent_index_inverse nodew_odd level_node tree_node_def Let_def)
qed

lemma right_parent_node:
  assumes "k < 31"
  shows "right (parent_node (Suc k) j) = Some (tree_node k (2 * j + 1))"
proof -
  have "nodew (Suc k) j XOR shl 3 k = nodew k (2 * j + 1)"
  proof (rule bit_eqI)
    fix n assume "possible_bit TYPE(32 word) n"
    then have n: "n < 32" by simp
    consider "n < k" | "n = k" | "n = Suc k" | "Suc k < n" by linarith
    then show "bit (nodew (Suc k) j XOR shl 3 k) n \<longleftrightarrow> bit (nodew k (2 * j + 1)) n"
      by cases (use assms n in \<open>simp_all add: bit_xor_iff bit_shl3 bit_nodew bit_numbers\<close>)
  qed
  then show ?thesis
    using assms by (simp add: right_def parent_node_def parent_index_inverse nodew_odd level_node tree_node_def Let_def)
qed

subsection \<open>Sizes and bounds\<close>

definition in_tree :: "nat \<Rightarrow> nat \<Rightarrow> nat \<Rightarrow> bool" where
  "in_tree h k j \<longleftrightarrow> k \<le> h \<and> j < 2 ^ (h - k)"

definition size_of :: "nat \<Rightarrow> TreeSize" where
  "size_of h = TreeSize (of_nat (2 ^ (h + 1) - 1))"

lemma node_at_bound:
  assumes "in_tree h k j"
  shows "node_at k j < 2 ^ (h + 1) - 1"
proof -
  have "j + 1 \<le> 2 ^ (h - k)" using assms by (simp add: in_tree_def)
  then have "2 ^ (k + 1) * (j + 1) \<le> 2 ^ (k + 1) * 2 ^ (h - k)" by (rule mult_le_mono2)
  also have "\<dots> = (2 :: nat) ^ (h + 1)"
    using assms by (simp add: in_tree_def flip: power_add)
  finally have b: "2 ^ (k + 1) * j + 2 ^ (k + 1) \<le> (2 :: nat) ^ (h + 1)" by simp
  define p q H :: nat where "p = 2 ^ k" and "q = 2 ^ (k + 1) * j" and "H = 2 ^ (h + 1)"
  have "1 \<le> p" and "q + 2 * p \<le> H" using b by (simp_all add: p_def q_def H_def)
  then have "q + (p - 1) < H - 1" by linarith
  then show ?thesis by (simp only: node_at_value p_def q_def H_def)
qed

lemma pow_bound: "h \<le> 30 \<Longrightarrow> (2 :: nat) ^ (h + 1) \<le> 2 ^ 31"
  by (rule power_increasing) auto

lemma unat_nodew:
  assumes "in_tree h k j" and "h \<le> 30"
  shows "unat (nodew k j) = node_at k j"
proof -
  have "node_at k j < 2 ^ 32" using node_at_bound [OF assms(1)] pow_bound [OF assms(2)] by simp
  then show ?thesis by (simp add: unat_of_nat take_bit_nat_eq_self)
qed

lemma in_tree_parent: "in_tree h k j \<Longrightarrow> k < h \<Longrightarrow> in_tree h (Suc k) (j div 2)"
proof -
  assume a: "in_tree h k j" "k < h"
  then have "h - k = Suc (h - Suc k)" by simp
  then have "j < 2 * 2 ^ (h - Suc k)" using a(1) by (simp add: in_tree_def)
  then show ?thesis using a(2) by (simp add: in_tree_def)
qed

lemma in_tree_leaf: "l < 2 ^ h \<Longrightarrow> k \<le> h \<Longrightarrow> in_tree h k (l div 2 ^ k)"
proof -
  assume a: "l < 2 ^ h" "k \<le> h"
  then have "l < 2 ^ (h - k) * 2 ^ k" by (simp flip: power_add)
  then show ?thesis using a(2) by (simp add: in_tree_def less_mult_imp_div_less)
qed

lemma nodew_inj:
  assumes "in_tree h k j" "in_tree h k' j'" "h \<le> 30" "nodew k j = nodew k' j'"
  shows "k = k' \<and> j = j'"
proof -
  have "k < 32" "k' < 32" using assms(1-3) by (auto simp: in_tree_def)
  then have k: "k = k'" using level_node [of k j] level_node [of k' j'] assms(4) by simp
  have "node_at k j = node_at k' j'" using assms unat_nodew by metis
  then have "push_bit (k + 1) j = push_bit (k + 1) j'" using k unfolding node_at_def by simp
  then show ?thesis using k by (simp add: push_bit_eq_mult)
qed

lemma tree_node_inj:
  assumes "in_tree h k j" "in_tree h k' j'" "h \<le> 30" "tree_node k j = tree_node k' j'"
  shows "k = k' \<and> j = j'"
  using nodew_inj [OF assms(1-3)] assms(4) tree_node_inverse unfolding tree_node_def by metis

lemma log2_eq:
  assumes "2 ^ n \<le> unat x" and "unat x < 2 ^ Suc n"
  shows "log2 x = n"
proof -
  have "n < 32"
  proof (rule ccontr)
    assume "\<not> n < 32"
    then have "(2 :: nat) ^ 32 \<le> 2 ^ n" by (intro power_increasing) auto
    moreover have "unat x < 2 ^ 32" using unsigned_less [of x] by simp
    ultimately show False using assms(1) by simp
  qed
  have hi: "\<not> bit x m" if "n < m" for m
  proof -
    have "(2 :: nat) ^ Suc n \<le> 2 ^ m" using that by (intro power_increasing) auto
    then have "unat x div 2 ^ m = 0" using assms(2) by simp
    then have "\<not> bit (unat x) m" by (simp add: bit_iff_odd)
    then show ?thesis by (simp add: bit_unsigned_iff)
  qed
  have "unat x div 2 ^ n = 1"
    using assms by (intro div_nat_eqI) auto
  then have "bit (unat x) n" by (simp add: bit_iff_odd)
  then have n: "bit x n" by (simp add: bit_unsigned_iff)
  have "rev [0..<32] = rev [Suc n..<32] @ n # rev [0..<n]"
  proof -
    have "[0..<32] = [0..<n] @ n # [Suc n..<32]"
      using \<open>n < 32\<close> by (metis le0 less_imp_le upt_add_eq_append upt_conv_Cons le_add_diff_inverse)
    then show ?thesis by simp
  qed
  moreover have "takeWhile (\<lambda>m. \<not> bit x m) (rev [Suc n..<32] @ n # rev [0..<n]) = rev [Suc n..<32]"
    using n hi by (subst takeWhile_append2) auto
  ultimately have "takeWhile (\<lambda>m. \<not> bit x m) (rev [0..<32]) = rev [Suc n..<32]" by simp
  then have "leading_zeros x = 31 - n" by (simp add: leading_zeros_def)
  moreover have "x \<noteq> 0" using n by auto
  ultimately show ?thesis using \<open>n < 32\<close> by (simp add: log2_def)
qed

lemma shl_one: "n < 32 \<Longrightarrow> shl 1 n = of_nat (2 ^ n)"
  by (simp add: shl_def push_bit_eq_mult)

lemma size_of_u32: "h \<le> 30 \<Longrightarrow> unat (tree_size_u32 (size_of h)) = 2 ^ (h + 1) - 1"
proof -
  assume h: "h \<le> 30"
  have "(2 :: nat) ^ (h + 1) - 1 < 2 ^ 32" using pow_bound [OF h] by simp
  then show ?thesis by (simp only: size_of_def tree_size_u32.simps unat_of_nat take_bit_nat_eq_self len_of_numeral_defs) (simp add: take_bit_nat_eq_self)
qed


lemma size_pos: "(0 :: nat) < 2 ^ n" by simp

lemma root_size_of: "h \<le> 30 \<Longrightarrow> root (size_of h) = tree_node h 0"
proof -
  assume h: "h \<le> 30"
  have "log2 (tree_size_u32 (size_of h)) = h"
    by (rule log2_eq) (use size_of_u32 [OF h] in simp_all)
  moreover have "(of_nat (2 ^ h) - 1 :: u32) = nodew h 0"
    by (simp add: node_at_value of_nat_diff)
  ultimately show ?thesis using h by (simp add: root_def tree_node_def shl_one)
qed

lemma tree_size_new_height:
  assumes "2 ^ h \<le> unat nodes" and "unat nodes < 2 ^ (h + 1)" and "h \<le> 30"
  shows "tree_size_new nodes = size_of h"
proof -
  have "log2 nodes = h" using assms(1,2) by (intro log2_eq) simp_all
  then show ?thesis using assms(3) by (simp add: tree_size_new_def shl_one size_of_def of_nat_diff)
qed

lemma tree_size_inc_height: "tree_size_inc (size_of h) = size_of (Suc h)"
  by (simp add: size_of_def of_nat_diff algebra_simps)

lemma tree_size_dec_height:
  assumes "h \<le> 29"
  shows "tree_size_dec (size_of (Suc h)) = size_of h"
proof -
  define n where "n = tree_size_u32 (size_of (Suc h))"
  have u: "unat n = 2 ^ (h + 2) - 1" using assms size_of_u32 [of "Suc h"] by (simp add: n_def)
  define q :: nat where "q = 2 ^ (h + 1) - 1"
  have "(2 :: nat) ^ (h + 2) = 2 * 2 ^ (h + 1)" and "(1 :: nat) \<le> 2 ^ (h + 1)" by simp_all
  then have q: "unat n = 2 * q + 1" unfolding u q_def by linarith
  have "q = 2 * 2 ^ h - 1" by (simp add: q_def)
  moreover have "(1 :: nat) \<le> 2 ^ h" by simp
  ultimately have "1 \<le> q" by arith
  then have "2 \<le> n" using q by (simp add: word_le_nat_alt)
  moreover have "unat (n mod 2) = 1" using q by (simp add: unat_mod_distrib)
  then have "n mod 2 \<noteq> 0" using unat_0 by (metis zero_neq_one)
  moreover have "n div 2 = of_nat q"
  proof -
    have "unat (n div 2) = q" using q by (simp add: unat_div_distrib)
    moreover have "unat n < 2 ^ 32" using unsigned_less [of n] by simp
    ultimately show ?thesis using q by (simp add: word_unat_eq_iff unat_of_nat take_bit_nat_eq_self)
  qed
  ultimately show ?thesis
    unfolding n_def by (simp add: size_of_def q_def)
qed

lemma size_of_counts:
  assumes "h \<le> 30"
  shows "unat (leaf_count (size_of h)) = 2 ^ h" and "unat (parent_count (size_of h)) = 2 ^ h - 1"
proof -
  define n where "n = tree_size_u32 (size_of h)"
  have u: "unat n = 2 ^ (h + 1) - 1" using assms size_of_u32 [of h] by (simp add: n_def)
  have p: "unat (n div 2) = 2 ^ h - 1" using u by (simp add: unat_div_distrib)
  then show "unat (parent_count (size_of h)) = 2 ^ h - 1" by (simp add: parent_count_def n_def)
  have "(2 :: nat) ^ h < 2 ^ 32" using assms by (intro power_strict_increasing) auto
  then have "unat (n div 2 + 1) = 2 ^ h"
    using p by (subst unat_add_lem [THEN iffD1]) auto
  then show "unat (leaf_count (size_of h)) = 2 ^ h" by (simp add: leaf_count_def n_def)
qed

subsection \<open>Siblings and paths\<close>

definition sib :: "nat \<Rightarrow> nat" where
  "sib j = (if even j then j + 1 else j - 1)"

lemma sib_alt: "sib j = (if even j then 2 * (j div 2) + 1 else 2 * (j div 2))"
  by (auto simp: sib_def elim!: evenE oddE)

lemma node_before_parent: "node_at k j < node_at (Suc k) (j div 2) \<longleftrightarrow> even j"
proof -
  define p q :: nat where "p = 2 ^ k" and "q = 2 ^ (k + 2) * (j div 2)"
  have p: "1 \<le> p" by (simp add: p_def)
  have "node_at (Suc k) (j div 2) = q + (2 * p - 1)" by (simp add: node_at_value p_def q_def)
  moreover have "node_at k j = q + (if even j then p - 1 else 3 * p - 1)"
  proof (cases "even j")
    case True
    then obtain i where "j = 2 * i" by (elim evenE)
    then show ?thesis by (simp add: node_at_value p_def q_def)
  next
    case False
    then obtain i where "j = 2 * i + 1" by (elim oddE)
    then show ?thesis using p by (simp add: node_at_value p_def q_def algebra_simps)
  qed
  ultimately show ?thesis using p by auto
qed

lemma sibling_tree_node:
  assumes "in_tree h k j" and "k < h" and "h \<le> 30"
  shows "sibling (tree_node k j) = Some (tree_node k (sib j))"
proof -
  have k: "k < 31" using assms by simp
  have "tree_node_u32 (tree_node k j) < parent_to_tree_index (parent_node (Suc k) (j div 2)) \<longleftrightarrow> even j"
    using unat_nodew [OF assms(1,3)] unat_nodew [OF in_tree_parent [OF assms(1,2)] assms(3)] node_before_parent [of k j]
    by (simp add: tree_node_def tree_node_inverse parent_node_def parent_index_inverse nodew_odd word_less_nat_alt)
  then show ?thesis
    using parent_tree_node [OF k] left_parent_node [OF k] right_parent_node [OF k] by (simp add: sibling_def sib_alt)
qed

lemma direct_path_loop_node:
  assumes "k \<le> h" "j < 2 ^ (h - k)" "h \<le> 30"
  shows "direct_path_loop (nodew h 0) (nodew k j) d =
    Some (d @ map (\<lambda>i. parent_node i (j div 2 ^ (i - k))) [Suc k..<Suc h])"
  using assms(1,2)
proof (induction arbitrary: j d rule: inc_induct)
  case base
  then show ?case by (subst direct_path_loop.simps) simp
next
  case (step n)
  have t: "in_tree h n j" using step by (simp add: in_tree_def)
  then have t': "in_tree h (Suc n) (j div 2)" using step.hyps by (intro in_tree_parent) auto
  have ne: "nodew n j \<noteq> nodew h 0"
    using nodew_inj [OF t _ assms(3), of h 0] step.hyps by (auto simp: in_tree_def)
  have "map (\<lambda>i. parent_node i (j div 2 div 2 ^ (i - Suc n))) [Suc (Suc n)..<Suc h] =
      map (\<lambda>i. parent_node i (j div 2 ^ (i - n))) [Suc (Suc n)..<Suc h]"
  proof (rule map_cong [OF refl])
    fix i assume "i \<in> set [Suc (Suc n)..<Suc h]"
    then have "i - n = Suc (i - Suc n)" by auto
    then show "parent_node i (j div 2 div 2 ^ (i - Suc n)) = parent_node i (j div 2 ^ (i - n))"
      by (simp add: div_mult2_eq)
  qed
  moreover have "[Suc n..<Suc h] = Suc n # [Suc (Suc n)..<Suc h]" using step.hyps by (simp add: upt_conv_Cons)
  moreover have "direct_path_loop (nodew h 0) (nodew (Suc n) (j div 2)) (d @ [parent_node (Suc n) (j div 2)]) =
      Some ((d @ [parent_node (Suc n) (j div 2)]) @
        map (\<lambda>i. parent_node i (j div 2 div 2 ^ (i - Suc n))) [Suc (Suc n)..<Suc h])"
    using t' by (intro step.IH) (simp add: in_tree_def)
  moreover have "parent (tree_node_index_new (nodew n j)) = Some (parent_node (Suc n) (j div 2))"
    using parent_tree_node [of n j] step.hyps assms(3) by (simp add: tree_node_def)
  moreover have "parent_to_tree_index (parent_node (Suc n) (j div 2)) = nodew (Suc n) (j div 2)"
    by (simp add: parent_node_def parent_index_inverse nodew_odd)
  ultimately show ?case using ne by (subst direct_path_loop.simps) simp
qed

abbreviation leafi :: "nat \<Rightarrow> LeafNodeIndex" where
  "leafi l \<equiv> LeafNodeIndex (of_nat l)"

lemma leaf_nodew: "leaf_to_tree_index (leafi l) = nodew 0 l"
  by (simp add: node_at_value)

lemma direct_path_leaf:
  assumes "l < 2 ^ h" and "h \<le> 30"
  shows "direct_path (leafi l) (size_of h) = Some (map (\<lambda>k. parent_node k (l div 2 ^ k)) [1..<h + 1])"
  using direct_path_loop_node [of 0 h l "[]"] assms
  by (simp add: direct_path_def root_size_of tree_node_def tree_node_inverse leaf_nodew del: leaf_to_tree_index.simps)

lemma all_some_map: "(\<And>x. x \<in> set xs \<Longrightarrow> f x = Some (g x)) \<Longrightarrow> all_some (map f xs) = Some (map g xs)"
  by (induction xs) auto

lemma tree_node_zero: "l < 2 ^ 31 \<Longrightarrow> tree_node 0 l = Leaf (leafi l)"
proof -
  assume l: "l < 2 ^ 31"
  have "nodew 0 l mod 2 = 0" by (simp add: nodew_mod2)
  moreover have "nodew 0 l div 2 = of_nat l"
  proof -
    have u: "unat (nodew 0 l) = 2 * l"
      using l by (simp add: node_at_value unat_of_nat take_bit_nat_eq_self del: of_nat_mult)
    have "unat (nodew 0 l div 2) = l" using u by (simp add: unat_div_distrib)
    then show ?thesis using l by (simp add: word_unat_eq_iff unat_of_nat take_bit_nat_eq_self)
  qed
  ultimately show ?thesis by (simp add: tree_node_def tree_node_index_new_def leaf_from_tree_index_def)
qed

lemma copath_leaf:
  assumes "l < 2 ^ h" and "0 < h" and "h \<le> 30"
  shows "copath (leafi l) (size_of h) = Some (map (\<lambda>k. tree_node k (sib (l div 2 ^ k))) [0..<h])"
proof -
  have "(2 :: nat) ^ h < 2 ^ 31" using assms(3) by (intro power_strict_increasing) auto
  then have l: "l < 2 ^ 31" using assms(1) by simp
  obtain h' where h': "h = Suc h'" using assms(2) by (cases h) auto
  have "Leaf (leafi l) # map Parent (map (\<lambda>k. parent_node k (l div 2 ^ k)) [1..<h]) =
      map (\<lambda>k. tree_node k (l div 2 ^ k)) [0..<h]"
  proof -
    have "map Parent (map (\<lambda>k. parent_node k (l div 2 ^ k)) [1..<h]) = map (\<lambda>k. tree_node k (l div 2 ^ k)) [1..<h]"
    proof -
      have "tree_node k j = Parent (parent_node k j)" if "1 \<le> k" for k j
        using that tree_node_Suc [of "k - 1" j] by simp
      then show ?thesis by simp
    qed
    moreover have "[0..<h] = 0 # [1..<h]" using assms(2) by (simp add: upt_conv_Cons)
    ultimately show ?thesis using tree_node_zero [OF l] by simp
  qed
  moreover have "all_some (map sibling (map (\<lambda>k. tree_node k (l div 2 ^ k)) [0..<h])) =
      Some (map (\<lambda>k. tree_node k (sib (l div 2 ^ k))) [0..<h])"
    unfolding map_map
    by (rule all_some_map) (use assms in_tree_leaf [OF assms(1)] in \<open>auto intro!: sibling_tree_node\<close>)
  moreover have "butlast (map (\<lambda>k. parent_node k (l div 2 ^ k)) [1..<h + 1]) =
      map (\<lambda>k. parent_node k (l div 2 ^ k)) [1..<h]"
    using assms(2) by (simp flip: map_butlast)
  moreover have "map (\<lambda>k. parent_node k (l div 2 ^ k)) [1..<h + 1] \<noteq> []" using assms(2) by simp
  ultimately show ?thesis
    unfolding copath_def direct_path_leaf [OF assms(1,3)] Let_def by (simp del: upt_Suc map_map all_some.simps list.map)
qed

subsection \<open>Where two leaves meet\<close>

text \<open>The lowest level at which two leaves have the same ancestor.\<close>

definition meet :: "nat \<Rightarrow> nat \<Rightarrow> nat" where
  "meet x y = (LEAST k. x div 2 ^ k = y div 2 ^ k)"

lemma agree_mono: "x div 2 ^ k = y div 2 ^ k \<Longrightarrow> k \<le> m \<Longrightarrow> x div 2 ^ m = (y :: nat) div 2 ^ m"
proof -
  assume a: "x div 2 ^ k = y div 2 ^ k" "k \<le> m"
  have "z div 2 ^ m = z div 2 ^ k div 2 ^ (m - k)" for z :: nat
    using a(2) by (simp flip: div_mult2_eq power_add)
  then show ?thesis using a(1) by simp
qed

lemma agree_iff:
  assumes "x < 2 ^ h" and "y < 2 ^ h"
  shows "x div 2 ^ m = y div 2 ^ m \<longleftrightarrow> meet x y \<le> m"
proof -
  have "x div 2 ^ h = y div 2 ^ h" using assms by simp
  then have "x div 2 ^ meet x y = y div 2 ^ meet x y" unfolding meet_def by (rule LeastI)
  then show ?thesis using agree_mono [of x "meet x y" y m] Least_le [of "\<lambda>k. x div 2 ^ k = y div 2 ^ k" m]
    by (auto simp: meet_def)
qed

lemma meet_bounds:
  assumes "x < 2 ^ h" and "y < 2 ^ h" and "x \<noteq> y"
  shows "0 < meet x y" and "meet x y \<le> h"
  using agree_iff [OF assms(1,2), of 0] agree_iff [OF assms(1,2), of h] assms by simp_all

lemma sib_div: "a \<noteq> b \<Longrightarrow> a div 2 = b div 2 \<longleftrightarrow> a = sib b"
  by (auto simp: sib_alt elim!: evenE oddE)

lemma sib_meets:
  assumes "x < 2 ^ h" and "y < 2 ^ h"
  shows "y div 2 ^ k = sib (x div 2 ^ k) \<longleftrightarrow> meet x y = Suc k"
proof -
  have half: "z div 2 ^ Suc k = z div 2 ^ k div 2" for z :: nat by (simp add: div_mult2_eq [symmetric] mult.commute)
  have sib: "sib b \<noteq> b" "sib b div 2 = b div 2" for b by (auto simp: sib_def elim!: evenE oddE)
  have k: "x div 2 ^ k = y div 2 ^ k \<longleftrightarrow> meet x y \<le> k" and
    Sk: "x div 2 ^ k div 2 = y div 2 ^ k div 2 \<longleftrightarrow> meet x y \<le> Suc k"
    using agree_iff [OF assms, of k] agree_iff [OF assms, of "Suc k"] by (simp_all only: half)
  show ?thesis
  proof
    assume "y div 2 ^ k = sib (x div 2 ^ k)"
    then show "meet x y = Suc k" using k Sk sib by (metis le_SucE)
  next
    assume "meet x y = Suc k"
    then have "x div 2 ^ k \<noteq> y div 2 ^ k" "x div 2 ^ k div 2 = y div 2 ^ k div 2" using k Sk by simp_all
    then show "y div 2 ^ k = sib (x div 2 ^ k)" using sib_div by metis
  qed
qed


text \<open>A leaf and its direct path, as nodes of the tree.\<close>

lemma path_nodes:
  assumes "m < 2 ^ h" and "h \<le> 30"
  shows "Leaf (leafi m) # map Parent (map (\<lambda>k. parent_node k (m div 2 ^ k)) [1..<h + 1]) =
    map (\<lambda>k. tree_node k (m div 2 ^ k)) [0..<h + 1]"
proof -
  have "(2 :: nat) ^ h < 2 ^ 31" using assms(2) by (intro power_strict_increasing) auto
  then have m: "m < 2 ^ 31" using assms(1) by simp
  have "tree_node k j = Parent (parent_node k j)" if "1 \<le> k" for k j
    using that tree_node_Suc [of "k - 1" j] by simp
  moreover have "[0..<h + 1] = 0 # [1..<h + 1]" by (simp add: upt_conv_Cons del: upt_Suc)
  ultimately show ?thesis using tree_node_zero [OF m] by (simp del: upt_Suc)
qed

lemma sib_in_tree:
  assumes "l < 2 ^ h" and "k < h"
  shows "in_tree h k (sib (l div 2 ^ k))"
proof -
  have "in_tree h k (l div 2 ^ k)" using assms by (intro in_tree_leaf) auto
  moreover have "h - k = Suc (h - Suc k)" using assms(2) by simp
  then have "(2 :: nat) ^ (h - k) = 2 * 2 ^ (h - Suc k)" by simp
  moreover have "i < 2 * e \<Longrightarrow> sib i < 2 * e" for i e :: nat by (auto simp: sib_def elim!: evenE)
  ultimately show ?thesis using assms(2) by (simp add: in_tree_def)
qed

text \<open>The copath of one leaf and the path of another meet just below the lowest common ancestor.\<close>

lemma copath_meets:
  assumes "l < 2 ^ h" and "m < 2 ^ h" and "h \<le> 30"
  shows "c \<in> set (map (\<lambda>k. tree_node k (sib (l div 2 ^ k))) [0..<h]) \<inter> set (map (\<lambda>k. tree_node k (m div 2 ^ k)) [0..<h + 1]) \<longleftrightarrow>
    (\<exists>k < h. c = tree_node k (m div 2 ^ k) \<and> meet l m = Suc k)" (is "c \<in> ?cs \<inter> ?up \<longleftrightarrow> ?R")
proof
  assume "c \<in> ?cs \<inter> ?up"
  then obtain k k' where k: "k < h" "k' \<le> h" "c = tree_node k (sib (l div 2 ^ k))" "c = tree_node k' (m div 2 ^ k')"
    by (auto simp: less_Suc_eq_le simp del: upt_Suc)
  then have "k = k' \<and> sib (l div 2 ^ k) = m div 2 ^ k'"
    using tree_node_inj [OF sib_in_tree [OF assms(1) k(1)] in_tree_leaf [OF assms(2) k(2)] assms(3)] k(3,4) by metis
  then have kk: "k' = k" and "m div 2 ^ k = sib (l div 2 ^ k)" by metis+
  then have "meet l m = Suc k" using sib_meets [OF assms(1,2)] by blast
  moreover have "c = tree_node k (m div 2 ^ k)" using k(4) unfolding kk .
  ultimately show ?R using k(1) by blast
next
  assume ?R
  then obtain k where k: "k < h" "c = tree_node k (m div 2 ^ k)" "m div 2 ^ k = sib (l div 2 ^ k)"
    using sib_meets [OF assms(1,2)] by blast
  have "c = tree_node k (sib (l div 2 ^ k))" using k(2) unfolding k(3) .
  then have "c \<in> ?cs" using k(1) by simp
  moreover have "c \<in> ?up" using k(1,2) by (simp del: upt_Suc)
  ultimately show "c \<in> ?cs \<inter> ?up" by simp
qed

lemma lca_loop_steps:
  assumes "a < 2 ^ 32" and "b < 2 ^ 32" and "a div 2 ^ m = b div 2 ^ m"
    and "\<And>i. i < m \<Longrightarrow> a div 2 ^ i \<noteq> b div 2 ^ i"
  shows "lca_loop (of_nat a) (of_nat b) k = (of_nat (a div 2 ^ m), k + m)"
  using assms
proof (induction m arbitrary: a b k)
  case 0
  then show ?case by (subst lca_loop.simps) simp
next
  case (Suc m)
  have half: "shr (of_nat z) 1 = of_nat (z div 2)" if "z < 2 ^ 32" for z :: nat
  proof -
    have "shr (of_nat z) 1 = (of_nat z :: u32) div 2" by (simp add: shr_def drop_bit_Suc)
    moreover have "unat ((of_nat z :: u32) div 2) = z div 2"
      using that by (simp add: unat_div_distrib unat_of_nat take_bit_nat_eq_self)
    moreover have "unat (of_nat (z div 2) :: u32) = z div 2"
      using that by (simp add: unat_of_nat take_bit_nat_eq_self)
    ultimately show ?thesis by (simp add: word_unat_eq_iff)
  qed
  have "a \<noteq> b" using Suc.prems(4) [of 0] by simp
  then have "(of_nat a :: u32) \<noteq> of_nat b"
    using Suc.prems(1,2) by (auto simp: word_unat_eq_iff unat_of_nat take_bit_nat_eq_self)
  moreover have "lca_loop (of_nat (a div 2)) (of_nat (b div 2)) (k + 1) = (of_nat (a div 2 div 2 ^ m), (k + 1) + m)"
  proof (rule Suc.IH)
    show "a div 2 div 2 ^ m = b div 2 div 2 ^ m" using Suc.prems(3) by (simp add: div_mult2_eq)
    show "a div 2 div 2 ^ i \<noteq> b div 2 div 2 ^ i" if "i < m" for i
      using Suc.prems(4) [of "Suc i"] that by (simp add: div_mult2_eq)
  qed (use Suc.prems(1,2) in auto)
  ultimately show ?case
    using half Suc.prems(1,2) by (subst lca_loop.simps) (simp add: div_mult2_eq)
qed

lemma leaf_level: "level (leaf_to_tree_index (leafi l)) = Some 0"
  unfolding leaf_nodew by (rule level_node) simp

lemma lca_meet:
  assumes "x < 2 ^ h" and "y < 2 ^ h" and "x \<noteq> y" and "h \<le> 30"
  shows "lowest_common_ancestor (leafi x) (leafi y) = Some (parent_node (meet x y) (x div 2 ^ meet x y))"
proof -
  define k where "k = meet x y"
  have k: "0 < k" "k \<le> h" using meet_bounds [OF assms(1-3)] by (simp_all add: k_def)
  have "(2 :: nat) ^ h \<le> 2 ^ 30" using assms(4) by (intro power_increasing) auto
  then have xy: "2 * x < 2 ^ 32" "2 * y < 2 ^ 32" using assms(1,2) by simp_all
  have two: "2 * z div 2 ^ Suc i = z div 2 ^ i" for z i :: nat by simp
  have steps: "lca_loop (of_nat (2 * x)) (of_nat (2 * y)) 0 = (of_nat (2 * x div 2 ^ Suc k), 0 + Suc k)"
  proof (rule lca_loop_steps [OF xy])
    show "2 * x div 2 ^ Suc k = 2 * y div 2 ^ Suc k"
      unfolding two using agree_iff [OF assms(1,2), of k] by (simp add: k_def)
    show "2 * x div 2 ^ i \<noteq> 2 * y div 2 ^ i" if "i < Suc k" for i
    proof (cases i)
      case 0
      then show ?thesis using assms(3) by simp
    next
      case (Suc i')
      then show ?thesis using that agree_iff [OF assms(1,2), of i'] unfolding Suc two by (simp add: k_def)
    qed
  qed
  have leaf: "leaf_to_tree_index (leafi z) = of_nat (2 * z)" for z by simp
  have ne: "shr (of_nat (2 * x)) 1 \<noteq> shr (of_nat (2 * y)) 1"
  proof -
    have s: "unat (shr (of_nat (2 * z)) 1) = z" if "2 * z < 2 ^ 32" for z :: nat
      using that by (simp add: shr_def unat_drop_bit_eq drop_bit_Suc unat_of_nat take_bit_nat_eq_self unat_div_distrib del: of_nat_mult)
    then show ?thesis using s [OF xy(1)] s [OF xy(2)] assms(3) by metis
  qed
  have node: "shl (of_nat (x div 2 ^ k)) (Suc k) + shl 1 k - 1 = nodew k (x div 2 ^ k)"
  proof -
    have "shl (of_nat q) (Suc k) + shl 1 k = of_nat (2 ^ (k + 1) * q + 2 ^ k)" for q
      using k assms(4) by (simp add: shl_def push_bit_eq_mult)
    moreover have "node_at k q = 2 ^ (k + 1) * q + 2 ^ k - 1" for q by (simp add: node_at_value)
    moreover have "of_nat (N - 1) = (of_nat N - 1 :: u32)" if "1 \<le> N" for N :: nat
      using of_nat_diff [OF that, where 'a = u32] by simp
    moreover have "1 \<le> 2 ^ (k + 1) * q + (2 :: nat) ^ k" for q by (simp add: trans_le_add2)
    ultimately show ?thesis by metis
  qed
  show ?thesis
    unfolding lowest_common_ancestor_def Let_def leaf_level option.case prod.case
    using steps ne node k by (simp add: leaf two k_def parent_node_def del: leaf_to_tree_index.simps of_nat_mult)
qed

text \<open>Of the two children of the lowest common ancestor, the one above the second leaf.\<close>

lemma subtree_root_copath_node_meet:
  assumes "x < 2 ^ h" and "y < 2 ^ h" and "x \<noteq> y" and "h \<le> 30"
  shows "subtree_root_copath_node (leafi x) (leafi y) = Some (tree_node (meet x y - 1) (y div 2 ^ (meet x y - 1)))"
proof -
  obtain k where k: "meet x y = Suc k" "k < h"
    using meet_bounds [OF assms(1-3)] by (metis Suc_le_eq gr0_implies_Suc)
  define a b where "a = x div 2 ^ k" and "b = y div 2 ^ k"
  have "b = sib a" using sib_meets [OF assms(1,2)] k(1) by (simp add: a_def b_def)
  moreover have "b \<le> a" if "y < x" using that by (simp add: a_def b_def div_le_mono)
  moreover have "a \<le> b" if "\<not> y < x" using that by (simp add: a_def b_def div_le_mono)
  ultimately have "(if y < x then 2 * (a div 2) else 2 * (a div 2) + 1) = b"
    by (auto simp: sib_alt elim!: evenE oddE split: if_splits)
  moreover have "x div 2 ^ Suc k = a div 2" by (simp add: a_def div_mult2_eq [symmetric] mult.commute)
  moreover have "leaf_less (leafi y) (leafi x) \<longleftrightarrow> y < x"
  proof -
    have "(2 :: nat) ^ h \<le> 2 ^ 30" using assms(4) by (intro power_increasing) auto
    then have "x < 2 ^ 32" "y < 2 ^ 32" using assms(1,2) by simp_all
    then show ?thesis by (simp add: word_less_nat_alt unat_of_nat take_bit_nat_eq_self)
  qed
  moreover have "k < 31" using k(2) assms(4) by simp
  ultimately show ?thesis
    using lca_meet [OF assms] left_parent_node [of k "a div 2"] right_parent_node [of k "a div 2"]
    by (auto simp: subtree_root_copath_node_def k(1) b_def simp del: power_Suc split: if_splits)
qed

text \<open>
  (C18) TreeKEM encrypts a new path secret to the copath. In a tree of height at most 30 every other leaf is
  reached by exactly one node of the copath of a leaf: exactly one copath node is that leaf or
  lies on its direct path, and it is the node \<open>subtree_root_copath_node\<close> picks for decryption. No copath node
  is the leaf itself or lies on its own direct path.
\<close>

theorem copath_covers_others:
  assumes "l < 2 ^ h" and "m < 2 ^ h" and "0 < h" and "h \<le> 30"
  shows "\<exists>cs path. copath (leafi l) (size_of h) = Some cs \<and> direct_path (leafi m) (size_of h) = Some path \<and>
    (if m = l then set cs \<inter> set (Leaf (leafi m) # map Parent path) = {}
     else \<exists>c. subtree_root_copath_node (leafi l) (leafi m) = Some c \<and>
              set cs \<inter> set (Leaf (leafi m) # map Parent path) = {c})"
proof -
  define cs where "cs = map (\<lambda>k. tree_node k (sib (l div 2 ^ k))) [0..<h]"
  define up where "up = map (\<lambda>k. tree_node k (m div 2 ^ k)) [0..<h + 1]"
  have up: "Leaf (leafi m) # map Parent (map (\<lambda>k. parent_node k (m div 2 ^ k)) [1..<h + 1]) = up"
    unfolding up_def using path_nodes [OF assms(2,4)] by simp
  have meets: "c \<in> set cs \<inter> set up \<longleftrightarrow> (\<exists>k < h. c = tree_node k (m div 2 ^ k) \<and> meet l m = Suc k)" for c
    unfolding cs_def up_def by (rule copath_meets [OF assms(1,2,4)])
  have "if m = l then set cs \<inter> set up = {}
      else \<exists>c. subtree_root_copath_node (leafi l) (leafi m) = Some c \<and> set cs \<inter> set up = {c}"
  proof (cases "m = l")
    case True
    then have "meet l m = 0" using agree_iff [OF assms(1,2), of 0] by simp
    then show ?thesis using True meets by auto
  next
    case False
    then obtain k where k: "meet l m = Suc k" "k < h"
      using meet_bounds [OF assms(1,2)] by (metis Suc_le_eq gr0_implies_Suc)
    then have "set cs \<inter> set up = {tree_node k (m div 2 ^ k)}" using meets by auto
    then show ?thesis
      using False subtree_root_copath_node_meet [OF assms(1,2) _ assms(4)] k(1) by simp
  qed
  then show ?thesis
    unfolding up [symmetric]
    using copath_leaf [OF assms(1,3,4), folded cs_def] direct_path_leaf [OF assms(2,4)] by blast
qed

theorem copath_covers_others_witness:
  "\<exists>cs path c. copath (LeafNodeIndex 2) (TreeSize 7) = Some cs \<and> direct_path (LeafNodeIndex 0) (TreeSize 7) = Some path \<and>
      subtree_root_copath_node (LeafNodeIndex 2) (LeafNodeIndex 0) = Some c \<and>
      set cs \<inter> set (Leaf (LeafNodeIndex 0) # map Parent path) = {c}"
proof -
  have "size_of 2 = TreeSize 7" by (simp add: size_of_def)
  then show ?thesis using copath_covers_others [of 2 2 0] by auto
qed

text \<open>The callers never ask for the copath of a single leaf: the function then returns a node outside the tree.\<close>

lemma copath_single_leaf:
  "copath (leafi 0) (size_of 0) = Some [Leaf (leafi 1)]" "\<not> is_node_in_tree (Leaf (leafi 1)) (size_of 0)"
proof -
  have "sibling (tree_node 0 0) = Some (tree_node 0 1)"
    using sibling_tree_node [of 1 0 0] by (simp add: in_tree_def sib_def)
  then show "copath (leafi 0) (size_of 0) = Some [Leaf (leafi 1)]"
    using direct_path_leaf [of 0 0] tree_node_zero [of 0] tree_node_zero [of 1] by (simp add: copath_def)
  show "\<not> is_node_in_tree (Leaf (leafi 1)) (size_of 0)" by (simp add: is_node_in_tree_def size_of_def)
qed

lemma common_prefix_rev:
  assumes "a \<le> c" "c \<le> b" "\<And>i. c \<le> i \<Longrightarrow> i < b \<Longrightarrow> f i = g i" "a < c \<Longrightarrow> f (c - 1) \<noteq> g (c - 1)"
  shows "common_prefix (map f (rev [a..<b])) (map g (rev [a..<b])) = map f (rev [c..<b])"
  using assms(2,3)
proof (induction rule: dec_induct)
  case base
  show ?case
  proof (cases "a < c")
    case True
    then have "rev [a..<c] = (c - 1) # rev [a..<c - 1]" by (cases c) auto
    then show ?thesis using assms(4) [OF True] by simp
  next
    case False
    then show ?thesis by simp
  qed
next
  case (step n)
  then show ?case using assms(1) by simp
qed

lemma map_upt_disjoint:
  assumes "\<And>i. i < c \<Longrightarrow> a \<le> i \<Longrightarrow> f i \<noteq> g i" "\<And>i j. f i = g j \<Longrightarrow> i \<in> {a..<c} \<Longrightarrow> j \<in> {a..<c} \<Longrightarrow> i = j"
  shows "set (map f [a..<c]) \<inter> set (map g [a..<c]) = {}"
  using assms by fastforce

text \<open>
  For two different leaves of a tree of height at most 30, the bit arithmetic of
  \<open>lowest_common_ancestor\<close> yields the node at which their direct paths meet: both paths end in that node followed by
  the same nodes up to the root, which is what \<open>common_direct_path\<close> returns, and below it they have no
  node in common.
\<close>

theorem lowest_common_ancestor_meets:
  assumes "x < 2 ^ h" and "y < 2 ^ h" and "x \<noteq> y" and "h \<le> 30"
  shows "\<exists>a above below_x below_y.
    lowest_common_ancestor (leafi x) (leafi y) = Some a \<and>
    direct_path (leafi x) (size_of h) = Some (below_x @ a # above) \<and>
    direct_path (leafi y) (size_of h) = Some (below_y @ a # above) \<and>
    common_direct_path (leafi x) (leafi y) (size_of h) = Some (a # above) \<and>
    set below_x \<inter> set below_y = {}"
proof -
  define k where "k = meet x y"
  define f g where "f i = parent_node i (x div 2 ^ i)" and "g i = parent_node i (y div 2 ^ i)" for i
  have k: "0 < k" "k \<le> h" using meet_bounds [OF assms(1-3)] by (simp_all add: k_def)
  have agree: "f i = g i" if "k \<le> i" for i
    using that agree_iff [OF assms(1,2), of i] by (simp add: f_def g_def k_def)
  have inj: "i = j \<and> x div 2 ^ i = y div 2 ^ j" if "f i = g j" "1 \<le> i" "i \<le> h" "1 \<le> j" "j \<le> h" for i j
  proof -
    have "tree_node i (x div 2 ^ i) = tree_node j (y div 2 ^ j)"
      using that tree_node_Suc [of "i - 1"] tree_node_Suc [of "j - 1"] by (simp add: f_def g_def)
    then show ?thesis
      using tree_node_inj [OF in_tree_leaf in_tree_leaf assms(4)] assms(1,2) that by blast
  qed
  have differ: "f i \<noteq> g i" if "1 \<le> i" "i < k" for i
    using inj [of i i] that k agree_iff [OF assms(1,2), of i] by (auto simp: k_def)
  have split: "map e [1..<h + 1] = map e [1..<k] @ e k # map e [k + 1..<h + 1]" for e :: "nat \<Rightarrow> ParentNodeIndex"
  proof -
    have "[1..<h + 1] = [1..<k] @ [k..<h + 1]"
      using k upt_add_eq_append [of 1 k "h + 1 - k"] by (simp del: upt_Suc)
    moreover have "[k..<h + 1] = k # [k + 1..<h + 1]" using k by (simp add: upt_conv_Cons del: upt_Suc)
    ultimately show ?thesis by (simp del: upt_Suc)
  qed
  have tail: "map g [k + 1..<h + 1] = map f [k + 1..<h + 1]" using agree by (simp del: upt_Suc)
  have common: "common_prefix (rev (map f [1..<h + 1])) (rev (map g [1..<h + 1])) = rev (map f [k..<h + 1])"
    unfolding rev_map using k agree differ by (intro common_prefix_rev) auto
  have "set (map f [1..<k]) \<inter> set (map g [1..<k]) = {}"
    using differ inj k by (intro map_upt_disjoint) auto
  moreover have "[k..<h + 1] = k # [k + 1..<h + 1]" using k by (simp add: upt_conv_Cons del: upt_Suc)
  moreover have "lowest_common_ancestor (leafi x) (leafi y) = Some (f k)"
    using lca_meet [OF assms] by (simp add: f_def k_def)
  moreover have "direct_path (leafi x) (size_of h) = Some (map f [1..<h + 1])"
    "direct_path (leafi y) (size_of h) = Some (map g [1..<h + 1])"
    using direct_path_leaf assms by (simp_all add: f_def g_def)
  ultimately show ?thesis
    using split [of f] split [of g] tail agree [of k] common
    by (intro exI [of _ "f k"] exI [of _ "map f [k + 1..<h + 1]"] exI [of _ "map f [1..<k]"] exI [of _ "map g [1..<k]"])
      (simp add: common_direct_path_def del: upt_Suc)
qed

theorem lowest_common_ancestor_meets_witness:
  "(\<exists>a above below_x below_y. lowest_common_ancestor (LeafNodeIndex 1) (LeafNodeIndex 2) = Some a \<and>
     direct_path (LeafNodeIndex 1) (TreeSize 7) = Some (below_x @ a # above) \<and>
     direct_path (LeafNodeIndex 2) (TreeSize 7) = Some (below_y @ a # above) \<and>
     common_direct_path (LeafNodeIndex 1) (LeafNodeIndex 2) (TreeSize 7) = Some (a # above) \<and>
     set below_x \<inter> set below_y = {}) \<and> size_of 2 = TreeSize 7"
proof -
  have "size_of 2 = TreeSize 7" by (simp add: size_of_def)
  then show ?thesis using lowest_common_ancestor_meets [of 1 2 2] by simp
qed

text \<open>
  (C19) On the nodes of a tree of height at most 30 the bit manipulations implement the complete binary
  tree: the level of an index, its parent, its sibling and the children of a parent node are those of the tree, and
  the size computed for a number of nodes is that of the smallest full tree that holds them, with as
  many leaves and parents as that tree has.
\<close>

theorem navigation_refines_tree:
  assumes "in_tree h k j" and "h \<le> 30" and "2 ^ h \<le> unat nodes" and "unat nodes < 2 ^ (h + 1)"
  shows "level (tree_node_u32 (tree_node k j)) = Some k \<and>
    (if k < h then parent (tree_node k j) = Some (parent_node (Suc k) (j div 2)) \<and>
                   sibling (tree_node k j) = Some (tree_node k (if even j then j + 1 else j - 1))
     else tree_node k j = root (tree_size_new nodes)) \<and>
    (if 0 < k then tree_node k j = Parent (parent_node k j) \<and>
                   left (parent_node k j) = Some (tree_node (k - 1) (2 * j)) \<and>
                   right (parent_node k j) = Some (tree_node (k - 1) (2 * j + 1))
     else tree_node k j = Leaf (LeafNodeIndex (of_nat j))) \<and>
    is_node_in_tree (tree_node k j) (tree_size_new nodes) \<and>
    unat (leaf_count (tree_size_new nodes)) = 2 ^ h \<and> unat (parent_count (tree_size_new nodes)) = 2 ^ h - 1"
proof -
  have k: "k < 32" "k \<le> h" using assms(1,2) by (auto simp: in_tree_def)
  have new: "tree_size_new nodes = size_of h" using assms(2-4) by (intro tree_size_new_height)
  have "(2 :: nat) ^ (h - k) \<le> 2 ^ 30" using assms(2) by (intro power_increasing) auto
  then have j: "j < 2 ^ 31" using assms(1) by (simp add: in_tree_def)
  have lvl: "level (tree_node_u32 (tree_node k j)) = Some k"
    using level_node [OF k(1)] by (simp add: tree_node_def tree_node_inverse)
  have up: "parent (tree_node k j) = Some (parent_node (Suc k) (j div 2)) \<and>
      sibling (tree_node k j) = Some (tree_node k (if even j then j + 1 else j - 1))" if "k < h"
    using that parent_tree_node [of k j] sibling_tree_node [OF assms(1) that assms(2)] assms(2) by (simp add: sib_def)
  have top: "tree_node k j = root (tree_size_new nodes)" if "\<not> k < h"
    using that assms(1) k root_size_of [OF assms(2)] by (simp add: new in_tree_def)
  have down: "tree_node k j = Parent (parent_node k j) \<and> left (parent_node k j) = Some (tree_node (k - 1) (2 * j)) \<and>
      right (parent_node k j) = Some (tree_node (k - 1) (2 * j + 1))" if "0 < k"
    using that k assms(2) tree_node_Suc [of "k - 1" j] left_parent_node [of "k - 1" j] right_parent_node [of "k - 1" j] by simp
  have inside: "is_node_in_tree (tree_node k j) (tree_size_new nodes)"
    using node_at_bound [OF assms(1)] unat_nodew [OF assms(1,2)] size_of_u32 [OF assms(2)]
    by (simp add: is_node_in_tree_def new tree_node_def tree_node_inverse word_less_nat_alt)
  show ?thesis
    using lvl up top down inside size_of_counts [OF assms(2)] tree_node_zero [OF j] unfolding new by auto
qed

theorem navigation_refines_tree_witness:
  "in_tree 3 1 2 \<and> parent (tree_node 1 2) = Some (parent_node 2 1) \<and> sibling (tree_node 1 2) = Some (tree_node 1 3) \<and>
   left (parent_node 1 2) = Some (tree_node 0 4) \<and> is_node_in_tree (tree_node 1 2) (tree_size_new 9)"
proof -
  have "in_tree 3 1 2" "(3 :: nat) \<le> 30" "2 ^ 3 \<le> unat (9 :: u32)" "unat (9 :: u32) < 2 ^ (3 + 1)"
    by (simp_all add: in_tree_def)
  from navigation_refines_tree [OF this, simplified] this(1) show ?thesis
    by (elim conjE) (simp add: numeral_2_eq_2)
qed

end
