(* ===== verification/Sender_Ratchet.thy ===== *)
theory Sender_Ratchet
  imports Interfaces
begin

text \<open>
  The sender ratchet of OpenMLS (\<^verbatim>\<open>openmls-main/openmls/src/tree/sender_ratchet.rs\<close>): the symmetric
  ratchet of one sender in one epoch and the window of past keys its receivers keep. The key derivation
  (\<^verbatim>\<open>Secret::kdf_expand_label\<close>, HKDF over a TLS-encoded label) and the lengths of the ciphersuite are
  the fields of a record of parameters. Generations are 32-bit words.
\<close>

section \<open>Derivation\<close>

datatype SecretTreeError =
    TooDistantInThePast
  | TooDistantInTheFuture
  | IndexOutOfBounds
  | SecretReuseError
  | RatchetTypeError
  | RatchetTooLong
  | LibraryError
  | CryptoError string

record kdf =
  kdf_expand_label :: "bytes \<Rightarrow> string \<Rightarrow> bytes \<Rightarrow> nat \<Rightarrow> string + bytes"
  aead_nonce_length :: nat
  aead_key_length :: nat
  hash_length :: nat

definition to_be_bytes :: "u32 \<Rightarrow> bytes" where
  "to_be_bytes w = [ucast (drop_bit 24 w), ucast (drop_bit 16 w), ucast (drop_bit 8 w), ucast w]"

definition derive_tree_secret :: "kdf \<Rightarrow> bytes \<Rightarrow> string \<Rightarrow> u32 \<Rightarrow> nat \<Rightarrow> SecretTreeError + bytes" where
  "derive_tree_secret cr secret label generation len =
     (case kdf_expand_label cr secret label (to_be_bytes generation) len of
        Inl e \<Rightarrow> Inl (CryptoError e)
      | Inr s \<Rightarrow> Inr s)"

section \<open>The ratchet\<close>

record SenderRatchetConfiguration =
  out_of_order_tolerance :: u32
  maximum_forward_distance :: u32

definition sender_ratchet_configuration_default :: SenderRatchetConfiguration where
  "sender_ratchet_configuration_default = \<lparr>out_of_order_tolerance = 5, maximum_forward_distance = 1000\<rparr>"

type_synonym RatchetKeyMaterial = "bytes \<times> bytes"

record RatchetSecret =
  rs_secret :: bytes
  rs_generation :: u32

definition initial_ratchet_secret :: "bytes \<Rightarrow> RatchetSecret" where
  "initial_ratchet_secret secret = \<lparr>rs_secret = secret, rs_generation = 0\<rparr>"

definition ratchet_forward :: "kdf \<Rightarrow> RatchetSecret \<Rightarrow> (SecretTreeError + u32 \<times> RatchetKeyMaterial) \<times> RatchetSecret" where
  "ratchet_forward cr r =
     (if rs_generation r = - 1 then (Inl RatchetTooLong, r)
      else case derive_tree_secret cr (rs_secret r) ''nonce'' (rs_generation r) (aead_nonce_length cr) of
        Inl e \<Rightarrow> (Inl e, r)
      | Inr nonce \<Rightarrow>
          (case derive_tree_secret cr (rs_secret r) ''key'' (rs_generation r) (aead_key_length cr) of
             Inl e \<Rightarrow> (Inl e, r)
           | Inr key \<Rightarrow>
               (case derive_tree_secret cr (rs_secret r) ''secret'' (rs_generation r) (hash_length cr) of
                  Inl e \<Rightarrow> (Inl e, r)
                | Inr secret \<Rightarrow>
                    (Inr (rs_generation r, (key, nonce)),
                     r\<lparr>rs_secret := secret, rs_generation := rs_generation r + 1\<rparr>))))"

record DecryptionRatchet =
  past_secrets :: "RatchetKeyMaterial option list"
  ratchet_head :: RatchetSecret

definition decryption_ratchet_new :: "bytes \<Rightarrow> DecryptionRatchet" where
  "decryption_ratchet_new secret = \<lparr>past_secrets = [], ratchet_head = initial_ratchet_secret secret\<rparr>"

definition prune_past_secrets :: "SenderRatchetConfiguration \<Rightarrow> DecryptionRatchet \<Rightarrow> DecryptionRatchet" where
  "prune_past_secrets cfg d = d\<lparr>past_secrets := take (unat (out_of_order_tolerance cfg)) (past_secrets d)\<rparr>"

abbreviation dr_generation :: "DecryptionRatchet \<Rightarrow> u32" where
  "dr_generation d \<equiv> rs_generation (ratchet_head d)"

text \<open>The loop that skips generations; it stops at the first error.\<close>

fun skip_forward :: "kdf \<Rightarrow> nat \<Rightarrow> DecryptionRatchet \<Rightarrow> SecretTreeError option \<times> DecryptionRatchet" where
  "skip_forward cr 0 d = (None, d)"
| "skip_forward cr (Suc n) d =
     (case ratchet_forward cr (ratchet_head d) of
        (Inl e, r) \<Rightarrow> (Some e, d\<lparr>ratchet_head := r\<rparr>)
      | (Inr (_, ratchet_secrets), r) \<Rightarrow>
          skip_forward cr n (d\<lparr>ratchet_head := r, past_secrets := Some ratchet_secrets # past_secrets d\<rparr>))"

definition secret_for_decryption ::
  "kdf \<Rightarrow> SenderRatchetConfiguration \<Rightarrow> u32 \<Rightarrow> DecryptionRatchet
     \<Rightarrow> (SecretTreeError + RatchetKeyMaterial) \<times> DecryptionRatchet" where
  "secret_for_decryption cr cfg generation d =
     (if dr_generation d < - 1 - maximum_forward_distance cfg \<and>
         dr_generation d + maximum_forward_distance cfg < generation
      then (Inl TooDistantInTheFuture, d)
      else if generation < dr_generation d \<and>
              out_of_order_tolerance cfg < dr_generation d - generation
      then (Inl TooDistantInThePast, d)
      else if dr_generation d \<le> generation then
        (case skip_forward cr (unat (generation - dr_generation d)) d of
           (Some e, d1) \<Rightarrow> (Inl e, d1)
         | (None, d1) \<Rightarrow>
             (case ratchet_forward cr (ratchet_head d1) of
                (Inl e, r) \<Rightarrow> (Inl e, d1\<lparr>ratchet_head := r\<rparr>)
              | (Inr (_, ratchet_secrets), r) \<Rightarrow>
                  (Inr ratchet_secrets,
                   prune_past_secrets cfg (d1\<lparr>ratchet_head := r, past_secrets := None # past_secrets d1\<rparr>))))
      else
        (let window_index = (dr_generation d - generation) - 1
         in if sint window_index < 0 then (Inl TooDistantInThePast, d)
            else let index = unat window_index
                 in if \<not> index < length (past_secrets d) then (Inl IndexOutOfBounds, d)
                    else case past_secrets d ! index of
                           None \<Rightarrow> (Inl SecretReuseError, d)
                         | Some km \<Rightarrow> (Inr km, d\<lparr>past_secrets := (past_secrets d)[index := None]\<rparr>)))"

text \<open>The encryption ratchet is the head alone: every request returns the next generation.\<close>

datatype SenderRatchet = EncryptionRatchet RatchetSecret | DecryptionRatchetOf DecryptionRatchet

abbreviation decrypt_requests ::
  "kdf \<Rightarrow> SenderRatchetConfiguration \<Rightarrow> DecryptionRatchet \<Rightarrow> u32 list
     \<Rightarrow> (u32 \<times> (SecretTreeError + RatchetKeyMaterial)) list \<times> DecryptionRatchet" where
  "decrypt_requests cr cfg \<equiv> serve_all (\<lambda>d g. secret_for_decryption cr cfg g d)"

fun encrypt_requests ::
  "kdf \<Rightarrow> RatchetSecret \<Rightarrow> nat \<Rightarrow> (SecretTreeError + u32 \<times> RatchetKeyMaterial) list \<times> RatchetSecret" where
  "encrypt_requests cr r 0 = ([], r)"
| "encrypt_requests cr r (Suc n) =
     (case ratchet_forward cr r of (res, r1) \<Rightarrow> apfst (\<lambda>rs. res # rs) (encrypt_requests cr r1 n))"

section \<open>The reference: a window over the chain of keys\<close>

text \<open>A key derivation that never fails, which HKDF does not for the lengths of a ciphersuite.\<close>

definition kdf_total :: "kdf \<Rightarrow> bool" where
  "kdf_total cr \<longleftrightarrow> (\<forall>s l c n. \<exists>s'. kdf_expand_label cr s l c n = Inr s')"

fun secret_at :: "kdf \<Rightarrow> bytes \<Rightarrow> nat \<Rightarrow> bytes" where
  "secret_at cr s0 0 = s0"
| "secret_at cr s0 (Suc n) = projr (derive_tree_secret cr (secret_at cr s0 n) ''secret'' (of_nat n) (hash_length cr))"

definition key_at :: "kdf \<Rightarrow> bytes \<Rightarrow> nat \<Rightarrow> RatchetKeyMaterial" where
  "key_at cr s0 n =
     (projr (derive_tree_secret cr (secret_at cr s0 n) ''key'' (of_nat n) (aead_key_length cr)),
      projr (derive_tree_secret cr (secret_at cr s0 n) ''nonce'' (of_nat n) (aead_nonce_length cr)))"

definition head_at :: "kdf \<Rightarrow> bytes \<Rightarrow> nat \<Rightarrow> RatchetSecret" where
  "head_at cr s0 n = \<lparr>rs_secret = secret_at cr s0 n, rs_generation = of_nat n\<rparr>"

text \<open>
  The abstract receiver: the next generation of the sender and the generations already handed out. The
  answer to a request is the generation whose key is returned.
\<close>

type_synonym window = "nat \<times> nat set"

fun window_request :: "nat \<Rightarrow> nat \<Rightarrow> window \<Rightarrow> nat \<Rightarrow> (SecretTreeError + nat) \<times> window" where
  "window_request tol fwd (h, used) g =
     (if h < u32_max - fwd \<and> h + fwd < g then (Inl TooDistantInTheFuture, (h, used))
      else if g < h \<and> tol < h - g then (Inl TooDistantInThePast, (h, used))
      else if h \<le> g then
        (if g = u32_max then (Inl RatchetTooLong, (u32_max, used)) else (Inr g, (Suc g, insert g used)))
      else if g \<in> used then (Inl SecretReuseError, (h, used))
      else (Inr g, (h, insert g used)))"

definition window_rel :: "kdf \<Rightarrow> bytes \<Rightarrow> nat \<Rightarrow> DecryptionRatchet \<Rightarrow> window \<Rightarrow> bool" where
  "window_rel cr s0 tol d w \<longleftrightarrow>
     (case w of (h, used) \<Rightarrow>
        h \<le> u32_max \<and> used \<subseteq> {..<h} \<and> ratchet_head d = head_at cr s0 h \<and>
        min tol h \<le> length (past_secrets d) \<and> length (past_secrets d) \<le> h \<and>
        (\<forall>i < length (past_secrets d). past_secrets d ! i =
           (if h - Suc i \<in> used then None else Some (key_at cr s0 (h - Suc i)))))"

lemma derive_total: "kdf_total cr \<Longrightarrow> \<exists>s'. derive_tree_secret cr s l g n = Inr s'"
  unfolding derive_tree_secret_def kdf_total_def by (metis sum.simps(6))

lemma ratchet_forward_head:
  assumes "kdf_total cr" and "n \<le> u32_max"
  shows "ratchet_forward cr (head_at cr s0 n) =
    (if n = u32_max then (Inl RatchetTooLong, head_at cr s0 n)
     else (Inr (of_nat n, key_at cr s0 n), head_at cr s0 (Suc n)))"
proof -
  let ?d = "\<lambda>l. derive_tree_secret cr (secret_at cr s0 n) l (of_nat n)"
  obtain nonce key secret where
    "?d ''nonce'' (aead_nonce_length cr) = Inr nonce" "?d ''key'' (aead_key_length cr) = Inr key"
    "?d ''secret'' (hash_length cr) = Inr secret"
    using derive_total [OF assms(1)] by meson
  then show ?thesis
    by (simp add: ratchet_forward_def head_at_def u32_max_top [OF assms(2)] key_at_def add.commute)
qed

lemma skip_forward_head:
  assumes "kdf_total cr" and "h + n \<le> u32_max" and "ratchet_head d = head_at cr s0 h"
  shows "skip_forward cr n d =
    (None, d\<lparr>ratchet_head := head_at cr s0 (h + n),
             past_secrets := map (\<lambda>i. Some (key_at cr s0 i)) (rev [h..<h + n]) @ past_secrets d\<rparr>)"
  using assms(2,3)
proof (induction n arbitrary: h d)
  case 0
  then show ?case by simp
next
  case (Suc n)
  have "skip_forward cr (Suc n) d =
      skip_forward cr n (d\<lparr>ratchet_head := head_at cr s0 (Suc h), past_secrets := Some (key_at cr s0 h) # past_secrets d\<rparr>)"
    using Suc.prems by (simp add: ratchet_forward_head [OF assms(1)])
  also have "\<dots> = (None, d\<lparr>ratchet_head := head_at cr s0 (Suc h + n),
      past_secrets := map (\<lambda>i. Some (key_at cr s0 i)) (rev [Suc h..<Suc h + n]) @ Some (key_at cr s0 h) # past_secrets d\<rparr>)"
    using Suc.prems(1) by (subst Suc.IH [of "Suc h"]) (simp_all del: upt_Suc)
  also have "map (\<lambda>i. Some (key_at cr s0 i)) (rev [Suc h..<Suc h + n]) @ Some (key_at cr s0 h) # past_secrets d =
      map (\<lambda>i. Some (key_at cr s0 i)) (rev [h..<h + Suc n]) @ past_secrets d"
    by (simp add: upt_conv_Cons del: upt_Suc)
  finally show ?case by simp
qed

lemma window_rel_past:
  assumes "window_rel cr s0 tol d (h, used)" and "g < h" and "h - g \<le> tol"
  shows "h - Suc g < length (past_secrets d)"
    and "past_secrets d ! (h - Suc g) = (if g \<in> used then None else Some (key_at cr s0 g))"
proof -
  show l: "h - Suc g < length (past_secrets d)" using assms by (auto simp: window_rel_def)
  have "h - Suc (h - Suc g) = g" using assms(2) by simp
  then show "past_secrets d ! (h - Suc g) = (if g \<in> used then None else Some (key_at cr s0 g))"
    using assms(1) l by (auto simp: window_rel_def)
qed

lemma window_rel_take:
  assumes "window_rel cr s0 tol d (h, used)" and "g < h"
  shows "window_rel cr s0 tol (d\<lparr>past_secrets := (past_secrets d)[h - Suc g := None]\<rparr>) (h, insert g used)"
  using assms by (auto simp: window_rel_def nth_list_update)

lemma window_rel_append:
  assumes "window_rel cr s0 tol d (h, used)" and "h \<le> g" and "g \<le> u32_max"
  shows "window_rel cr s0 tol (d\<lparr>ratchet_head := head_at cr s0 g,
    past_secrets := map (\<lambda>i. Some (key_at cr s0 i)) (rev [h..<g]) @ past_secrets d\<rparr>) (g, used)"
proof -
  let ?new = "map (\<lambda>i. Some (key_at cr s0 i)) (rev [h..<g])"
  have "(?new @ past_secrets d) ! j = (if g - Suc j \<in> used then None else Some (key_at cr s0 (g - Suc j)))"
    if "j < length (?new @ past_secrets d)" for j
  proof (cases "j < g - h")
    case True
    then have "?new ! j = Some (key_at cr s0 (g - Suc j))" by (simp add: rev_nth)
    moreover have "g - Suc j \<notin> used" using True assms(1) by (auto simp: window_rel_def)
    ultimately show ?thesis using True by (simp add: nth_append)
  next
    case False
    then have "j - (g - h) < length (past_secrets d)" using that by simp
    moreover have "h - Suc (j - (g - h)) = g - Suc j" using False assms(2) by simp
    ultimately show ?thesis using assms(1) False by (simp add: window_rel_def nth_append)
  qed
  moreover have "min tol g \<le> g - h + length (past_secrets d)" "g - h + length (past_secrets d) \<le> g"
    using assms(1,2) unfolding window_rel_def prod.case by linarith+
  moreover have "used \<subseteq> {..<g}" using assms(1,2) by (auto simp: window_rel_def)
  ultimately show ?thesis using assms(3) by (simp add: window_rel_def)
qed

lemma window_rel_next:
  assumes "window_rel cr s0 tol d (g, used)" and "g < u32_max"
  shows "window_rel cr s0 tol (d\<lparr>ratchet_head := head_at cr s0 (Suc g), past_secrets := take tol (None # past_secrets d)\<rparr>)
    (Suc g, insert g used)"
proof -
  have "(None # past_secrets d) ! j = (if Suc g - Suc j \<in> insert g used then None else Some (key_at cr s0 (Suc g - Suc j)))"
    if "j < length (None # past_secrets d)" for j
    using that assms(1) by (cases j) (auto simp: window_rel_def)
  moreover have "min tol (Suc g) \<le> length (take tol (None # past_secrets d))"
    "length (take tol (None # past_secrets d)) \<le> Suc g"
    using assms(1) unfolding window_rel_def prod.case length_take list.size by linarith+
  moreover have "insert g used \<subseteq> {..<Suc g}" using assms(1) by (auto simp: window_rel_def)
  ultimately show ?thesis using assms(2) by (simp add: window_rel_def)
qed

text \<open>A concrete answer is the key of the generation the window names.\<close>

fun answer_rel :: "kdf \<Rightarrow> bytes \<Rightarrow> SecretTreeError + RatchetKeyMaterial \<Rightarrow> SecretTreeError + nat \<Rightarrow> bool" where
  "answer_rel cr s0 (Inl e) (Inl e') \<longleftrightarrow> e = e'"
| "answer_rel cr s0 (Inr km) (Inr g) \<longleftrightarrow> km = key_at cr s0 g"
| "answer_rel cr s0 _ _ \<longleftrightarrow> False"

lemma window_guards:
  assumes "h \<le> u32_max"
  shows "(of_nat h < (- 1 - fwd :: u32) \<and> of_nat h + fwd < g) = (h < u32_max - unat fwd \<and> h + unat fwd < unat g)"
    and "(g < of_nat h \<and> tol < of_nat h - g) = (unat g < h \<and> unat tol < h - unat g)"
    and "(of_nat h \<le> g) = (h \<le> unat g)"
    and "h \<le> unat g \<Longrightarrow> unat (g - of_nat h) = unat g - h"
    and "unat g < h \<Longrightarrow> unat (of_nat h - g) = h - unat g"
proof -
  note h = u32_max_word [OF assms]
  have top: "unat (- 1 - fwd) = u32_max - unat fwd"
  proof -
    have "unat (- 1 :: u32) = u32_max" by (simp add: unsigned_minus_1_eq_mask mask_eq_exp_minus_1 u32_max_def)
    then show ?thesis using unat_sub [of fwd "- 1"] by simp
  qed
  show le: "(of_nat h \<le> g) = (h \<le> unat g)" by (simp add: word_le_nat_alt h)
  show "h \<le> unat g \<Longrightarrow> unat (g - of_nat h) = unat g - h" using unat_sub [of "of_nat h" g] by (simp add: le h)
  show sub: "unat g < h \<Longrightarrow> unat (of_nat h - g) = h - unat g"
    using unat_sub [of g "of_nat h"] by (simp add: word_le_nat_alt h)
  show "(g < of_nat h \<and> tol < of_nat h - g) = (unat g < h \<and> unat tol < h - unat g)"
    using sub by (auto simp: word_less_nat_alt h)
  show "(of_nat h < (- 1 - fwd :: u32) \<and> of_nat h + fwd < g) = (h < u32_max - unat fwd \<and> h + unat fwd < unat g)"
  proof (cases "h < u32_max - unat fwd")
    case True
    then have "unat (of_nat h + fwd) = h + unat fwd"
      by (subst unat_add_lem [THEN iffD1]) (auto simp: h u32_max_def)
    then show ?thesis using True by (simp add: word_less_nat_alt h top)
  next
    case False
    then show ?thesis by (simp add: word_less_nat_alt h top)
  qed
qed

lemma ratchet_update_swap:
  "d\<lparr>past_secrets := p, ratchet_head := r\<rparr> = d\<lparr>ratchet_head := r, past_secrets := p\<rparr>"
  by simp

lemma request_refines:
  assumes "kdf_total cr" and "unat (out_of_order_tolerance cfg) < 2 ^ 31"
    and rel: "window_rel cr s0 (unat (out_of_order_tolerance cfg)) d w"
  shows "answer_rel cr s0 (fst (secret_for_decryption cr cfg g d))
      (fst (window_request (unat (out_of_order_tolerance cfg)) (unat (maximum_forward_distance cfg)) w (unat g))) \<and>
    window_rel cr s0 (unat (out_of_order_tolerance cfg)) (snd (secret_for_decryption cr cfg g d))
      (snd (window_request (unat (out_of_order_tolerance cfg)) (unat (maximum_forward_distance cfg)) w (unat g))) \<and>
    length (past_secrets (snd (secret_for_decryption cr cfg g d))) \<le>
      fst (snd (window_request (unat (out_of_order_tolerance cfg)) (unat (maximum_forward_distance cfg)) w (unat g))) - fst w +
      length (past_secrets d)"
proof -
  let ?tol = "unat (out_of_order_tolerance cfg)" and ?fwd = "unat (maximum_forward_distance cfg)"
  obtain h used where w: "w = (h, used)" by (cases w)
  have hm: "h \<le> u32_max" and head: "ratchet_head d = head_at cr s0 h" using rel by (auto simp: window_rel_def w)
  have gen: "dr_generation d = of_nat h" by (simp add: head head_at_def)
  have "unat g < 2 ^ 32" using unsigned_less [of g] by simp
  then have gm: "unat g \<le> u32_max" by (simp add: u32_max_def)
  note guards = window_guards [OF hm]
  consider (future) "h < u32_max - ?fwd \<and> h + ?fwd < unat g"
    | (past) "\<not> (h < u32_max - ?fwd \<and> h + ?fwd < unat g)" "unat g < h \<and> ?tol < h - unat g"
    | (forward) "\<not> (h < u32_max - ?fwd \<and> h + ?fwd < unat g)" "h \<le> unat g"
    | (window) "\<not> (h < u32_max - ?fwd \<and> h + ?fwd < unat g)" "unat g < h" "h - unat g \<le> ?tol"
    by linarith
  then show ?thesis
  proof cases
    case future
    then show ?thesis using rel by (simp add: secret_for_decryption_def gen guards w)
  next
    case past
    then show ?thesis using rel by (simp add: secret_for_decryption_def gen guards w)
  next
    case forward
    have skip: "skip_forward cr (unat g - h) d =
      (None, d\<lparr>ratchet_head := head_at cr s0 (unat g),
               past_secrets := map (\<lambda>i. Some (key_at cr s0 i)) (rev [h..<unat g]) @ past_secrets d\<rparr>)"
      using skip_forward_head [OF assms(1) _ head, of "unat g - h"] forward gm by simp
    note app = window_rel_append [OF rel [unfolded w] forward(2) gm]
    show ?thesis
    proof (cases "unat g = u32_max")
      case True

      then show ?thesis
        using forward True skip app rel by (auto simp: ratchet_update_swap secret_for_decryption_def gen guards w ratchet_forward_head [OF assms(1)])
    next
      case False
      then have "unat g < u32_max" using gm by simp
      then show ?thesis
        using forward False skip window_rel_next [OF app]
        by (auto simp: secret_for_decryption_def gen guards w ratchet_forward_head [OF assms(1)] prune_past_secrets_def)
    qed
  next
    case window
    define i where "i = (of_nat h - g) - 1"
    have "unat (of_nat h - g) = h - unat g" using window(2) guards(5) by simp
    then have i: "unat i = h - Suc (unat g)"
      using window(2) unat_sub [of 1 "of_nat h - g"] by (simp add: i_def word_le_nat_alt)
    have "unat i < 2 ^ 31" using i window(3) assms(2) by simp
    then have "\<not> bit (unat i) 31" by (simp add: bit_iff_odd)
    then have "\<not> bit i 31" by (simp add: bit_unsigned_iff)
    then have "\<not> sint i < 0" by (simp add: sint_uint bit_uint_iff)
    then show ?thesis
      using window rel window_rel_past [OF rel [unfolded w] window(2,3)] window_rel_take [OF rel [unfolded w] window(2)]
      by (simp add: secret_for_decryption_def gen guards w i_def [symmetric] i Let_def split: option.splits)
  qed
qed

section \<open>Sequences of requests\<close>

abbreviation window_requests :: "SenderRatchetConfiguration \<Rightarrow> window \<Rightarrow> u32 list \<Rightarrow> (u32 \<times> (SecretTreeError + nat)) list \<times> window" where
  "window_requests cfg \<equiv>
     serve_all (\<lambda>w g. window_request (unat (out_of_order_tolerance cfg)) (unat (maximum_forward_distance cfg)) w (unat g))"

definition answers_rel :: "kdf \<Rightarrow> bytes \<Rightarrow> (u32 \<times> (SecretTreeError + RatchetKeyMaterial)) list
    \<Rightarrow> (u32 \<times> (SecretTreeError + nat)) list \<Rightarrow> bool" where
  "answers_rel cr s0 = list_all2 (\<lambda>(g, res) (g', res'). g = g' \<and> answer_rel cr s0 res res')"

lemma window_rel_new: "window_rel cr s0 tol (decryption_ratchet_new s0) (0, {})"
  by (simp add: window_rel_def decryption_ratchet_new_def initial_ratchet_secret_def head_at_def)

lemma requests_refine:
  assumes "kdf_total cr" and "unat (out_of_order_tolerance cfg) < 2 ^ 31"
    and "window_rel cr s0 (unat (out_of_order_tolerance cfg)) d w"
  shows "answers_rel cr s0 (fst (decrypt_requests cr cfg d gs)) (fst (window_requests cfg w gs)) \<and>
    window_rel cr s0 (unat (out_of_order_tolerance cfg)) (snd (decrypt_requests cr cfg d gs)) (snd (window_requests cfg w gs))"
  using assms(3)
proof (induction gs arbitrary: d w)
  case Nil
  then show ?case by (simp add: answers_rel_def)
next
  case (Cons g gs)
  obtain res d1 where r: "secret_for_decryption cr cfg g d = (res, d1)" by fastforce
  obtain ans w1 where a: "window_request (unat (out_of_order_tolerance cfg)) (unat (maximum_forward_distance cfg)) w (unat g) = (ans, w1)"
    by (metis surj_pair)
  have "answer_rel cr s0 res ans" "window_rel cr s0 (unat (out_of_order_tolerance cfg)) d1 w1"
    using request_refines [OF assms(1,2) Cons.prems, of g] r a by simp_all
  then show ?case using Cons.IH [of d1 w1] r a by (simp add: answers_rel_def)
qed

text \<open>
  (C9) Forward secrecy and out-of-order delivery of a sender ratchet: whatever generations a receiver asks for, in
  whatever order, the ratchet with its queue of past secrets answers every request as the abstract
  window does, which knows only the next generation and the generations already handed out. An answer is the
  key of the requested generation in the sender's chain; too old, too distant and repeated
  requests fail with their own errors.
\<close>

theorem ratchet_refines_window:
  assumes "kdf_total cr" and "unat (out_of_order_tolerance cfg) < 2 ^ 31"
  shows "answers_rel cr s0 (fst (decrypt_requests cr cfg (decryption_ratchet_new s0) gs)) (fst (window_requests cfg (0, {}) gs)) \<and>
    window_rel cr s0 (unat (out_of_order_tolerance cfg)) (snd (decrypt_requests cr cfg (decryption_ratchet_new s0) gs))
      (snd (window_requests cfg (0, {}) gs))"
  using requests_refine [OF assms window_rel_new] .

definition demo_kdf :: kdf where
  "demo_kdf = \<lparr>kdf_expand_label = (\<lambda>s l c n. Inr (map (\<lambda>ch. of_char ch) l @ c @ s)),
     aead_nonce_length = 12, aead_key_length = 16, hash_length = 32\<rparr>"

lemma demo_kdf_total: "kdf_total demo_kdf"
  by (simp add: kdf_total_def demo_kdf_def)

theorem ratchet_refines_window_witness:
  "kdf_total demo_kdf \<and>
   map snd (fst (window_requests sender_ratchet_configuration_default (0, {}) [2, 0, 2])) = [Inr 2, Inr 0, Inl SecretReuseError] \<and>
   answers_rel demo_kdf [7] (fst (decrypt_requests demo_kdf sender_ratchet_configuration_default (decryption_ratchet_new [7]) [2, 0, 2]))
     (fst (window_requests sender_ratchet_configuration_default (0, {}) [2, 0, 2]))"
  using ratchet_refines_window [of demo_kdf sender_ratchet_configuration_default "[7]" "[2, 0, 2]"] demo_kdf_total
  by (simp add: sender_ratchet_configuration_default_def u32_max_def)

text \<open>What the ratchet can still hand out.\<close>

definition openings :: "DecryptionRatchet \<Rightarrow> u32 set" where
  "openings d = {g. dr_generation d \<le> g \<or>
     (let i = unat (dr_generation d) - Suc (unat g) in i < length (past_secrets d) \<and> past_secrets d ! i \<noteq> None)}"

definition ratchet_healthy :: "kdf \<Rightarrow> SenderRatchetConfiguration \<Rightarrow> bytes \<Rightarrow> DecryptionRatchet \<Rightarrow> bool" where
  "ratchet_healthy cr cfg s0 d \<longleftrightarrow> kdf_total cr \<and> unat (out_of_order_tolerance cfg) < 2 ^ 31 \<and>
     (\<exists>w. window_rel cr s0 (unat (out_of_order_tolerance cfg)) d w)"

lemma openings_window:
  assumes "window_rel cr s0 tol d (h, used)"
  shows "g \<in> openings d \<longleftrightarrow> h \<le> unat g \<or> (h - Suc (unat g) < length (past_secrets d) \<and> unat g \<notin> used)"
proof -
  have hm: "h \<le> u32_max" and gen: "dr_generation d = of_nat h" using assms by (auto simp: window_rel_def head_at_def)
  show ?thesis
  proof (cases "h \<le> unat g")
    case True
    then show ?thesis by (simp add: openings_def gen window_guards(3) [OF hm])
  next
    case False
    define i where "i = h - Suc (unat g)"
    have "h - Suc i = unat g" using False by (simp add: i_def)
    then have "i < length (past_secrets d) \<Longrightarrow> past_secrets d ! i \<noteq> None \<longleftrightarrow> unat g \<notin> used"
      using assms by (auto simp: window_rel_def)
    then show ?thesis using False
      by (auto simp: openings_def gen u32_max_word [OF hm] Let_def window_guards(3) [OF hm] i_def [symmetric])
  qed
qed

lemma window_request_cases:
  assumes "window_request tol fwd (h, used) g = (ans, (h', used'))"
  shows "case ans of Inl e \<Rightarrow> used' = used \<and> h \<le> h'
                   | Inr k \<Rightarrow> k = g \<and> used' = insert g used \<and> h' = max h (Suc g) \<and> (h \<le> g \<or> g \<notin> used \<and> h - g \<le> tol)"
  using assms by (auto split: if_splits)


lemma openings_step:
  assumes "ratchet_healthy cr cfg s0 d" and "secret_for_decryption cr cfg g d = (res, d')"
  shows "ratchet_healthy cr cfg s0 d' \<and>
    (case res of Inl e \<Rightarrow> openings d' \<subseteq> openings d
     | Inr k \<Rightarrow> k = key_at cr s0 (unat g) \<and> g \<in> openings d \<and> openings d' \<subseteq> openings d - {g})"
proof -
  let ?tol = "unat (out_of_order_tolerance cfg)"
  have tot: "kdf_total cr" "?tol < 2 ^ 31" using assms(1) by (auto simp: ratchet_healthy_def)
  obtain h used where rel: "window_rel cr s0 ?tol d (h, used)" using assms(1) by (auto simp: ratchet_healthy_def)
  obtain ans h' used' where
    req: "window_request ?tol (unat (maximum_forward_distance cfg)) (h, used) (unat g) = (ans, (h', used'))"
    by (metis surj_pair)
  have rel': "window_rel cr s0 ?tol d' (h', used')" and ans: "answer_rel cr s0 res ans"
    using request_refines [OF tot rel, of g] assms(2) req by simp_all
  have h: "h \<le> h'" using window_request_cases [OF req] by (auto split: sum.splits)
  have len: "length (past_secrets d') \<le> h' - h + length (past_secrets d)"
    using request_refines [OF tot rel, of g] assms(2) req h by simp
  have sub: "x \<in> openings d" if "x \<in> openings d'" "unat x \<notin> used" for x
    using that len h by (auto simp: openings_window [OF rel] openings_window [OF rel'])
  have used: "unat x \<notin> used" if "x \<in> openings d'" "used \<subseteq> used'" for x
  proof -
    have "used' \<subseteq> {..<h'}" using rel' by (simp add: window_rel_def)
    then show ?thesis using that by (auto simp: openings_window [OF rel'])
  qed
  have hl: "ratchet_healthy cr cfg s0 d'" using tot rel' by (auto simp: ratchet_healthy_def)
  show ?thesis
  proof (cases res)
    case (Inl e)
    then obtain e' where "ans = Inl e'" using ans by (cases ans) auto
    then have "used' = used" using window_request_cases [OF req] by simp
    then show ?thesis using Inl hl sub used by auto
  next
    case (Inr k)
    then obtain g' where g': "ans = Inr g'" "k = key_at cr s0 g'" using ans by (cases ans) auto
    then have c: "g' = unat g" "used' = insert (unat g) used" "h' = max h (Suc (unat g))" "h \<le> unat g \<or> unat g \<notin> used \<and> h - unat g \<le> ?tol"
      using window_request_cases [OF req] by simp_all
    have "g \<notin> openings d'" using c by (auto simp: openings_window [OF rel'])
    moreover have "g \<in> openings d"
      using c(4) window_rel_past(1) [OF rel, of "unat g"] by (auto simp: openings_window [OF rel] not_le)
    ultimately show ?thesis using Inr g' c hl sub used by auto
  qed
qed

interpretation mls_ratchet: once_store "\<lambda>d g. secret_for_decryption cr cfg g d" "ratchet_healthy cr cfg s0" openings
  "\<lambda>g. key_at cr s0 (unat g)"
  for cr cfg s0
  by unfold_locales (use openings_step in \<open>fastforce+\<close>)

text \<open>
  No key of a sender ratchet is handed out twice: in any sequence of decryption requests the successful ones are for
  distinct generations, each answered with the key of its generation.
\<close>

theorem ratchet_keys_once:
  assumes "kdf_total cr" and "unat (out_of_order_tolerance cfg) < 2 ^ 31"
    and "decrypt_requests cr cfg (decryption_ratchet_new s0) gs = (rs, d)"
  shows "distinct (map fst (served rs)) \<and> (\<forall>(g, k) \<in> set (served rs). k = key_at cr s0 (unat g))"
proof -
  have "ratchet_healthy cr cfg s0 (decryption_ratchet_new s0)"
    unfolding ratchet_healthy_def using assms(1,2) window_rel_new by blast
  then show ?thesis using mls_ratchet.served_in_order [OF _ assms(3)] by blast
qed

theorem ratchet_keys_once_witness:
  "\<exists>rs d. decrypt_requests demo_kdf sender_ratchet_configuration_default (decryption_ratchet_new [7]) [2, 0, 2] = (rs, d) \<and>
     distinct (map fst (served rs)) \<and> kdf_total demo_kdf"
proof -
  obtain rs d where r: "decrypt_requests demo_kdf sender_ratchet_configuration_default (decryption_ratchet_new [7]) [2, 0, 2] = (rs, d)"
    by (metis surj_pair)
  have "unat (out_of_order_tolerance sender_ratchet_configuration_default) < 2 ^ 31"
    by (simp add: sender_ratchet_configuration_default_def)
  from ratchet_keys_once [OF demo_kdf_total this r] show ?thesis using r demo_kdf_total by blast
qed

lemma used_served:
  "answers_rel cr s0 rs (fst (window_requests cfg (h, used) gs)) \<Longrightarrow>
     snd (snd (window_requests cfg (h, used) gs)) = used \<union> (unat \<circ> fst) ` set (served rs)"
proof (induction gs arbitrary: h used rs)
  case Nil
  then show ?case by (simp add: answers_rel_def)
next
  case (Cons g gs)
  obtain ans h1 used1 where
    req: "window_request (unat (out_of_order_tolerance cfg)) (unat (maximum_forward_distance cfg)) (h, used) (unat g) = (ans, (h1, used1))"
    by (metis surj_pair)
  obtain res rs1 where rs: "rs = (g, res) # rs1" "answer_rel cr s0 res ans"
    "answers_rel cr s0 rs1 (fst (window_requests cfg (h1, used1) gs))"
    using Cons.prems req by (auto simp: answers_rel_def list_all2_Cons2 simp del: window_request.simps)
  have "snd (snd (window_requests cfg (h, used) (g # gs))) = used1 \<union> (unat \<circ> fst) ` set (served rs1)"
    using Cons.IH [OF rs(3)] req by (simp del: window_request.simps)
  moreover have "used1 \<union> (unat \<circ> fst) ` set (served rs1) = used \<union> (unat \<circ> fst) ` set (served rs)"
    using window_request_cases [OF req] rs(1,2) by (cases res; cases ans) auto
  ultimately show ?case by simp
qed

lemma encrypt_from: "kdf_total cr \<Longrightarrow> h + n \<le> u32_max \<Longrightarrow>
    encrypt_requests cr (head_at cr s0 h) n = (map (\<lambda>i. Inr (of_nat i, key_at cr s0 i)) [h..<h + n], head_at cr s0 (h + n))"
proof (induction n arbitrary: h)
  case (Suc n)
  then show ?case by (simp add: ratchet_forward_head upt_conv_Cons del: upt_Suc)
qed simp

text \<open>
  (C22) Sender and receiver agree, and late messages are not lost: after any sequence of decryption requests, a
  generation that has not been handed out, that is at most the out-of-order tolerance behind and at most
  the maximum forward distance ahead, is answered with exactly the key the sender's encryption
  ratchet used for its message of that generation.
\<close>

theorem unused_generation_available:
  assumes "kdf_total cr" and "unat (out_of_order_tolerance cfg) < 2 ^ 31"
    and "decrypt_requests cr cfg (decryption_ratchet_new s0) gs = (rs, d)"
    and "g \<notin> fst ` set (served rs)" and "g \<noteq> - 1"
    and "unat (dr_generation d) \<le> unat g + unat (out_of_order_tolerance cfg)"
    and "unat g \<le> unat (dr_generation d) + unat (maximum_forward_distance cfg)"
  shows "\<exists>km. fst (secret_for_decryption cr cfg g d) = Inr km \<and>
    fst (encrypt_requests cr (initial_ratchet_secret s0) (Suc (unat g))) ! unat g = Inr (g, km)"
proof -
  let ?tol = "unat (out_of_order_tolerance cfg)"
  obtain h used where w: "snd (window_requests cfg (0, {}) gs) = (h, used)" by (metis surj_pair)
  have ref: "answers_rel cr s0 rs (fst (window_requests cfg (0, {}) gs))" and rel: "window_rel cr s0 ?tol d (h, used)"
    using requests_refine [OF assms(1,2) window_rel_new, of s0 gs] assms(3) w by simp_all
  have used: "used = (unat \<circ> fst) ` set (served rs)" using used_served [OF ref] w by simp
  have hm: "h \<le> u32_max" and gen: "dr_generation d = of_nat h" using rel by (auto simp: window_rel_def head_at_def)
  have "unat g < 2 ^ 32" using unsigned_less [of g] by simp
  then have gm: "unat g < u32_max" using assms(5) u32_max_top [of "unat g"] by (auto simp: u32_max_def)
  have "used = unat ` fst ` set (served rs)" by (simp add: used image_comp)
  then have "unat g \<notin> used" using assms(4) by (simp add: inj_image_mem_iff [OF inj_unsigned])
  then have "fst (window_request ?tol (unat (maximum_forward_distance cfg)) (h, used) (unat g)) = Inr (unat g)"
    using assms(6,7) gm by (auto simp: gen u32_max_word [OF hm])
  then have "answer_rel cr s0 (fst (secret_for_decryption cr cfg g d)) (Inr (unat g))"
    using request_refines [OF assms(1,2) rel, of g] by simp
  then have "fst (secret_for_decryption cr cfg g d) = Inr (key_at cr s0 (unat g))"
    by (cases "fst (secret_for_decryption cr cfg g d)") auto
  moreover have "initial_ratchet_secret s0 = head_at cr s0 0" by (simp add: initial_ratchet_secret_def head_at_def)
  then have "fst (encrypt_requests cr (initial_ratchet_secret s0) (Suc (unat g))) ! unat g = Inr (of_nat (unat g), key_at cr s0 (unat g))"
    using encrypt_from [OF assms(1), of 0 "Suc (unat g)"] gm by (simp del: upt_Suc encrypt_requests.simps)
  ultimately show ?thesis by simp
qed

theorem unused_generation_available_witness:
  "\<exists>rs d km. decrypt_requests demo_kdf sender_ratchet_configuration_default (decryption_ratchet_new [7]) [2, 1] = (rs, d) \<and>
     fst (secret_for_decryption demo_kdf sender_ratchet_configuration_default 0 d) = Inr km \<and>
     fst (encrypt_requests demo_kdf (initial_ratchet_secret [7]) 1) ! 0 = Inr (0, km)"
proof -
  let ?cfg = sender_ratchet_configuration_default
  obtain rs d where r: "decrypt_requests demo_kdf ?cfg (decryption_ratchet_new [7]) [2, 1] = (rs, d)"
    by (metis surj_pair)
  have tol: "unat (out_of_order_tolerance ?cfg) < 2 ^ 31"
    by (simp add: sender_ratchet_configuration_default_def)
  have w: "window_requests ?cfg (0, {}) [2, 1] = ([(2, Inr 2), (1, Inr 1)], (3, {1, 2}))"
    by (simp add: sender_ratchet_configuration_default_def u32_max_def)
  have "window_rel demo_kdf [7] (unat (out_of_order_tolerance ?cfg)) d (3, {1, 2})"
    and ans: "answers_rel demo_kdf [7] rs [(2, Inr 2), (1, Inr 1)]"
    using requests_refine [OF demo_kdf_total tol window_rel_new, of "[7]" "[2, 1]"] r w by simp_all
  then have gen: "dr_generation d = 3" by (auto simp: window_rel_def head_at_def)
  have "fst ` set (served rs) \<subseteq> {2, 1}" using ans by (auto simp: answers_rel_def list_all2_Cons2 served_def split: sum.splits)
  then have "0 \<notin> fst ` set (served rs)" by auto
  from unused_generation_available [OF demo_kdf_total tol r this]
  show ?thesis using r gen by (simp add: sender_ratchet_configuration_default_def del: encrypt_requests.simps)
qed

end
