(* ===== verification/Sender_Keys.thy ===== *)
theory Sender_Keys
  imports Interfaces
begin

text \<open>
  The sender keys of the vendored libsignal, on which the sender-keys mode of the Signal benchmark runs:
  the hash chain of a sender, the state a receiver keeps for it
  (\<^verbatim>\<open>libsignal-main/rust/protocol/src/sender_keys.rs\<close>), the record of the last states, and the lookup of a
  message key in \<^verbatim>\<open>group_cipher.rs\<close>. The cryptographic primitives and the protobuf codec are external crates;
  they are the fields of the record \<open>signal_crypto\<close>, an argument of the operations that use them.
\<close>

section \<open>Primitives\<close>

text \<open>
  The bodies of the two wire messages as the protobuf schema has them: every field may be absent.
\<close>

type_synonym uuid = "128 word"

record WireSenderKeyMessage =
  wm_distribution_uuid :: "bytes option"
  wm_chain_id :: "u32 option"
  wm_iteration :: "u32 option"
  wm_ciphertext :: "bytes option"

record WireSenderKeyDistributionMessage =
  wd_distribution_uuid :: "bytes option"
  wd_chain_id :: "u32 option"
  wd_iteration :: "u32 option"
  wd_chain_key :: "bytes option"
  wd_signing_key :: "bytes option"

record signal_crypto =
  hmac_sha256 :: "bytes \<Rightarrow> bytes \<Rightarrow> bytes"
  hkdf_expand :: "bytes \<Rightarrow> string \<Rightarrow> nat \<Rightarrow> bytes"
  cbc_encrypt :: "bytes \<Rightarrow> bytes \<Rightarrow> bytes \<Rightarrow> bytes"
  cbc_decrypt :: "bytes \<Rightarrow> bytes \<Rightarrow> bytes \<Rightarrow> bytes option"
  clamp_integer :: "bytes \<Rightarrow> bytes"
  derive_public_key_bytes :: "bytes \<Rightarrow> bytes"
  xeddsa_sign :: "bytes \<Rightarrow> bytes \<Rightarrow> bytes \<Rightarrow> bytes"
  xeddsa_verify :: "bytes \<Rightarrow> bytes \<Rightarrow> bytes \<Rightarrow> bool"
  uuid_as_bytes :: "uuid \<Rightarrow> bytes"
  uuid_from_slice :: "bytes \<Rightarrow> uuid option"
  skm_encode :: "WireSenderKeyMessage \<Rightarrow> bytes"
  skm_decode :: "bytes \<Rightarrow> WireSenderKeyMessage option"
  skdm_encode :: "WireSenderKeyDistributionMessage \<Rightarrow> bytes"
  skdm_decode :: "bytes \<Rightarrow> WireSenderKeyDistributionMessage option"

section \<open>Keys of the curve\<close>

datatype KeyType = Djb

datatype CurveError = NoKeyTypeIdentifier | BadKeyType u8 | BadKeyLength KeyType nat | InvalidKeyAgreement

datatype PublicKey = DjbPublicKey bytes

datatype PrivateKey = DjbPrivateKey bytes

fun public_deserialize :: "bytes \<Rightarrow> CurveError + PublicKey" where
  "public_deserialize [] = Inl NoKeyTypeIdentifier"
| "public_deserialize (t # value) =
     (if t \<noteq> 5 then Inl (BadKeyType t)
      else if length value < 32 then Inl (BadKeyLength Djb (length value + 1))
      else Inr (DjbPublicKey (take 32 value)))"

fun public_serialize :: "PublicKey \<Rightarrow> bytes" where
  "public_serialize (DjbPublicKey v) = 5 # v"

definition private_deserialize :: "signal_crypto \<Rightarrow> bytes \<Rightarrow> CurveError + PrivateKey" where
  "private_deserialize cr value =
     (if length value \<noteq> 32 then Inl (BadKeyLength Djb (length value))
      else Inr (DjbPrivateKey (clamp_integer cr value)))"

fun private_serialize :: "PrivateKey \<Rightarrow> bytes" where
  "private_serialize (DjbPrivateKey v) = v"

text \<open>The random bytes are an argument.\<close>

definition key_pair_generate :: "signal_crypto \<Rightarrow> bytes \<Rightarrow> PublicKey \<times> PrivateKey" where
  "key_pair_generate cr rnd =
     (let k = clamp_integer cr rnd in (DjbPublicKey (derive_public_key_bytes cr k), DjbPrivateKey k))"

fun calculate_signature :: "signal_crypto \<Rightarrow> PrivateKey \<Rightarrow> bytes \<Rightarrow> bytes \<Rightarrow> bytes" where
  "calculate_signature cr (DjbPrivateKey k) rnd msg = xeddsa_sign cr k rnd msg"

fun public_verify_signature :: "signal_crypto \<Rightarrow> PublicKey \<Rightarrow> bytes \<Rightarrow> bytes \<Rightarrow> bool" where
  "public_verify_signature cr (DjbPublicKey v) msg signature =
     (if length signature \<noteq> 64 then False else xeddsa_verify cr v msg signature)"

section \<open>Errors\<close>

datatype CiphertextMessageType = Whisper | PreKey | SenderKey | Plaintext

text \<open>The key encapsulation methods of the build the benchmark uses (feature \<^verbatim>\<open>kyber768\<close>).\<close>

datatype KemKeyType = Kyber768 | Kyber1024

text \<open>
  The errors of the modelled functions. \<open>CurveFailure\<close> is the conversion of a curve error, one to one; \<open>NoKemKeyType\<close> is
  \<^verbatim>\<open>NoKeyTypeIdentifier\<close> raised for a key of the encapsulation method.
\<close>

datatype SignalProtocolError =
    InvalidArgument string
  | InvalidState string string
  | InvalidProtobufEncoding
  | CiphertextMessageTooShort nat
  | LegacyCiphertextVersion u8
  | UnrecognizedCiphertextVersion u8
  | UnrecognizedMessageVersion u32
  | CurveFailure CurveError
  | SignatureValidationFailed
  | NoSenderKeyState uuid
  | InvalidSenderKeySession uuid
  | DuplicatedMessage u32 u32
  | InvalidMessage CiphertextMessageType string
  | UntrustedIdentity "string \<times> nat"
  | InvalidPreKeyId
  | InvalidSignedPreKeyId
  | InvalidKyberPreKeyId
  | InvalidMacKeyLength nat
  | SessionNotFound "string \<times> nat"
  | InvalidSessionStructure string
  | NoKemKeyType
  | BadKEMKeyType u8
  | WrongKEMKeyType u8 u8
  | BadKEMKeyLength KemKeyType nat
  | BadKEMCiphertextLength KemKeyType nat

section \<open>The chain\<close>

record SenderMessageKey =
  smk_iteration :: u32
  smk_iv :: bytes
  smk_cipher_key :: bytes
  smk_seed :: bytes

definition sender_message_key_new :: "signal_crypto \<Rightarrow> u32 \<Rightarrow> bytes \<Rightarrow> SenderMessageKey" where
  "sender_message_key_new cr iteration seed =
     (let derived = hkdf_expand cr seed ''WhisperGroup'' 48 in
      \<lparr>smk_iteration = iteration, smk_iv = take 16 derived, smk_cipher_key = take 32 (drop 16 derived), smk_seed = seed\<rparr>)"

text \<open>The stored form keeps the iteration and the seed; the key and the vector are derived again.\<close>

definition smk_as_protobuf :: "SenderMessageKey \<Rightarrow> u32 \<times> bytes" where
  "smk_as_protobuf k = (smk_iteration k, smk_seed k)"

definition smk_from_protobuf :: "signal_crypto \<Rightarrow> u32 \<times> bytes \<Rightarrow> SenderMessageKey" where
  "smk_from_protobuf cr p = sender_message_key_new cr (fst p) (snd p)"

record SenderChainKey =
  sck_iteration :: u32
  sck_chain_key :: bytes

definition MESSAGE_KEY_SEED :: u8 where
  "MESSAGE_KEY_SEED = 1"

definition CHAIN_KEY_SEED :: u8 where
  "CHAIN_KEY_SEED = 2"

definition get_derivative :: "signal_crypto \<Rightarrow> SenderChainKey \<Rightarrow> u8 \<Rightarrow> bytes" where
  "get_derivative cr ck lbl = hmac_sha256 cr (sck_chain_key ck) [lbl]"

definition chain_next :: "signal_crypto \<Rightarrow> SenderChainKey \<Rightarrow> SignalProtocolError + SenderChainKey" where
  "chain_next cr ck =
     (if sck_iteration ck = - 1 then Inl (InvalidState ''sender_chain_key_next'' ''Sender chain is too long'')
      else Inr \<lparr>sck_iteration = sck_iteration ck + 1, sck_chain_key = get_derivative cr ck CHAIN_KEY_SEED\<rparr>)"

definition chain_sender_message_key :: "signal_crypto \<Rightarrow> SenderChainKey \<Rightarrow> SenderMessageKey" where
  "chain_sender_message_key cr ck =
     sender_message_key_new cr (sck_iteration ck) (get_derivative cr ck MESSAGE_KEY_SEED)"

section \<open>The state of one chain\<close>

definition MAX_FORWARD_JUMPS :: nat where
  "MAX_FORWARD_JUMPS = 25000"

definition MAX_MESSAGE_KEYS :: nat where
  "MAX_MESSAGE_KEYS = 2000"

definition MAX_SENDER_KEY_STATES :: nat where
  "MAX_SENDER_KEY_STATES = 5"

record SenderSigningKey =
  ssk_public :: bytes
  ssk_private :: bytes

record SenderKeyState =
  sks_message_version :: u32
  sks_chain_id :: u32
  sks_sender_chain_key :: "SenderChainKey option"
  sks_sender_signing_key :: "SenderSigningKey option"
  sks_sender_message_keys :: "(u32 \<times> bytes) list"

definition sender_key_state_new ::
  "u8 \<Rightarrow> u32 \<Rightarrow> u32 \<Rightarrow> bytes \<Rightarrow> PublicKey \<Rightarrow> PrivateKey option \<Rightarrow> SenderKeyState" where
  "sender_key_state_new message_version chain_id iteration chain_key signature_key signature_private_key =
     \<lparr>sks_message_version = ucast message_version, sks_chain_id = chain_id,
      sks_sender_chain_key = Some \<lparr>sck_iteration = iteration, sck_chain_key = chain_key\<rparr>,
      sks_sender_signing_key = Some \<lparr>ssk_public = public_serialize signature_key,
        ssk_private = (case signature_private_key of None \<Rightarrow> [] | Some k \<Rightarrow> private_serialize k)\<rparr>,
      sks_sender_message_keys = []\<rparr>"

definition state_message_version :: "SenderKeyState \<Rightarrow> u32" where
  "state_message_version st = (if sks_message_version st = 0 then 3 else sks_message_version st)"

definition set_sender_chain_key :: "SenderChainKey \<Rightarrow> SenderKeyState \<Rightarrow> SenderKeyState" where
  "set_sender_chain_key ck st = st\<lparr>sks_sender_chain_key := Some ck\<rparr>"

text \<open>Every caller replaces the error of the two accessors by its own, so they are options.\<close>

definition signing_key_public :: "SenderKeyState \<Rightarrow> PublicKey option" where
  "signing_key_public st = (case sks_sender_signing_key st of
       Some k \<Rightarrow> (case public_deserialize (ssk_public k) of Inr p \<Rightarrow> Some p | Inl _ \<Rightarrow> None)
     | None \<Rightarrow> None)"

definition signing_key_private :: "signal_crypto \<Rightarrow> SenderKeyState \<Rightarrow> PrivateKey option" where
  "signing_key_private cr st = (case sks_sender_signing_key st of
       Some k \<Rightarrow> (case private_deserialize cr (ssk_private k) of Inr p \<Rightarrow> Some p | Inl _ \<Rightarrow> None)
     | None \<Rightarrow> None)"

fun drop_oldest :: "nat \<Rightarrow> 'a list \<Rightarrow> 'a list" where
  "drop_oldest limit [] = []"
| "drop_oldest limit (x # xs) = (if limit < length (x # xs) then drop_oldest limit xs else x # xs)"

definition add_sender_message_key :: "SenderMessageKey \<Rightarrow> SenderKeyState \<Rightarrow> SenderKeyState" where
  "add_sender_message_key k st =
     st\<lparr>sks_sender_message_keys := drop_oldest MAX_MESSAGE_KEYS (sks_sender_message_keys st @ [smk_as_protobuf k])\<rparr>"

text \<open>\<^verbatim>\<open>iter().position\<close>: the index of the first element with the property.\<close>

fun position :: "('a \<Rightarrow> bool) \<Rightarrow> 'a list \<Rightarrow> nat option" where
  "position P [] = None"
| "position P (x # xs) = (if P x then Some 0 else map_option Suc (position P xs))"

definition remove_index :: "nat \<Rightarrow> 'a list \<Rightarrow> 'a list" where
  "remove_index i xs = take i xs @ drop (Suc i) xs"

definition remove_sender_message_key ::
  "signal_crypto \<Rightarrow> u32 \<Rightarrow> SenderKeyState \<Rightarrow> SenderMessageKey option \<times> SenderKeyState" where
  "remove_sender_message_key cr iteration st =
     (case position (\<lambda>x. fst x = iteration) (sks_sender_message_keys st) of
        Some index \<Rightarrow> (Some (smk_from_protobuf cr (sks_sender_message_keys st ! index)),
          st\<lparr>sks_sender_message_keys := remove_index index (sks_sender_message_keys st)\<rparr>)
      | None \<Rightarrow> (None, st))"

section \<open>The record of the last chains\<close>

record SenderKeyRecord =
  skr_states :: "SenderKeyState list"

definition sender_key_record_new_empty :: SenderKeyRecord where
  "sender_key_record_new_empty = \<lparr>skr_states = []\<rparr>"

definition sender_key_state :: "SenderKeyRecord \<Rightarrow> SenderKeyState option" where
  "sender_key_state r = (case skr_states r of st # _ \<Rightarrow> Some st | [] \<Rightarrow> None)"

text \<open>The position of the state, which stands for the mutable reference the code returns.\<close>

definition sender_key_state_for_chain_id :: "u32 \<Rightarrow> SenderKeyRecord \<Rightarrow> nat option" where
  "sender_key_state_for_chain_id chain_id r = position (\<lambda>st. sks_chain_id st = chain_id) (skr_states r)"

definition remove_state :: "u32 \<Rightarrow> PublicKey \<Rightarrow> SenderKeyRecord \<Rightarrow> SenderKeyState option \<times> SenderKeyRecord" where
  "remove_state chain_id signature_key r =
     (case position (\<lambda>st. sks_chain_id st = chain_id \<and> signing_key_public st = Some signature_key) (skr_states r) of
        None \<Rightarrow> (None, r)
      | Some index \<Rightarrow> (Some (skr_states r ! index), r\<lparr>skr_states := remove_index index (skr_states r)\<rparr>))"

definition remove_states_with_chain_id :: "u32 \<Rightarrow> SenderKeyRecord \<Rightarrow> nat \<times> SenderKeyRecord" where
  "remove_states_with_chain_id chain_id r =
     (let kept = filter (\<lambda>st. sks_chain_id st \<noteq> chain_id) (skr_states r)
      in (length (skr_states r) - length kept, r\<lparr>skr_states := kept\<rparr>))"

text \<open>Popping from the back while there are at least as many states as allowed leaves one place free.\<close>

definition add_sender_key_state ::
  "u8 \<Rightarrow> u32 \<Rightarrow> u32 \<Rightarrow> bytes \<Rightarrow> PublicKey \<Rightarrow> PrivateKey option \<Rightarrow> SenderKeyRecord \<Rightarrow> SenderKeyRecord" where
  "add_sender_key_state message_version chain_id iteration chain_key signature_key signature_private_key r =
     (case remove_state chain_id signature_key r of
        (existing_state, r1) \<Rightarrow>
          (let r2 = snd (remove_states_with_chain_id chain_id r1);
               st = (case existing_state of
                   None \<Rightarrow> sender_key_state_new message_version chain_id iteration chain_key signature_key signature_private_key
                 | Some st \<Rightarrow> st)
           in r2\<lparr>skr_states := st # take (MAX_SENDER_KEY_STATES - 1) (skr_states r2)\<rparr>))"

section \<open>The key of a message\<close>

text \<open>The loop that moves the chain to the iteration of the message and stores the keys it passes.\<close>

function advance_chain ::
  "signal_crypto \<Rightarrow> u32 \<Rightarrow> SenderChainKey \<Rightarrow> SenderKeyState \<Rightarrow> (SignalProtocolError + SenderChainKey) \<times> SenderKeyState" where
  "advance_chain cr iteration ck st =
     (if sck_iteration ck < iteration then
        (let st1 = add_sender_message_key (chain_sender_message_key cr ck) st in
         case chain_next cr ck of
           Inl e \<Rightarrow> (Inl e, st1)
         | Inr ck1 \<Rightarrow> advance_chain cr iteration ck1 st1)
      else (Inr ck, st))"
  by pat_completeness auto

lemma chain_next_iteration: "chain_next cr ck = Inr ck1 \<Longrightarrow> unat (sck_iteration ck1) = Suc (unat (sck_iteration ck))"
  by (auto simp: chain_next_def u32_suc split: if_splits)

termination advance_chain
  by (relation "measure (\<lambda>(cr, iteration, ck, st). unat iteration - unat (sck_iteration ck))")
    (auto simp: chain_next_iteration word_less_nat_alt)

definition get_sender_key ::
  "signal_crypto \<Rightarrow> SenderKeyState \<Rightarrow> u32 \<Rightarrow> uuid \<Rightarrow> (SignalProtocolError + SenderMessageKey) \<times> SenderKeyState" where
  "get_sender_key cr st iteration distribution_id =
     (case sks_sender_chain_key st of
        None \<Rightarrow> (Inl (InvalidSenderKeySession distribution_id), st)
      | Some ck \<Rightarrow>
          if iteration < sck_iteration ck then
            (case remove_sender_message_key cr iteration st of
               (Some k, st1) \<Rightarrow> (Inr k, st1)
             | (None, st1) \<Rightarrow> (Inl (DuplicatedMessage (sck_iteration ck) iteration), st1))
          else if MAX_FORWARD_JUMPS < unat (iteration - sck_iteration ck) then
            (Inl (InvalidMessage SenderKey ''message from too far into the future''), st)
          else
            (case advance_chain cr iteration ck st of
               (Inl e, st1) \<Rightarrow> (Inl e, st1)
             | (Inr ck1, st1) \<Rightarrow>
                 (case chain_next cr ck1 of
                    Inl e \<Rightarrow> (Inl e, st1)
                  | Inr ck2 \<Rightarrow> (Inr (chain_sender_message_key cr ck1), set_sender_chain_key ck2 st1))))"

declare advance_chain.simps [simp del]

section \<open>The reference: the keys of a chain and which of them are left\<close>

lemma drop_oldest_eq: "drop_oldest n xs = drop (length xs - n) xs"
  by (induction xs) (auto simp: Suc_diff_le not_less)

lemma drop_oldest_append: "drop_oldest n (drop_oldest n xs @ ys) = drop_oldest n (xs @ ys)"
proof (cases "length xs \<le> n")
  case False
  then have "drop_oldest n xs @ ys = drop (length xs - n) (xs @ ys)" by (simp add: drop_oldest_eq)
  then show ?thesis using False by (simp add: drop_oldest_eq add.commute)
qed (simp add: drop_oldest_eq)

lemma drop_oldest_simps [simp]:
  "length xs \<le> n \<Longrightarrow> drop_oldest n xs = xs"
  "length (drop_oldest n xs) = min n (length xs)"
  by (auto simp: drop_oldest_eq)

lemma drop_oldest_map: "drop_oldest n (map f xs) = map f (drop_oldest n xs)"
  by (simp add: drop_oldest_eq drop_map)

lemma set_drop_oldest: "set (drop_oldest n xs) \<subseteq> set xs"
  by (simp add: drop_oldest_eq set_drop_subset)

lemma sorted_drop_oldest: "sorted_wrt P xs \<Longrightarrow> sorted_wrt P (drop_oldest n xs)"
  by (simp add: drop_oldest_eq sorted_wrt_drop)

lemma sorted_wrt_remove1: "sorted_wrt P xs \<Longrightarrow> sorted_wrt P (remove1 x xs)"
  by (induction xs) (auto dest: notin_set_remove1)

lemma position_map: "position P (map f xs) = position (\<lambda>x. P (f x)) xs"
  by (induction xs) auto

lemma position_cong: "(\<And>x. x \<in> set xs \<Longrightarrow> P x = Q x) \<Longrightarrow> position P xs = position Q xs"
  by (induction xs) auto

lemma position_None: "position P xs = None \<longleftrightarrow> (\<forall>x \<in> set xs. \<not> P x)"
  by (induction xs) auto

lemma position_Some: "position P xs = Some i \<Longrightarrow> i < length xs \<and> P (xs ! i)"
  by (induction xs arbitrary: i) (auto split: if_splits)

lemma position_member:
  "x \<in> set xs \<Longrightarrow> \<exists>i. position (\<lambda>y. y = x) xs = Some i \<and> i < length xs \<and> xs ! i = x \<and> remove_index i xs = remove1 x xs"
proof (induction xs)
  case (Cons y xs)
  show ?case
  proof (cases "y = x")
    case False
    then obtain i where "position (\<lambda>y. y = x) xs = Some i" "i < length xs" "xs ! i = x" "remove_index i xs = remove1 x xs"
      using Cons by auto
    then show ?thesis using False by (auto simp: remove_index_def)
  qed (simp add: remove_index_def)
qed simp

lemma remove_index_map: "remove_index i (map f xs) = map f (remove_index i xs)"
  by (simp add: remove_index_def take_map drop_map)

fun chain_from :: "signal_crypto \<Rightarrow> bytes \<Rightarrow> nat \<Rightarrow> bytes" where
  "chain_from cr c0 0 = c0"
| "chain_from cr c0 (Suc n) = hmac_sha256 cr (chain_from cr c0 n) [CHAIN_KEY_SEED]"

text \<open>The chain that starts with the key \<open>c0\<close> at iteration \<open>i0\<close>, and its message keys.\<close>

definition chain_state :: "signal_crypto \<Rightarrow> nat \<Rightarrow> bytes \<Rightarrow> nat \<Rightarrow> SenderChainKey" where
  "chain_state cr i0 c0 i = \<lparr>sck_iteration = of_nat i, sck_chain_key = chain_from cr c0 (i - i0)\<rparr>"

definition message_key_at :: "signal_crypto \<Rightarrow> nat \<Rightarrow> bytes \<Rightarrow> nat \<Rightarrow> SenderMessageKey" where
  "message_key_at cr i0 c0 i = chain_sender_message_key cr (chain_state cr i0 c0 i)"

text \<open>
  The abstract receiver: the next iteration of the sender and the earlier iterations whose keys are kept. The answer to a
  request is the iteration whose key is returned; a refused request changes nothing.
\<close>

type_synonym receiver = "nat \<times> nat list"

fun key_request :: "receiver \<Rightarrow> nat \<Rightarrow> (SignalProtocolError + nat) \<times> receiver" where
  "key_request (h, kept) g =
     (if g < h then
        (if g \<in> set kept then (Inr g, (h, remove1 g kept))
         else (Inl (DuplicatedMessage (of_nat h) (of_nat g)), (h, kept)))
      else if MAX_FORWARD_JUMPS < g - h then
        (Inl (InvalidMessage SenderKey ''message from too far into the future''), (h, kept))
      else if g = u32_max then
        (Inl (InvalidState ''sender_chain_key_next'' ''Sender chain is too long''), (h, kept))
      else (Inr g, (Suc g, drop_oldest MAX_MESSAGE_KEYS (kept @ [h..<g]))))"

definition chain_rel :: "signal_crypto \<Rightarrow> nat \<Rightarrow> bytes \<Rightarrow> SenderKeyState \<Rightarrow> receiver \<Rightarrow> bool" where
  "chain_rel cr i0 c0 st w \<longleftrightarrow>
     (case w of (h, kept) \<Rightarrow>
        i0 \<le> h \<and> h \<le> u32_max \<and> sks_sender_chain_key st = Some (chain_state cr i0 c0 h) \<and>
        sks_sender_message_keys st = map (\<lambda>i. smk_as_protobuf (message_key_at cr i0 c0 i)) kept \<and>
        sorted_wrt (<) kept \<and> set kept \<subseteq> {i0..<h} \<and> length kept \<le> MAX_MESSAGE_KEYS)"

text \<open>A state as it is kept from one message to the next: the group cipher stores it back only when it succeeds.\<close>

definition kept_sender_key ::
  "signal_crypto \<Rightarrow> uuid \<Rightarrow> SenderKeyState \<Rightarrow> u32 \<Rightarrow> (SignalProtocolError + SenderMessageKey) \<times> SenderKeyState" where
  "kept_sender_key cr distribution_id st iteration =
     (case get_sender_key cr st iteration distribution_id of
        (Inl e, _) \<Rightarrow> (Inl e, st)
      | (Inr k, st1) \<Rightarrow> (Inr k, st1))"

lemma chain_next_state:
  "i0 \<le> h \<Longrightarrow> h \<le> u32_max \<Longrightarrow> chain_next cr (chain_state cr i0 c0 h) =
     (if h = u32_max then Inl (InvalidState ''sender_chain_key_next'' ''Sender chain is too long'')
      else Inr (chain_state cr i0 c0 (Suc h)))"
  using u32_max_top [of h] by (auto simp: chain_next_def chain_state_def get_derivative_def Suc_diff_le)

lemma message_key_seed: "fst (smk_as_protobuf (message_key_at cr i0 c0 i)) = of_nat i"
  by (simp add: message_key_at_def smk_as_protobuf_def chain_sender_message_key_def sender_message_key_new_def
      chain_state_def Let_def)

lemma message_key_restored: "smk_from_protobuf cr (smk_as_protobuf (message_key_at cr i0 c0 i)) = message_key_at cr i0 c0 i"
  by (simp add: message_key_at_def smk_as_protobuf_def smk_from_protobuf_def chain_sender_message_key_def
      sender_message_key_new_def Let_def)

lemma state_update_keys [simp]:
  "st\<lparr>sks_sender_message_keys := xs, sks_sender_message_keys := ys\<rparr> = st\<lparr>sks_sender_message_keys := ys\<rparr>"
  "st\<lparr>sks_sender_message_keys := sks_sender_message_keys st\<rparr> = st"
  by simp_all

lemma advance_chain_state:
  assumes "i0 \<le> h" and "h \<le> g" and "g \<le> u32_max" and "length (sks_sender_message_keys st) \<le> MAX_MESSAGE_KEYS"
  shows "advance_chain cr (of_nat g) (chain_state cr i0 c0 h) st =
    (Inr (chain_state cr i0 c0 g), st\<lparr>sks_sender_message_keys := drop_oldest MAX_MESSAGE_KEYS
       (sks_sender_message_keys st @ map (\<lambda>i. smk_as_protobuf (message_key_at cr i0 c0 i)) [h..<g])\<rparr>)"
  using assms
proof (induction "g - h" arbitrary: h st)
  case 0
  then show ?case by (subst advance_chain.simps) (simp add: chain_state_def)
next
  case (Suc n)
  let ?st = "add_sender_message_key (message_key_at cr i0 c0 h) st"
  have lt: "sck_iteration (chain_state cr i0 c0 h) < of_nat g"
    using Suc by (simp add: chain_state_def word_less_nat_alt u32_max_word)
  have nx: "chain_next cr (chain_state cr i0 c0 h) = Inr (chain_state cr i0 c0 (Suc h))"
    using Suc by (simp add: chain_next_state)
  have "advance_chain cr (of_nat g) (chain_state cr i0 c0 h) st = advance_chain cr (of_nat g) (chain_state cr i0 c0 (Suc h)) ?st"
    by (subst advance_chain.simps) (simp only: lt if_True nx Let_def sum.case message_key_at_def)
  also have "\<dots> = (Inr (chain_state cr i0 c0 g), ?st\<lparr>sks_sender_message_keys := drop_oldest MAX_MESSAGE_KEYS
       (sks_sender_message_keys ?st @ map (\<lambda>i. smk_as_protobuf (message_key_at cr i0 c0 i)) [Suc h..<g])\<rparr>)"
    using Suc(1) [of "Suc h" ?st] Suc(2-) by (simp add: add_sender_message_key_def del: map_map)
  also have "\<dots> = (Inr (chain_state cr i0 c0 g), st\<lparr>sks_sender_message_keys := drop_oldest MAX_MESSAGE_KEYS
       (sks_sender_message_keys st @ map (\<lambda>i. smk_as_protobuf (message_key_at cr i0 c0 i)) [h..<g])\<rparr>)"
  proof -
    have "[h..<g] = h # [Suc h..<g]" using Suc(2) by (simp add: upt_conv_Cons)
    then show ?thesis by (simp add: add_sender_message_key_def drop_oldest_append)
  qed
  finally show ?case .
qed

lemma kept_key_removed:
  assumes "chain_rel cr i0 c0 st (h, kept)" and "g < h"
  shows "remove_sender_message_key cr (of_nat g) st =
    (if g \<in> set kept then (Some (message_key_at cr i0 c0 g),
        st\<lparr>sks_sender_message_keys := map (\<lambda>i. smk_as_protobuf (message_key_at cr i0 c0 i)) (remove1 g kept)\<rparr>)
     else (None, st))"
proof -
  let ?F = "\<lambda>i. smk_as_protobuf (message_key_at cr i0 c0 i)"
  have ks: "sks_sender_message_keys st = map ?F kept" and hm: "h \<le> u32_max" "set kept \<subseteq> {i0..<h}"
    using assms by (simp_all add: chain_rel_def)
  have pos: "position (\<lambda>x. fst x = of_nat g) (map ?F kept) = position (\<lambda>i. i = g) kept"
    unfolding position_map message_key_seed
  proof (rule position_cong)
    fix i assume "i \<in> set kept"
    then have "i \<le> u32_max" "g \<le> u32_max" using hm assms(2) by auto
    then show "((of_nat i :: u32) = of_nat g) = (i = g)" by (metis u32_max_word)
  qed
  show ?thesis
  proof (cases "g \<in> set kept")
    case True
    then obtain i where "position (\<lambda>y. y = g) kept = Some i" "i < length kept" "kept ! i = g" "remove_index i kept = remove1 g kept"
      using position_member [OF True] by blast
    then show ?thesis using True
      by (simp add: remove_sender_message_key_def ks pos message_key_restored remove_index_map del: map_map)
  next
    case False
    then have "position (\<lambda>y. y = g) kept = None" by (auto simp: position_None)
    then show ?thesis using False by (simp add: remove_sender_message_key_def ks pos)
  qed
qed

lemma forward_kept:
  assumes "sorted_wrt (<) kept" and "set kept \<subseteq> {i0..<h}" and "i0 \<le> h" and "h \<le> n"
  shows "sorted_wrt (<) (drop_oldest m (kept @ [h..<n])) \<and> set (drop_oldest m (kept @ [h..<n])) \<subseteq> {i0..<Suc n}"
proof
  show "sorted_wrt (<) (drop_oldest m (kept @ [h..<n]))"
    using assms by (intro sorted_drop_oldest) (auto simp: sorted_wrt_append)
  have "set (kept @ [h..<n]) \<subseteq> {i0..<Suc n}" using assms by auto
  then show "set (drop_oldest m (kept @ [h..<n])) \<subseteq> {i0..<Suc n}" by (rule subset_trans [OF set_drop_oldest])
qed

fun key_answer :: "signal_crypto \<Rightarrow> nat \<Rightarrow> bytes \<Rightarrow> SignalProtocolError + nat \<Rightarrow> SignalProtocolError + SenderMessageKey" where
  "key_answer cr i0 c0 (Inl e) = Inl e"
| "key_answer cr i0 c0 (Inr i) = Inr (message_key_at cr i0 c0 i)"

lemma kept_sender_key_refines:
  assumes rel: "chain_rel cr i0 c0 st (h, kept)" and req: "key_request (h, kept) (unat g) = (ans, w)"
  shows "fst (kept_sender_key cr d st g) = key_answer cr i0 c0 ans \<and> chain_rel cr i0 c0 (snd (kept_sender_key cr d st g)) w"
proof -
  define n where "n = unat g"
  have g: "g = of_nat n" "n \<le> u32_max" using u32_bound [of g] by (simp_all add: n_def u32_max_def)
  have r: "i0 \<le> h" "h \<le> u32_max" "sks_sender_chain_key st = Some (chain_state cr i0 c0 h)"
      "length (sks_sender_message_keys st) \<le> MAX_MESSAGE_KEYS"
    using rel by (simp_all add: chain_rel_def)
  have it: "sck_iteration (chain_state cr i0 c0 h) = of_nat h" by (simp add: chain_state_def)
  have lt: "of_nat n < (of_nat h :: u32) \<longleftrightarrow> n < h" using g r by (simp add: word_less_nat_alt u32_max_word)
  show ?thesis
  proof (cases "n < h")
    case True
    then show ?thesis using req rel kept_key_removed [OF rel True] unfolding n_def [symmetric]
      by (auto simp: kept_sender_key_def get_sender_key_def r it lt g(1) chain_rel_def sorted_wrt_remove1 length_remove1
          dest: notin_set_remove1 split: if_splits)
  next
    case False
    then have jump: "unat (of_nat n - of_nat h :: u32) = n - h"
      using g r by (subst unat_sub) (simp_all add: word_le_nat_alt u32_max_word)
    have adv: "advance_chain cr (of_nat n) (chain_state cr i0 c0 h) st = (Inr (chain_state cr i0 c0 n),
        st\<lparr>sks_sender_message_keys := drop_oldest MAX_MESSAGE_KEYS
          (sks_sender_message_keys st @ map (\<lambda>i. smk_as_protobuf (message_key_at cr i0 c0 i)) [h..<n])\<rparr>)"
      using advance_chain_state [OF r(1) _ g(2) r(4)] False by simp
    have nx: "chain_next cr (chain_state cr i0 c0 n) =
        (if n = u32_max then Inl (InvalidState ''sender_chain_key_next'' ''Sender chain is too long'')
         else Inr (chain_state cr i0 c0 (Suc n)))"
      using chain_next_state [of i0 n] False r g by simp
    show ?thesis
    proof (cases "n - h \<le> MAX_FORWARD_JUMPS \<and> n \<noteq> u32_max")
      case True
      then have "kept_sender_key cr d st g = (Inr (message_key_at cr i0 c0 n), set_sender_chain_key (chain_state cr i0 c0 (Suc n))
          (st\<lparr>sks_sender_message_keys := drop_oldest MAX_MESSAGE_KEYS
             (sks_sender_message_keys st @ map (\<lambda>i. smk_as_protobuf (message_key_at cr i0 c0 i)) [h..<n])\<rparr>))"
        using False r g adv nx by (simp add: kept_sender_key_def get_sender_key_def it lt jump message_key_at_def)
      moreover have "ans = Inr n" "w = (Suc n, drop_oldest MAX_MESSAGE_KEYS (kept @ [h..<n]))"
        using req False True by (simp_all add: n_def)
      moreover have "sorted_wrt (<) (drop_oldest MAX_MESSAGE_KEYS (kept @ [h..<n]))"
          "set (drop_oldest MAX_MESSAGE_KEYS (kept @ [h..<n])) \<subseteq> {i0..<Suc n}"
        using forward_kept [of kept i0 h n] rel False by (simp_all add: chain_rel_def)
      ultimately show ?thesis using rel False True g(2)
        by (simp add: chain_rel_def set_sender_chain_key_def drop_oldest_map [symmetric])
    next
      case far: False
      show ?thesis
      proof (cases "MAX_FORWARD_JUMPS < n - h")
        case True
        then show ?thesis using False rel r req unfolding n_def [symmetric]
          by (auto simp: kept_sender_key_def get_sender_key_def it lt jump g(1))
      next
        case near: False
        then have top: "n = u32_max" using far by simp
        then have "chain_next cr (chain_state cr i0 c0 n) = Inl (InvalidState ''sender_chain_key_next'' ''Sender chain is too long'')"
          using nx by simp
        then have "kept_sender_key cr d st g = (Inl (InvalidState ''sender_chain_key_next'' ''Sender chain is too long''), st)"
          using False near r adv by (simp add: kept_sender_key_def get_sender_key_def it lt jump g(1))
        moreover have "ans = Inl (InvalidState ''sender_chain_key_next'' ''Sender chain is too long'')" "w = (h, kept)"
          using req False near top unfolding n_def [symmetric] by auto
        ultimately show ?thesis using rel by simp
      qed
    qed
  qed
qed

section \<open>Sequences of requests\<close>

lemma chain_rel_new:
  "chain_rel cr (unat i0) c0 (sender_key_state_new v cid i0 c0 pk sk) (unat i0, [])"
  using u32_bound [of i0] by (simp add: chain_rel_def sender_key_state_new_def chain_state_def u32_max_def)

abbreviation requested_keys ::
  "signal_crypto \<Rightarrow> uuid \<Rightarrow> SenderKeyState \<Rightarrow> u32 list \<Rightarrow> (u32 \<times> (SignalProtocolError + SenderMessageKey)) list \<times> SenderKeyState" where
  "requested_keys cr d \<equiv> serve_all (kept_sender_key cr d)"

abbreviation receiver_requests :: "receiver \<Rightarrow> u32 list \<Rightarrow> (u32 \<times> (SignalProtocolError + nat)) list \<times> receiver" where
  "receiver_requests \<equiv> serve_all (\<lambda>w g. key_request w (unat g))"

lemma requested_keys_refine:
  "chain_rel cr i0 c0 st w \<Longrightarrow>
     fst (requested_keys cr d st gs) = map (map_prod id (key_answer cr i0 c0)) (fst (receiver_requests w gs)) \<and>
     chain_rel cr i0 c0 (snd (requested_keys cr d st gs)) (snd (receiver_requests w gs))"
proof (induction gs arbitrary: st w)
  case (Cons g gs)
  obtain h kept where w: "w = (h, kept)" by (cases w)
  obtain ans w1 where req: "key_request (h, kept) (unat g) = (ans, w1)" by (metis surj_pair)
  obtain res st1 where r: "kept_sender_key cr d st g = (res, st1)" by (metis surj_pair)
  have "res = key_answer cr i0 c0 ans" "chain_rel cr i0 c0 st1 w1"
    using kept_sender_key_refines [OF Cons.prems [unfolded w] req, of d] r by simp_all
  then show ?case using Cons.IH [of st1 w1] by (simp add: w req r del: key_request.simps)
qed simp

text \<open>
  (C13) A receiver that took over a chain at iteration \<open>i0\<close> answers any sequence of requests as the abstract receiver
  does: the next iteration and later ones up to 25000 ahead, the kept earlier ones once each, the 2000 most recent skipped ones
  being kept, and every other request refused. Each key handed out is the one the chain has at that iteration.
\<close>

theorem sender_key_refines_receiver:
  "fst (requested_keys cr d (sender_key_state_new v cid i0 c0 pk sk) gs) =
     map (map_prod id (key_answer cr (unat i0) c0)) (fst (receiver_requests (unat i0, []) gs))"
  using requested_keys_refine [OF chain_rel_new] by blast

text \<open>What the state can still hand out.\<close>

definition sender_key_openings :: "SenderKeyState \<Rightarrow> u32 set" where
  "sender_key_openings st =
     {g. (\<exists>ck. sks_sender_chain_key st = Some ck \<and> sck_iteration ck \<le> g)} \<union> fst ` set (sks_sender_message_keys st)"

lemma sender_key_openings_rel:
  assumes "chain_rel cr i0 c0 st (h, kept)"
  shows "g \<in> sender_key_openings st \<longleftrightarrow> h \<le> unat g \<or> unat g \<in> set kept"
proof -
  have r: "h \<le> u32_max" "set kept \<subseteq> {i0..<h}" using assms by (simp_all add: chain_rel_def)
  have "g \<in> (of_nat :: nat \<Rightarrow> u32) ` set kept \<longleftrightarrow> unat g \<in> set kept"
  proof
    assume "g \<in> of_nat ` set kept"
    then obtain i where i: "i \<in> set kept" "g = of_nat i" by blast
    then have "unat g = i" using r u32_max_word [of i] by fastforce
    then show "unat g \<in> set kept" using i by simp
  next
    assume "unat g \<in> set kept"
    then have "of_nat (unat g) \<in> (of_nat :: nat \<Rightarrow> u32) ` set kept" by (rule imageI)
    then show "g \<in> of_nat ` set kept" by simp
  qed
  then show ?thesis using assms r
    by (simp add: sender_key_openings_def chain_rel_def chain_state_def word_le_nat_alt u32_max_word image_image message_key_seed)
qed

lemma sender_key_step:
  assumes "chain_rel cr i0 c0 st w" and "kept_sender_key cr d st g = (res, st1)"
  shows "(\<exists>w. chain_rel cr i0 c0 st1 w) \<and>
    (case res of Inl e \<Rightarrow> sender_key_openings st1 \<subseteq> sender_key_openings st
     | Inr k \<Rightarrow> k = message_key_at cr i0 c0 (unat g) \<and> g \<in> sender_key_openings st \<and>
         sender_key_openings st1 \<subseteq> sender_key_openings st - {g})"
proof -
  obtain h kept where w: "w = (h, kept)" by (cases w)
  obtain ans h1 kept1 where req: "key_request (h, kept) (unat g) = (ans, (h1, kept1))" by (metis surj_pair)
  have rel: "chain_rel cr i0 c0 st (h, kept)" using assms(1) w by simp
  have res: "res = key_answer cr i0 c0 ans" and rel1: "chain_rel cr i0 c0 st1 (h1, kept1)"
    using kept_sender_key_refines [OF rel req, of d] assms(2) by simp_all
  have srt: "distinct kept" "set kept \<subseteq> {..<h}" using rel by (auto simp: chain_rel_def strict_sorted_iff)
  note op = sender_key_openings_rel [OF rel] sender_key_openings_rel [OF rel1]
  have new: "set (drop_oldest MAX_MESSAGE_KEYS (kept @ [h..<unat g])) \<subseteq> set kept \<union> {h..<unat g}"
    using set_drop_oldest [of MAX_MESSAGE_KEYS "kept @ [h..<unat g]"] by simp
  show ?thesis
  proof (cases ans)
    case (Inl e)
    then have "h1 = h" "kept1 = kept" using req by (auto split: if_splits)
    then have "sender_key_openings st1 = sender_key_openings st" using op by blast
    then show ?thesis using rel1 res Inl by auto
  next
    case (Inr i)
    then have i: "i = unat g" using req by (auto split: if_splits)
    have "g \<in> sender_key_openings st" using req Inr by (auto simp: op split: if_splits)
    moreover have "sender_key_openings st1 \<subseteq> sender_key_openings st - {g}"
    proof
      fix x assume x: "x \<in> sender_key_openings st1"
      then have "h \<le> unat x \<or> unat x \<in> set kept" "unat x \<noteq> unat g"
        using req Inr srt new by (auto simp: op split: if_splits)
      then show "x \<in> sender_key_openings st - {g}" by (auto simp: op)
    qed
    ultimately show ?thesis using rel1 res Inr i by auto
  qed
qed

interpretation signal_chain: once_store "kept_sender_key cr d" "\<lambda>st. \<exists>w. chain_rel cr i0 c0 st w" sender_key_openings
  "\<lambda>g. message_key_at cr i0 c0 (unat g)"
  for cr d i0 c0
  by unfold_locales (use sender_key_step in \<open>fastforce+\<close>)

text \<open>
  No message key of a sender chain is handed out twice: in any sequence of requests the successful ones are
  for distinct iterations, none before the iteration at which the receiver took the chain over, each answered with the key of
  its iteration.
\<close>

theorem sender_keys_once:
  assumes "requested_keys cr d (sender_key_state_new v cid i0 c0 pk sk) gs = (rs, st)"
  shows "distinct (map fst (served rs)) \<and>
    (\<forall>(g, k) \<in> set (served rs). i0 \<le> g \<and> k = message_key_at cr (unat i0) c0 (unat g))"
proof -
  have ok: "\<exists>w. chain_rel cr (unat i0) c0 (sender_key_state_new v cid i0 c0 pk sk) w" using chain_rel_new by blast
  have "sender_key_openings (sender_key_state_new v cid i0 c0 pk sk) = {i0..}"
    by (auto simp: sender_key_openings_def sender_key_state_new_def)
  then show ?thesis using signal_chain.served_in_order [OF ok assms] by fastforce
qed

section \<open>An instance of the primitives\<close>

text \<open>
  Documented behaviour of the primitives the group cipher relies on: output lengths, decryption inverts encryption,
  signatures verify, clamping is idempotent, and the codecs read back what they write.
\<close>

definition crypto_laws :: "signal_crypto \<Rightarrow> bool" where
  "crypto_laws cr \<longleftrightarrow>
     (\<forall>k m. length (hmac_sha256 cr k m) = 32) \<and>
     (\<forall>s i n. length (hkdf_expand cr s i n) = n) \<and>
     (\<forall>k iv p. length k = 32 \<longrightarrow> length iv = 16 \<longrightarrow>
        cbc_encrypt cr k iv p \<noteq> [] \<and> length (cbc_encrypt cr k iv p) mod 16 = 0 \<and>
        cbc_decrypt cr k iv (cbc_encrypt cr k iv p) = Some p) \<and>
     (\<forall>k. length k = 32 \<longrightarrow> length (clamp_integer cr k) = 32 \<and> clamp_integer cr (clamp_integer cr k) = clamp_integer cr k) \<and>
     (\<forall>k. length (derive_public_key_bytes cr k) = 32) \<and>
     (\<forall>k r m. length (xeddsa_sign cr k r m) = 64 \<and> xeddsa_verify cr (derive_public_key_bytes cr k) m (xeddsa_sign cr k r m)) \<and>
     (\<forall>u. uuid_from_slice cr (uuid_as_bytes cr u) = Some u) \<and>
     (\<forall>m. skm_decode cr (skm_encode cr m) = Some m) \<and>
     (\<forall>m. skdm_decode cr (skdm_encode cr m) = Some m \<and> 64 \<le> length (skdm_encode cr m))"

fun enc_bytes :: "bytes \<Rightarrow> bytes" where
  "enc_bytes [] = [0]"
| "enc_bytes (b # bs) = 1 # b # enc_bytes bs"

fun dec_bytes :: "bytes \<Rightarrow> bytes \<times> bytes" where
  "dec_bytes (t # b # r) = (if t = 0 then ([], b # r) else apfst (Cons b) (dec_bytes r))"
| "dec_bytes [t] = ([], [])"
| "dec_bytes [] = ([], [])"

lemma dec_enc_bytes: "dec_bytes (enc_bytes bs @ r) = (bs, r)"
  by (induction bs) (cases r; simp)+

definition enc_opt :: "bytes option \<Rightarrow> bytes" where
  "enc_opt x = (case x of None \<Rightarrow> [0] | Some bs \<Rightarrow> 1 # enc_bytes bs)"

definition dec_opt :: "bytes \<Rightarrow> bytes option \<times> bytes" where
  "dec_opt bs = (case bs of [] \<Rightarrow> (None, []) | t # r \<Rightarrow> if t = 0 then (None, r) else apfst Some (dec_bytes r))"

lemma dec_enc_opt [simp]: "dec_opt (enc_opt x @ r) = (x, r)"
  by (cases x) (simp_all add: enc_opt_def dec_opt_def dec_enc_bytes)

definition word_bits :: "'a::len word \<Rightarrow> bytes" where
  "word_bits w = map (\<lambda>i. of_bool (bit w i)) [0..<LENGTH('a)]"

definition bits_word :: "bytes \<Rightarrow> 'a::len word" where
  "bits_word bs = horner_sum of_bool 2 (map (\<lambda>b. b = 1) bs)"

lemma bits_word_bits [simp]: "bits_word (word_bits w) = w"
  by (simp add: bits_word_def word_bits_def comp_def horner_sum_bit_eq_take_bit)

definition demo_crypto :: signal_crypto where
  "demo_crypto =
     \<lparr>hmac_sha256 = \<lambda>k m. take 32 (m @ k @ replicate 32 0),
      hkdf_expand = \<lambda>s i n. take n (s @ replicate n 0),
      cbc_encrypt = \<lambda>k iv p. p @ replicate (16 - length p mod 16) (of_nat (16 - length p mod 16)),
      cbc_decrypt = \<lambda>k iv c. if c = [] then None else Some (take (length c - unat (last c)) c),
      clamp_integer = \<lambda>k. k,
      derive_public_key_bytes = \<lambda>k. take 32 (k @ replicate 32 0),
      xeddsa_sign = \<lambda>k r m. replicate 64 0,
      xeddsa_verify = \<lambda>k m s. s = replicate 64 0,
      uuid_as_bytes = word_bits,
      uuid_from_slice = \<lambda>bs. Some (bits_word bs),
      skm_encode = \<lambda>m. enc_opt (wm_distribution_uuid m) @ enc_opt (map_option word_bits (wm_chain_id m)) @
        enc_opt (map_option word_bits (wm_iteration m)) @ enc_opt (wm_ciphertext m),
      skm_decode = \<lambda>bs. case dec_opt bs of (u, r) \<Rightarrow> case dec_opt r of (c, r) \<Rightarrow> case dec_opt r of (i, r) \<Rightarrow>
        Some \<lparr>wm_distribution_uuid = u, wm_chain_id = map_option bits_word c, wm_iteration = map_option bits_word i,
          wm_ciphertext = fst (dec_opt r)\<rparr>,
      skdm_encode = \<lambda>m. enc_opt (wd_distribution_uuid m) @ enc_opt (map_option word_bits (wd_chain_id m)) @
        enc_opt (map_option word_bits (wd_iteration m)) @ enc_opt (wd_chain_key m) @ enc_opt (wd_signing_key m) @ replicate 64 0,
      skdm_decode = \<lambda>bs. case dec_opt bs of (u, r) \<Rightarrow> case dec_opt r of (c, r) \<Rightarrow> case dec_opt r of (i, r) \<Rightarrow>
        case dec_opt r of (k, r) \<Rightarrow>
        Some \<lparr>wd_distribution_uuid = u, wd_chain_id = map_option bits_word c, wd_iteration = map_option bits_word i,
          wd_chain_key = k, wd_signing_key = fst (dec_opt r)\<rparr>\<rparr>"

lemma demo_padding:
  "length (p @ replicate (16 - length p mod 16) x) mod 16 = 0"
  "replicate (16 - length p mod 16) (x :: u8) \<noteq> []"
  "unat (of_nat (16 - length p mod 16) :: u8) = 16 - length p mod 16"
proof -
  have "(n + (16 - n mod 16)) mod 16 = 0" for n :: nat by presburger
  then show "length (p @ replicate (16 - length p mod 16) x) mod 16 = 0" by simp
  have "16 - length p mod 16 < 256" "0 < 16 - length p mod 16" by simp_all
  then show "replicate (16 - length p mod 16) (x :: u8) \<noteq> []"
    "unat (of_nat (16 - length p mod 16) :: u8) = 16 - length p mod 16"
    by (simp_all only: unat_of_nat) (simp_all add: take_bit_nat_eq_self del: of_nat_diff)
qed

lemma dec_enc_opt_end [simp]: "dec_opt (enc_opt x) = (x, [])"
  using dec_enc_opt [of x "[]"] by simp

lemma demo_crypto_laws: "crypto_laws demo_crypto"
proof -
  have cbc: "cbc_encrypt demo_crypto k iv p \<noteq> [] \<and> length (cbc_encrypt demo_crypto k iv p) mod 16 = 0 \<and>
      cbc_decrypt demo_crypto k iv (cbc_encrypt demo_crypto k iv p) = Some p" for k iv p
  proof -
    define n where "n = 16 - length p mod 16"
    have "cbc_encrypt demo_crypto k iv p = p @ replicate n (of_nat n)" by (simp add: demo_crypto_def n_def)
    moreover have "0 < n" by (simp add: n_def)
    moreover have "length (p @ replicate n (of_nat n :: u8)) mod 16 = 0" unfolding n_def by (rule demo_padding)
    moreover have "unat (of_nat n :: u8) = n" unfolding n_def by (rule demo_padding)
    ultimately show ?thesis by (simp add: demo_crypto_def)
  qed
  have len: "length (hmac_sha256 demo_crypto k m) = 32" "length (hkdf_expand demo_crypto s i n) = n"
      "length (derive_public_key_bytes demo_crypto k) = 32" for k m s i n
    by (auto simp: demo_crypto_def min_def)
  show ?thesis unfolding crypto_laws_def
    by (intro conjI allI impI len cbc [THEN conjunct1] cbc [THEN conjunct2, THEN conjunct1] cbc [THEN conjunct2, THEN conjunct2])
      (simp_all add: demo_crypto_def option.map_comp comp_def option.map_ident)
qed

theorem sender_keys_once_witness:
  "\<exists>rs st. requested_keys demo_crypto 9 (sender_key_state_new 3 7 0 [1] (DjbPublicKey []) None) [2, 0, 2] = (rs, st) \<and>
     distinct (map fst (served rs)) \<and> map fst (served rs) = [2, 0]"
proof -
  obtain rs st where r: "requested_keys demo_crypto 9 (sender_key_state_new 3 7 0 [1] (DjbPublicKey []) None) [2, 0, 2] = (rs, st)"
    by (metis surj_pair)
  have "fst (requested_keys demo_crypto 9 (sender_key_state_new 3 7 0 [1] (DjbPublicKey []) None) [2, 0, 2]) =
      map (map_prod id (key_answer demo_crypto (unat (0 :: u32)) [1])) (fst (receiver_requests (unat (0 :: u32), []) [2, 0, 2]))"
    by (rule requested_keys_refine [OF chain_rel_new, THEN conjunct1])
  then have "map fst (served rs) = [2, 0]"
    unfolding r by (simp add: MAX_FORWARD_JUMPS_def MAX_MESSAGE_KEYS_def u32_max_def upt_rec)
  then show ?thesis using sender_keys_once [OF r, THEN conjunct1] r by auto
qed

end
