(* ===== verification/Group_Cipher.thy ===== *)
theory Group_Cipher
  imports Sender_Keys
begin

text \<open>
  The group cipher of the vendored libsignal (\<^verbatim>\<open>rust/protocol/src/group_cipher.rs\<close>): creating and processing the
  distribution of a sender key, encrypting for the group and decrypting, over the wire messages of \<^verbatim>\<open>protocol.rs\<close> and the
  in-memory store of \<^verbatim>\<open>storage/inmem.rs\<close>. Random values are arguments.
\<close>

section \<open>AES\<close>

datatype DecryptionError = BadKeyOrIv | BadCiphertext string

text \<open>\<open>None\<close> is the only encryption error, a key or vector of the wrong length.\<close>

definition aes_256_cbc_encrypt :: "signal_crypto \<Rightarrow> bytes \<Rightarrow> bytes \<Rightarrow> bytes \<Rightarrow> bytes option" where
  "aes_256_cbc_encrypt cr ptext key iv =
     (if length key \<noteq> 32 \<or> length iv \<noteq> 16 then None else Some (cbc_encrypt cr key iv ptext))"

definition aes_256_cbc_decrypt :: "signal_crypto \<Rightarrow> bytes \<Rightarrow> bytes \<Rightarrow> bytes \<Rightarrow> DecryptionError + bytes" where
  "aes_256_cbc_decrypt cr ctext key iv =
     (if ctext = [] \<or> length ctext mod 16 \<noteq> 0 then
        Inl (BadCiphertext ''ciphertext length must be a non-zero multiple of 16'')
      else if length key \<noteq> 32 \<or> length iv \<noteq> 16 then Inl BadKeyOrIv
      else case cbc_decrypt cr key iv ctext of
        Some p \<Rightarrow> Inr p
      | None \<Rightarrow> Inl (BadCiphertext ''failed to decrypt''))"

section \<open>Wire messages\<close>

definition SENDERKEY_MESSAGE_CURRENT_VERSION :: u8 where
  "SENDERKEY_MESSAGE_CURRENT_VERSION = 3"

definition SIGNATURE_LEN :: nat where
  "SIGNATURE_LEN = 64"

text \<open>The first byte of both messages: the version of the message above the current version.\<close>

definition version_byte :: "u8 \<Rightarrow> u8" where
  "version_byte message_version =
     or (push_bit 4 (and message_version 15)) SENDERKEY_MESSAGE_CURRENT_VERSION"

record SenderKeyMessage =
  skm_message_version :: u8
  skm_distribution_id :: uuid
  skm_chain_id :: u32
  skm_iteration :: u32
  skm_ciphertext :: bytes
  skm_serialized :: bytes

definition sender_key_message_new ::
  "signal_crypto \<Rightarrow> u8 \<Rightarrow> uuid \<Rightarrow> u32 \<Rightarrow> u32 \<Rightarrow> bytes \<Rightarrow> bytes \<Rightarrow> PrivateKey \<Rightarrow> SenderKeyMessage" where
  "sender_key_message_new cr message_version distribution_id chain_id iteration ciphertext rnd signature_key =
     (let content = version_byte message_version #
            skm_encode cr \<lparr>wm_distribution_uuid = Some (uuid_as_bytes cr distribution_id), wm_chain_id = Some chain_id,
              wm_iteration = Some iteration, wm_ciphertext = Some ciphertext\<rparr>;
          signature = calculate_signature cr signature_key rnd content
      in \<lparr>skm_message_version = SENDERKEY_MESSAGE_CURRENT_VERSION, skm_distribution_id = distribution_id,
          skm_chain_id = chain_id, skm_iteration = iteration, skm_ciphertext = ciphertext,
          skm_serialized = content @ signature\<rparr>)"

definition skm_verify_signature :: "signal_crypto \<Rightarrow> SenderKeyMessage \<Rightarrow> PublicKey \<Rightarrow> bool" where
  "skm_verify_signature cr skm signature_key =
     (let s = skm_serialized skm; n = length s - SIGNATURE_LEN
      in public_verify_signature cr signature_key (take n s) (drop n s))"

definition check_version :: "u8 \<Rightarrow> SignalProtocolError option" where
  "check_version message_version =
     (if message_version < SENDERKEY_MESSAGE_CURRENT_VERSION then Some (LegacyCiphertextVersion message_version)
      else if SENDERKEY_MESSAGE_CURRENT_VERSION < message_version then Some (UnrecognizedCiphertextVersion message_version)
      else None)"

definition skm_try_from :: "signal_crypto \<Rightarrow> bytes \<Rightarrow> SignalProtocolError + SenderKeyMessage" where
  "skm_try_from cr value =
     (if length value < 1 + SIGNATURE_LEN then Inl (CiphertextMessageTooShort (length value))
      else let message_version = drop_bit 4 (hd value) in
        case check_version message_version of Some e \<Rightarrow> Inl e
        | None \<Rightarrow>
        case skm_decode cr (take (length value - SIGNATURE_LEN - 1) (tl value)) of
          None \<Rightarrow> Inl InvalidProtobufEncoding
        | Some p \<Rightarrow>
          (case Option.bind (wm_distribution_uuid p) (uuid_from_slice cr) of None \<Rightarrow> Inl InvalidProtobufEncoding
           | Some distribution_id \<Rightarrow>
           case wm_chain_id p of None \<Rightarrow> Inl InvalidProtobufEncoding
           | Some chain_id \<Rightarrow>
           case wm_iteration p of None \<Rightarrow> Inl InvalidProtobufEncoding
           | Some iteration \<Rightarrow>
           case wm_ciphertext p of None \<Rightarrow> Inl InvalidProtobufEncoding
           | Some ciphertext \<Rightarrow>
             Inr \<lparr>skm_message_version = message_version, skm_distribution_id = distribution_id, skm_chain_id = chain_id,
               skm_iteration = iteration, skm_ciphertext = ciphertext, skm_serialized = value\<rparr>))"

record SenderKeyDistributionMessage =
  skdm_message_version :: u8
  skdm_distribution_id :: uuid
  skdm_chain_id :: u32
  skdm_iteration :: u32
  skdm_chain_key :: bytes
  skdm_signing_key :: PublicKey
  skdm_serialized :: bytes

definition sender_key_distribution_message_new ::
  "signal_crypto \<Rightarrow> u8 \<Rightarrow> uuid \<Rightarrow> u32 \<Rightarrow> u32 \<Rightarrow> bytes \<Rightarrow> PublicKey \<Rightarrow> SenderKeyDistributionMessage" where
  "sender_key_distribution_message_new cr message_version distribution_id chain_id iteration chain_key signing_key =
     \<lparr>skdm_message_version = message_version, skdm_distribution_id = distribution_id, skdm_chain_id = chain_id,
      skdm_iteration = iteration, skdm_chain_key = chain_key, skdm_signing_key = signing_key,
      skdm_serialized = version_byte message_version #
        skdm_encode cr \<lparr>wd_distribution_uuid = Some (uuid_as_bytes cr distribution_id), wd_chain_id = Some chain_id,
          wd_iteration = Some iteration, wd_chain_key = Some chain_key, wd_signing_key = Some (public_serialize signing_key)\<rparr>\<rparr>"

definition skdm_try_from :: "signal_crypto \<Rightarrow> bytes \<Rightarrow> SignalProtocolError + SenderKeyDistributionMessage" where
  "skdm_try_from cr value =
     (if length value < 1 + 32 + 32 then Inl (CiphertextMessageTooShort (length value))
      else let message_version = drop_bit 4 (hd value) in
        case check_version message_version of Some e \<Rightarrow> Inl e
        | None \<Rightarrow>
        case skdm_decode cr (tl value) of
          None \<Rightarrow> Inl InvalidProtobufEncoding
        | Some p \<Rightarrow>
          (case Option.bind (wd_distribution_uuid p) (uuid_from_slice cr) of None \<Rightarrow> Inl InvalidProtobufEncoding
           | Some distribution_id \<Rightarrow>
           case wd_chain_id p of None \<Rightarrow> Inl InvalidProtobufEncoding
           | Some chain_id \<Rightarrow>
           case wd_iteration p of None \<Rightarrow> Inl InvalidProtobufEncoding
           | Some iteration \<Rightarrow>
           case wd_chain_key p of None \<Rightarrow> Inl InvalidProtobufEncoding
           | Some chain_key \<Rightarrow>
           case wd_signing_key p of None \<Rightarrow> Inl InvalidProtobufEncoding
           | Some signing_key \<Rightarrow>
             if length chain_key \<noteq> 32 \<or> length signing_key \<noteq> 33 then Inl InvalidProtobufEncoding
             else case public_deserialize signing_key of Inl e \<Rightarrow> Inl (CurveFailure e)
             | Inr key \<Rightarrow>
               Inr \<lparr>skdm_message_version = message_version, skdm_distribution_id = distribution_id, skdm_chain_id = chain_id,
                 skdm_iteration = iteration, skdm_chain_key = chain_key, skdm_signing_key = key, skdm_serialized = value\<rparr>))"

section \<open>The store\<close>

text \<open>A protocol address: name and device.\<close>

type_synonym ProtocolAddress = "string \<times> nat"

record InMemSenderKeyStore =
  ks_keys :: "ProtocolAddress \<times> uuid \<rightharpoonup> SenderKeyRecord"

definition in_mem_sender_key_store_new :: InMemSenderKeyStore where
  "in_mem_sender_key_store_new = \<lparr>ks_keys = Map.empty\<rparr>"

definition store_sender_key :: "ProtocolAddress \<Rightarrow> uuid \<Rightarrow> SenderKeyRecord \<Rightarrow> InMemSenderKeyStore \<Rightarrow> InMemSenderKeyStore" where
  "store_sender_key sender distribution_id r s = s\<lparr>ks_keys := (ks_keys s)((sender, distribution_id) \<mapsto> r)\<rparr>"

definition load_sender_key :: "ProtocolAddress \<Rightarrow> uuid \<Rightarrow> InMemSenderKeyStore \<Rightarrow> SenderKeyRecord option" where
  "load_sender_key sender distribution_id s = ks_keys s (sender, distribution_id)"

section \<open>Encrypting and decrypting\<close>

text \<open>\<^verbatim>\<open>u32::try_into::<u8>\<close>.\<close>

definition u8_try_from :: "u32 \<Rightarrow> u8 option" where
  "u8_try_from v = (if v \<le> 255 then Some (ucast v) else None)"

definition group_encrypt ::
  "signal_crypto \<Rightarrow> InMemSenderKeyStore \<Rightarrow> ProtocolAddress \<Rightarrow> uuid \<Rightarrow> bytes \<Rightarrow> bytes
     \<Rightarrow> (SignalProtocolError + SenderKeyMessage) \<times> InMemSenderKeyStore" where
  "group_encrypt cr s sender distribution_id plaintext rnd =
     (let bad = Inl (InvalidSenderKeySession distribution_id) in
      case load_sender_key sender distribution_id s of
        None \<Rightarrow> (Inl (NoSenderKeyState distribution_id), s)
      | Some r \<Rightarrow>
        case sender_key_state r of None \<Rightarrow> (bad, s)
        | Some st \<Rightarrow>
        case u8_try_from (state_message_version st) of None \<Rightarrow> (bad, s)
        | Some message_version \<Rightarrow>
        case sks_sender_chain_key st of None \<Rightarrow> (bad, s)
        | Some ck \<Rightarrow>
          (let message_keys = chain_sender_message_key cr ck in
           case aes_256_cbc_encrypt cr plaintext (smk_cipher_key message_keys) (smk_iv message_keys) of None \<Rightarrow> (bad, s)
           | Some ciphertext \<Rightarrow>
           case signing_key_private cr st of None \<Rightarrow> (bad, s)
           | Some signing_key \<Rightarrow>
             (let skm = sender_key_message_new cr message_version distribution_id (sks_chain_id st)
                    (smk_iteration message_keys) ciphertext rnd signing_key in
              case chain_next cr ck of
                Inl e \<Rightarrow> (Inl e, s)
              | Inr ck1 \<Rightarrow>
                  (Inr skm, store_sender_key sender distribution_id
                     (r\<lparr>skr_states := (skr_states r)[0 := set_sender_chain_key ck1 st]\<rparr>) s))))"

definition group_decrypt ::
  "signal_crypto \<Rightarrow> bytes \<Rightarrow> InMemSenderKeyStore \<Rightarrow> ProtocolAddress
     \<Rightarrow> (SignalProtocolError + bytes) \<times> InMemSenderKeyStore" where
  "group_decrypt cr skm_bytes s sender =
     (case skm_try_from cr skm_bytes of Inl e \<Rightarrow> (Inl e, s)
      | Inr skm \<Rightarrow>
        let distribution_id = skm_distribution_id skm in
        case load_sender_key sender distribution_id s of None \<Rightarrow> (Inl (NoSenderKeyState distribution_id), s)
        | Some r \<Rightarrow>
        case sender_key_state_for_chain_id (skm_chain_id skm) r of None \<Rightarrow> (Inl (NoSenderKeyState distribution_id), s)
        | Some i \<Rightarrow>
          (let st = skr_states r ! i; message_version = ucast (skm_message_version skm) in
           if message_version \<noteq> state_message_version st then (Inl (UnrecognizedMessageVersion message_version), s)
           else case signing_key_public st of None \<Rightarrow> (Inl (InvalidSenderKeySession distribution_id), s)
           | Some signing_key \<Rightarrow>
             if \<not> skm_verify_signature cr skm signing_key then (Inl SignatureValidationFailed, s)
             else case get_sender_key cr st (skm_iteration skm) distribution_id of
               (Inl e, _) \<Rightarrow> (Inl e, s)
             | (Inr sender_key, st1) \<Rightarrow>
                 (case aes_256_cbc_decrypt cr (skm_ciphertext skm) (smk_cipher_key sender_key) (smk_iv sender_key) of
                    Inr plaintext \<Rightarrow> (Inr plaintext, store_sender_key sender distribution_id
                      (r\<lparr>skr_states := (skr_states r)[i := st1]\<rparr>) s)
                  | Inl BadKeyOrIv \<Rightarrow> (Inl (InvalidSenderKeySession distribution_id), s)
                  | Inl (BadCiphertext msg) \<Rightarrow> (Inl (InvalidMessage SenderKey ''decryption failed''), s))))"

definition process_sender_key_distribution_message ::
  "ProtocolAddress \<Rightarrow> SenderKeyDistributionMessage \<Rightarrow> InMemSenderKeyStore \<Rightarrow> InMemSenderKeyStore" where
  "process_sender_key_distribution_message sender skdm s =
     (let distribution_id = skdm_distribution_id skdm;
          r = (case load_sender_key sender distribution_id s of Some r \<Rightarrow> r | None \<Rightarrow> sender_key_record_new_empty)
      in store_sender_key sender distribution_id
           (add_sender_key_state (skdm_message_version skdm) (skdm_chain_id skdm) (skdm_iteration skdm) (skdm_chain_key skdm)
              (skdm_signing_key skdm) None r) s)"

text \<open>The random values of a new sender key: chain identifier, chain key and signing key.\<close>

record sender_key_randomness =
  rnd_chain_id :: u32
  rnd_sender_key :: bytes
  rnd_signing_key :: bytes

definition create_sender_key_distribution_message ::
  "signal_crypto \<Rightarrow> ProtocolAddress \<Rightarrow> uuid \<Rightarrow> InMemSenderKeyStore \<Rightarrow> sender_key_randomness
     \<Rightarrow> (SignalProtocolError + SenderKeyDistributionMessage) \<times> InMemSenderKeyStore" where
  "create_sender_key_distribution_message cr sender distribution_id s rnd =
     (let (r, s1) =
        (case load_sender_key sender distribution_id s of
           Some r \<Rightarrow> (r, s)
         | None \<Rightarrow>
             (let chain_id = drop_bit 1 (rnd_chain_id rnd);
                  signing_key = key_pair_generate cr (rnd_signing_key rnd);
                  r = add_sender_key_state SENDERKEY_MESSAGE_CURRENT_VERSION chain_id 0 (rnd_sender_key rnd)
                        (fst signing_key) (Some (snd signing_key)) sender_key_record_new_empty
              in (r, store_sender_key sender distribution_id r s)));
          bad = Inl (InvalidSenderKeySession distribution_id)
      in case sender_key_state r of None \<Rightarrow> (bad, s1)
         | Some st \<Rightarrow>
         case sks_sender_chain_key st of None \<Rightarrow> (bad, s1)
         | Some ck \<Rightarrow>
         case u8_try_from (state_message_version st) of None \<Rightarrow> (bad, s1)
         | Some message_version \<Rightarrow>
         case signing_key_public st of None \<Rightarrow> (bad, s1)
         | Some signing_key \<Rightarrow>
           (Inr (sender_key_distribution_message_new cr message_version distribution_id (sks_chain_id st)
                   (sck_iteration ck) (sck_chain_key ck) signing_key), s1))"

section \<open>Round trips of the wire messages\<close>

lemma version_byte_current [simp]: "drop_bit 4 (version_byte 3) = 3"
  by (simp add: version_byte_def SENDERKEY_MESSAGE_CURRENT_VERSION_def)

lemma check_version_current [simp]: "check_version 3 = None"
  by (simp add: check_version_def SENDERKEY_MESSAGE_CURRENT_VERSION_def)

lemma crypto_lawsD:
  assumes "crypto_laws cr"
  shows "length (hmac_sha256 cr k m) = 32"
    and "length (hkdf_expand cr k i n) = n"
    and "length k = 32 \<Longrightarrow> length iv = 16 \<Longrightarrow> cbc_encrypt cr k iv p \<noteq> [] \<and> length (cbc_encrypt cr k iv p) mod 16 = 0 \<and>
        cbc_decrypt cr k iv (cbc_encrypt cr k iv p) = Some p"
    and "length k = 32 \<Longrightarrow> length (clamp_integer cr k) = 32 \<and> clamp_integer cr (clamp_integer cr k) = clamp_integer cr k"
    and "length (derive_public_key_bytes cr k) = 32"
    and "length (xeddsa_sign cr k r m) = 64"
    and "xeddsa_verify cr (derive_public_key_bytes cr k) m (xeddsa_sign cr k r m)"
    and "uuid_from_slice cr (uuid_as_bytes cr u) = Some u"
    and "skm_decode cr (skm_encode cr wm) = Some wm"
    and "skdm_decode cr (skdm_encode cr wd) = Some wd" and "64 \<le> length (skdm_encode cr wd)"
  using assms unfolding crypto_laws_def by blast+

lemma sender_key_message_round_trip:
  assumes "crypto_laws cr"
  shows "skm_try_from cr (skm_serialized (sender_key_message_new cr 3 d cid it ct rnd (DjbPrivateKey k))) =
    Inr (sender_key_message_new cr 3 d cid it ct rnd (DjbPrivateKey k))"
  using crypto_lawsD [OF assms]
  by (simp add: skm_try_from_def sender_key_message_new_def Let_def SIGNATURE_LEN_def SENDERKEY_MESSAGE_CURRENT_VERSION_def)

lemma sender_key_message_verifies:
  assumes "crypto_laws cr"
  shows "skm_verify_signature cr (sender_key_message_new cr v d cid it ct rnd (DjbPrivateKey k))
    (DjbPublicKey (derive_public_key_bytes cr k))"
  using crypto_lawsD [OF assms] by (simp add: skm_verify_signature_def sender_key_message_new_def Let_def SIGNATURE_LEN_def)

lemma distribution_message_round_trip:
  assumes "crypto_laws cr" and "length ck = 32" and "length pk = 32"
  shows "skdm_try_from cr (skdm_serialized (sender_key_distribution_message_new cr 3 d cid it ck (DjbPublicKey pk))) =
    Inr (sender_key_distribution_message_new cr 3 d cid it ck (DjbPublicKey pk))"
proof -
  have "\<not> length (skdm_serialized (sender_key_distribution_message_new cr 3 d cid it ck (DjbPublicKey pk))) < 1 + 32 + 32"
    using crypto_lawsD(11) [OF assms(1)] by (simp add: sender_key_distribution_message_new_def not_less)
  then show ?thesis using crypto_lawsD [OF assms(1)] assms(2,3)
    by (simp add: skdm_try_from_def sender_key_distribution_message_new_def Let_def)
qed

lemma message_key_opens:
  assumes "crypto_laws cr" and "ct = cbc_encrypt cr (smk_cipher_key (sender_message_key_new cr it seed)) (smk_iv (sender_message_key_new cr it seed)) p"
  shows "aes_256_cbc_encrypt cr p (smk_cipher_key (sender_message_key_new cr it seed)) (smk_iv (sender_message_key_new cr it seed)) = Some ct"
    and "aes_256_cbc_decrypt cr ct (smk_cipher_key (sender_message_key_new cr it seed)) (smk_iv (sender_message_key_new cr it seed)) = Inr p"
proof -
  have "length (smk_cipher_key (sender_message_key_new cr it seed)) = 32" "length (smk_iv (sender_message_key_new cr it seed)) = 16"
    using crypto_lawsD(2) [OF assms(1)] by (simp_all add: sender_message_key_new_def Let_def)
  then show "aes_256_cbc_encrypt cr p (smk_cipher_key (sender_message_key_new cr it seed)) (smk_iv (sender_message_key_new cr it seed)) = Some ct"
    "aes_256_cbc_decrypt cr ct (smk_cipher_key (sender_message_key_new cr it seed)) (smk_iv (sender_message_key_new cr it seed)) = Inr p"
    using crypto_lawsD(3) [OF assms(1)] assms(2) by (simp_all add: aes_256_cbc_encrypt_def aes_256_cbc_decrypt_def)
qed

section \<open>One sender and one receiver\<close>

lemma chain_from_add: "chain_from cr (chain_from cr c0 i) j = chain_from cr c0 (i + j)"
  by (induction j) simp_all

lemma message_key_shift: "i0 \<le> i \<Longrightarrow> message_key_at cr i0 (chain_from cr c0 i0) i = message_key_at cr 0 c0 i"
  by (simp add: message_key_at_def chain_state_def chain_from_add)

text \<open>The message of iteration \<open>i\<close> on the wire, for a chain with first key \<open>c0\<close> and signing key \<open>k\<close>.\<close>

definition wire_message :: "signal_crypto \<Rightarrow> uuid \<Rightarrow> u32 \<Rightarrow> bytes \<Rightarrow> bytes \<Rightarrow> nat \<Rightarrow> bytes \<times> bytes \<Rightarrow> SenderKeyMessage" where
  "wire_message cr d cid k c0 i pr =
     sender_key_message_new cr 3 d cid (of_nat i)
       (cbc_encrypt cr (smk_cipher_key (message_key_at cr 0 c0 i)) (smk_iv (message_key_at cr 0 c0 i)) (fst pr)) (snd pr) (DjbPrivateKey k)"

text \<open>The sender is about to use iteration \<open>h\<close>.\<close>

definition sending :: "signal_crypto \<Rightarrow> ProtocolAddress \<Rightarrow> uuid \<Rightarrow> u32 \<Rightarrow> bytes \<Rightarrow> bytes \<Rightarrow> InMemSenderKeyStore \<Rightarrow> nat \<Rightarrow> bool" where
  "sending cr sender d cid k c0 s h \<longleftrightarrow> length k = 32 \<and> clamp_integer cr k = k \<and> length c0 = 32 \<and>
     (\<exists>r st rest. load_sender_key sender d s = Some r \<and> skr_states r = st # rest \<and> sks_message_version st = 3 \<and>
        sks_chain_id st = cid \<and> sks_sender_chain_key st = Some (chain_state cr 0 c0 h) \<and>
        sks_sender_signing_key st = Some \<lparr>ssk_public = 5 # derive_public_key_bytes cr k, ssk_private = k\<rparr>)"

text \<open>The receiver holds the chain in the state \<open>w\<close>.\<close>

definition receiving ::
  "signal_crypto \<Rightarrow> ProtocolAddress \<Rightarrow> uuid \<Rightarrow> u32 \<Rightarrow> bytes \<Rightarrow> bytes \<Rightarrow> nat \<Rightarrow> InMemSenderKeyStore \<Rightarrow> receiver \<Rightarrow> bool" where
  "receiving cr sender d cid k c0 i0 s w \<longleftrightarrow>
     (\<exists>r i. load_sender_key sender d s = Some r \<and> sender_key_state_for_chain_id cid r = Some i \<and>
        sks_message_version (skr_states r ! i) = 3 \<and>
        signing_key_public (skr_states r ! i) = Some (DjbPublicKey (derive_public_key_bytes cr k)) \<and>
        chain_rel cr i0 (chain_from cr c0 i0) (skr_states r ! i) w)"

lemma group_encrypt_sending:
  assumes laws: "crypto_laws cr" and snd: "sending cr sender d cid k c0 s h" and h: "h < u32_max"
  shows "\<exists>s1. group_encrypt cr s sender d p rnd = (Inr (wire_message cr d cid k c0 h (p, rnd)), s1) \<and> sending cr sender d cid k c0 s1 (Suc h)"
proof -
  obtain r st rest where r: "load_sender_key sender d s = Some r" "skr_states r = st # rest" "sks_message_version st = 3"
      "sks_chain_id st = cid" "sks_sender_chain_key st = Some (chain_state cr 0 c0 h)"
      "sks_sender_signing_key st = Some \<lparr>ssk_public = 5 # derive_public_key_bytes cr k, ssk_private = k\<rparr>"
    and k: "length k = 32" "clamp_integer cr k = k" using snd by (auto simp: sending_def)
  have nx: "chain_next cr (chain_state cr 0 c0 h) = Inr (chain_state cr 0 c0 (Suc h))" using h by (simp add: chain_next_state)
  have ver: "u8_try_from (state_message_version st) = Some 3" by (simp add: u8_try_from_def state_message_version_def r)
  have priv: "signing_key_private cr st = Some (DjbPrivateKey k)" using k by (simp add: signing_key_private_def r private_deserialize_def)
  have "chain_sender_message_key cr (chain_state cr 0 c0 h) =
      sender_message_key_new cr (of_nat h) (get_derivative cr (chain_state cr 0 c0 h) MESSAGE_KEY_SEED)"
    by (simp add: chain_sender_message_key_def chain_state_def)
  then have enc: "aes_256_cbc_encrypt cr p (smk_cipher_key (message_key_at cr 0 c0 h)) (smk_iv (message_key_at cr 0 c0 h)) =
      Some (cbc_encrypt cr (smk_cipher_key (message_key_at cr 0 c0 h)) (smk_iv (message_key_at cr 0 c0 h)) p)"
    unfolding message_key_at_def using message_key_opens(1) [OF laws refl] by simp
  have it: "smk_iteration (message_key_at cr 0 c0 h) = of_nat h"
    by (simp add: message_key_at_def chain_sender_message_key_def sender_message_key_new_def chain_state_def Let_def)
  let ?s1 = "store_sender_key sender d (r\<lparr>skr_states := (skr_states r)[0 := set_sender_chain_key (chain_state cr 0 c0 (Suc h)) st]\<rparr>) s"
  have "group_encrypt cr s sender d p rnd = (Inr (wire_message cr d cid k c0 h (p, rnd)), ?s1)"
    using enc it unfolding message_key_at_def
    by (simp add: group_encrypt_def Let_def r sender_key_state_def ver priv nx wire_message_def message_key_at_def)
  moreover have "sending cr sender d cid k c0 ?s1 (Suc h)"
    using snd r by (simp add: sending_def store_sender_key_def load_sender_key_def set_sender_chain_key_def)
  ultimately show ?thesis by blast
qed

lemma advance_chain_frame:
  "advance_chain cr g ck st = (res, st1) \<Longrightarrow>
     sks_chain_id st1 = sks_chain_id st \<and> sks_message_version st1 = sks_message_version st \<and>
     sks_sender_signing_key st1 = sks_sender_signing_key st"
proof (induction cr g ck st rule: advance_chain.induct)
  case (1 cr g ck st)
  let ?st = "add_sender_message_key (chain_sender_message_key cr ck) st"
  have "sks_chain_id ?st = sks_chain_id st" "sks_message_version ?st = sks_message_version st"
      "sks_sender_signing_key ?st = sks_sender_signing_key st" by (simp_all add: add_sender_message_key_def)
  then show ?case using 1(1) 1(2) [unfolded advance_chain.simps [of cr g ck st]]
    by (auto simp: Let_def split: if_splits sum.splits)
qed

lemma get_sender_key_frame:
  assumes "get_sender_key cr st g d = (res, st1)"
  shows "sks_chain_id st1 = sks_chain_id st \<and> sks_message_version st1 = sks_message_version st \<and>
     sks_sender_signing_key st1 = sks_sender_signing_key st"
  using assms
  by (auto simp: get_sender_key_def remove_sender_message_key_def set_sender_chain_key_def
      split: option.splits if_splits prod.splits sum.splits dest: advance_chain_frame)

lemma position_update: "position P xs = Some n \<Longrightarrow> P y \<Longrightarrow> position P (xs[n := y]) = Some n"
  by (induction xs arbitrary: n) (auto split: if_splits)

lemma group_decrypt_receiving:
  assumes laws: "crypto_laws cr" and rcv: "receiving cr sender d cid k c0 i0 s (h, kept)" and i: "i \<le> u32_max"
    and req: "key_request (h, kept) i = (ans, w)"
  shows "(case ans of Inl e \<Rightarrow> group_decrypt cr (skm_serialized (wire_message cr d cid k c0 i pr)) s sender = (Inl e, s)
    | Inr _ \<Rightarrow> \<exists>s1. group_decrypt cr (skm_serialized (wire_message cr d cid k c0 i pr)) s sender = (Inr (fst pr), s1) \<and>
        receiving cr sender d cid k c0 i0 s1 w)"
proof -
  obtain r n where r: "load_sender_key sender d s = Some r" "sender_key_state_for_chain_id cid r = Some n"
      "sks_message_version (skr_states r ! n) = 3"
      "signing_key_public (skr_states r ! n) = Some (DjbPublicKey (derive_public_key_bytes cr k))"
      and rel: "chain_rel cr i0 (chain_from cr c0 i0) (skr_states r ! n) (h, kept)"
    using rcv by (auto simp: receiving_def)
  let ?m = "wire_message cr d cid k c0 i pr"
  have m: "skm_try_from cr (skm_serialized ?m) = Inr ?m" "skm_distribution_id ?m = d" "skm_chain_id ?m = cid"
      "skm_message_version ?m = 3" "skm_iteration ?m = of_nat i"
    using sender_key_message_round_trip [OF laws]
    by (simp_all add: wire_message_def sender_key_message_new_def Let_def SENDERKEY_MESSAGE_CURRENT_VERSION_def)
  have v: "skm_verify_signature cr ?m (DjbPublicKey (derive_public_key_bytes cr k))"
    unfolding wire_message_def by (rule sender_key_message_verifies [OF laws])
  have st: "state_message_version (skr_states r ! n) = 3" by (simp add: state_message_version_def r)
  obtain res st1 where g: "get_sender_key cr (skr_states r ! n) (of_nat i) d = (res, st1)" by (metis surj_pair)
  have ref: "fst (kept_sender_key cr d (skr_states r ! n) (of_nat i)) = key_answer cr i0 (chain_from cr c0 i0) ans"
      "chain_rel cr i0 (chain_from cr c0 i0) (snd (kept_sender_key cr d (skr_states r ! n) (of_nat i))) w"
    using kept_sender_key_refines [OF rel, of "of_nat i"] req i by (simp_all add: u32_max_word)
  have n: "n < length (skr_states r)" "sks_chain_id (skr_states r ! n) = cid"
    using position_Some [of _ _ n] r(2) by (auto simp: sender_key_state_for_chain_id_def)
  show ?thesis
  proof (cases ans)
    case (Inl e)
    then have "res = Inl e" using ref(1) g by (cases res) (simp_all add: kept_sender_key_def)
    then show ?thesis using Inl g by (simp add: group_decrypt_def m r st v Let_def)
  next
    case (Inr j)
    then have j: "j = i" using req by (auto split: if_splits)
    have res: "res = Inr (message_key_at cr i0 (chain_from cr c0 i0) i)" "chain_rel cr i0 (chain_from cr c0 i0) st1 w"
      using ref g Inr j by (cases res; simp add: kept_sender_key_def)+
    have i0: "i0 \<le> i" using req Inr rel by (auto simp: chain_rel_def split: if_splits)
    have key: "message_key_at cr i0 (chain_from cr c0 i0) i =
        sender_message_key_new cr (of_nat i) (get_derivative cr (chain_state cr 0 c0 i) MESSAGE_KEY_SEED)"
        "message_key_at cr 0 c0 i = sender_message_key_new cr (of_nat i) (get_derivative cr (chain_state cr 0 c0 i) MESSAGE_KEY_SEED)"
      unfolding message_key_shift [OF i0] by (simp_all add: message_key_at_def chain_sender_message_key_def chain_state_def)
    have "skm_ciphertext ?m = cbc_encrypt cr (smk_cipher_key (message_key_at cr 0 c0 i)) (smk_iv (message_key_at cr 0 c0 i)) (fst pr)"
      by (simp add: wire_message_def sender_key_message_new_def Let_def)
    then have "aes_256_cbc_decrypt cr (skm_ciphertext ?m) (smk_cipher_key (message_key_at cr i0 (chain_from cr c0 i0) i))
        (smk_iv (message_key_at cr i0 (chain_from cr c0 i0) i)) = Inr (fst pr)"
      unfolding key by (rule message_key_opens(2) [OF laws])
    then have "group_decrypt cr (skm_serialized ?m) s sender =
        (Inr (fst pr), store_sender_key sender d (r\<lparr>skr_states := (skr_states r)[n := st1]\<rparr>) s)"
      using g res(1) by (simp add: group_decrypt_def m r st v Let_def)
    moreover have "receiving cr sender d cid k c0 i0 (store_sender_key sender d (r\<lparr>skr_states := (skr_states r)[n := st1]\<rparr>) s) w"
      using get_sender_key_frame [OF g] r n res(2) position_update [of _ "skr_states r" n st1]
      by (simp add: receiving_def store_sender_key_def load_sender_key_def sender_key_state_for_chain_id_def signing_key_public_def)
    ultimately show ?thesis using Inr by auto
  qed
qed

section \<open>Distributions\<close>

text \<open>The distribution of a chain at iteration \<open>h\<close>.\<close>

definition distribution_at :: "signal_crypto \<Rightarrow> uuid \<Rightarrow> u32 \<Rightarrow> bytes \<Rightarrow> bytes \<Rightarrow> nat \<Rightarrow> SenderKeyDistributionMessage" where
  "distribution_at cr d cid k c0 h =
     sender_key_distribution_message_new cr 3 d cid (of_nat h) (chain_from cr c0 h) (DjbPublicKey (derive_public_key_bytes cr k))"

lemma length_chain_from: "crypto_laws cr \<Longrightarrow> length c0 = 32 \<Longrightarrow> length (chain_from cr c0 h) = 32"
  by (cases h) (simp_all add: crypto_lawsD(1))

lemma distribution_at_round_trip:
  "crypto_laws cr \<Longrightarrow> length c0 = 32 \<Longrightarrow>
     skdm_try_from cr (skdm_serialized (distribution_at cr d cid k c0 h)) = Inr (distribution_at cr d cid k c0 h)"
  unfolding distribution_at_def
  by (rule distribution_message_round_trip) (simp_all add: length_chain_from crypto_lawsD)

lemma create_distribution_fresh:
  assumes laws: "crypto_laws cr" and none: "load_sender_key sender d s = None"
    and len: "length (rnd_sender_key rnd) = 32" "length (rnd_signing_key rnd) = 32"
  defines "cid \<equiv> drop_bit 1 (rnd_chain_id rnd)" and "k \<equiv> clamp_integer cr (rnd_signing_key rnd)"
  shows "\<exists>s1. create_sender_key_distribution_message cr sender d s rnd = (Inr (distribution_at cr d cid k (rnd_sender_key rnd) 0), s1) \<and>
    sending cr sender d cid k (rnd_sender_key rnd) s1 0"
  using none len crypto_lawsD(4,5) [OF laws]
  by (simp add: create_sender_key_distribution_message_def Let_def key_pair_generate_def add_sender_key_state_def remove_state_def
      sender_key_record_new_empty_def remove_states_with_chain_id_def sender_key_state_new_def sender_key_state_def
      state_message_version_def u8_try_from_def SENDERKEY_MESSAGE_CURRENT_VERSION_def signing_key_public_def distribution_at_def
      sending_def store_sender_key_def load_sender_key_def chain_state_def cid_def k_def)

lemma create_distribution_sending:
  assumes laws: "crypto_laws cr" and "sending cr sender d cid k c0 s h"
  shows "create_sender_key_distribution_message cr sender d s rnd = (Inr (distribution_at cr d cid k c0 h), s)"
  using assms(2) crypto_lawsD(5) [OF laws, of k]
  by (auto simp: create_sender_key_distribution_message_def sending_def sender_key_state_def state_message_version_def
      u8_try_from_def signing_key_public_def distribution_at_def chain_state_def)

lemma position_conj: "position P xs = Some n \<Longrightarrow> Q (xs ! n) \<Longrightarrow> position (\<lambda>x. P x \<and> Q x) xs = Some n"
  by (induction xs arbitrary: n) (auto split: if_splits)

lemma process_distribution_fresh:
  assumes laws: "crypto_laws cr" and none: "load_sender_key sender d s = None" and h: "h \<le> u32_max"
  shows "receiving cr sender d cid k c0 h (process_sender_key_distribution_message sender (distribution_at cr d cid k c0 h) s) (h, [])"
proof -
  have "chain_rel cr h (chain_from cr c0 h) (sender_key_state_new 3 cid (of_nat h) (chain_from cr c0 h) pk None) (h, [])" for pk
    using chain_rel_new [of cr "of_nat h"] h by (simp add: u32_max_word)
  then show ?thesis using none crypto_lawsD(5) [OF laws, of k]
    by (simp add: receiving_def process_sender_key_distribution_message_def distribution_at_def sender_key_distribution_message_new_def
        Let_def add_sender_key_state_def remove_state_def sender_key_record_new_empty_def remove_states_with_chain_id_def
        store_sender_key_def load_sender_key_def sender_key_state_for_chain_id_def signing_key_public_def)
      (simp add: sender_key_state_new_def)
qed

lemma process_distribution_again:
  assumes laws: "crypto_laws cr" and rcv: "receiving cr sender d cid k c0 i0 s w"
  shows "receiving cr sender d cid k c0 i0 (process_sender_key_distribution_message sender (distribution_at cr d cid k c0 h) s) w"
proof -
  obtain r n where r: "load_sender_key sender d s = Some r" "sender_key_state_for_chain_id cid r = Some n"
      "sks_message_version (skr_states r ! n) = 3"
      "signing_key_public (skr_states r ! n) = Some (DjbPublicKey (derive_public_key_bytes cr k))"
      "chain_rel cr i0 (chain_from cr c0 i0) (skr_states r ! n) w"
    using rcv by (auto simp: receiving_def)
  have "position (\<lambda>st. sks_chain_id st = cid \<and> signing_key_public st = Some (DjbPublicKey (derive_public_key_bytes cr k)))
      (skr_states r) = Some n"
    by (rule position_conj [where Q = "\<lambda>st. signing_key_public st = Some (DjbPublicKey (derive_public_key_bytes cr k))",
          OF r(2) [unfolded sender_key_state_for_chain_id_def] r(4)])
  moreover have "sks_chain_id (skr_states r ! n) = cid"
    using position_Some [OF r(2) [unfolded sender_key_state_for_chain_id_def]] by simp
  ultimately show ?thesis using r
    by (simp add: receiving_def process_sender_key_distribution_message_def distribution_at_def sender_key_distribution_message_new_def
        Let_def add_sender_key_state_def remove_state_def remove_states_with_chain_id_def
        store_sender_key_def load_sender_key_def sender_key_state_for_chain_id_def)
qed

section \<open>Reading in any order\<close>

text \<open>With few enough messages nothing is dropped: exactly the unread ones are kept.\<close>

definition complete :: "nat \<Rightarrow> nat \<Rightarrow> nat set \<Rightarrow> receiver \<Rightarrow> bool" where
  "complete n m seen w \<longleftrightarrow> (case w of (h, kept) \<Rightarrow>
     n \<le> h \<and> h \<le> m \<and> kept = filter (\<lambda>i. i \<notin> seen) [n..<h] \<and> (\<forall>i \<in> seen. n \<le> i \<longrightarrow> i < h))"

lemma complete_request:
  assumes "complete n m seen w" and "i < m" and "m - n \<le> MAX_MESSAGE_KEYS" and "m \<le> u32_max"
    and "key_request w i = (ans, w1)"
  shows "complete n m (insert i seen) w1 \<and> (case ans of Inl e \<Rightarrow> w1 = w \<and> (i < n \<or> i \<in> seen) | Inr _ \<Rightarrow> n \<le> i \<and> i \<notin> seen)"
proof -
  obtain h kept where w: "w = (h, kept)" by (cases w)
  have c: "n \<le> h" "h \<le> m" "kept = filter (\<lambda>i. i \<notin> seen) [n..<h]" "\<And>i. i \<in> seen \<Longrightarrow> n \<le> i \<Longrightarrow> i < h"
    using assms(1) by (auto simp: complete_def w)
  show ?thesis
  proof (cases "i < h")
    case True
    have "remove1 i kept = filter (\<lambda>j. j \<notin> insert i seen) [n..<h]"
      using distinct_upt [of n h] c(3) by (auto simp: distinct_remove1_removeAll removeAll_filter_not_eq filter_filter intro: filter_cong)
    moreover have "kept = filter (\<lambda>j. j \<notin> insert i seen) [n..<h]" if "i \<notin> set kept"
      using that c(3) by (auto intro: filter_cong)
    ultimately show ?thesis using assms(5) True c by (auto simp: complete_def w split: if_splits)
  next
    case False
    have "m - n \<le> MAX_FORWARD_JUMPS" using assms(3) by (simp add: MAX_MESSAGE_KEYS_def MAX_FORWARD_JUMPS_def)
    then have j: "\<not> MAX_FORWARD_JUMPS < i - h" "i \<noteq> u32_max" using assms(2,4) c by linarith+
    have up: "[n..<Suc i] = [n..<h] @ [h..<i] @ [i]" using False c(1) upt_add_eq_append [of n h "i - h"] by simp
    have un: "i \<notin> seen" using c False by (meson le_trans not_less)
    have "length (kept @ [h..<i]) \<le> length [n..<i]"
      using c(1,3) False length_filter_le [of "\<lambda>i. i \<notin> seen" "[n..<h]"] by simp
    then have "length (kept @ [h..<i]) \<le> MAX_MESSAGE_KEYS" using assms(2,3) by simp
    then have new: "ans = Inr i" "w1 = (Suc i, kept @ [h..<i])" using assms(5) False j by (auto simp: w)
    have "filter (\<lambda>j. j \<notin> insert i seen) [h..<i] = [h..<i]"
    proof (rule filter_True, rule ballI)
      fix x assume "x \<in> set [h..<i]"
      then show "x \<notin> insert i seen" using c(1) c(4) [of x] by auto
    qed
    moreover have "filter (\<lambda>j. j \<notin> insert i seen) [n..<h] = kept" using c(3) False by (auto intro: filter_cong)
    ultimately have "kept @ [h..<i] = filter (\<lambda>j. j \<notin> insert i seen) [n..<Suc i]" by (simp add: up del: upt_Suc)
    moreover have "j < Suc i" if "j \<in> seen" "n \<le> j" for j using c(4) [OF that] False by simp
    ultimately show ?thesis using new c(1) False assms(2) un by (auto simp: complete_def simp del: upt_Suc)
  qed
qed

end
