(* ===== verification/Relay_Http.thy ===== *)
theory Relay_Http
  imports Message_Relay
begin

text \<open>
  The fetch and acknowledge handlers of both relays (\<^verbatim>\<open>bin/message_relay.rs\<close> of either side) and the routes of the two
  services, on top of the publish handlers of \<open>Message_Relay\<close>. An elapsed time is an argument of every
  handler, for the metrics.
\<close>

section \<open>The MLS relay\<close>

datatype 'm relay_body = EmptyBody | BytesBody bytes | JsonBody 'm | NoteBody string

definition relay_guard_start :: "string \<Rightarrow> MessageRelay \<Rightarrow> MessageRelay" where
  "relay_guard_start ep mr = mr\<lparr>mr_metrics := snd (metrics_start (mr_metrics mr) ep)\<rparr>"

definition relay_guard_close ::
  "string \<Rightarrow> nat \<Rightarrow> (nat \<times> 'm relay_body) \<times> MessageRelay \<Rightarrow> (nat \<times> 'm relay_body) \<times> MessageRelay" where
  "relay_guard_close ep t x =
     (case x of (resp, mr) \<Rightarrow> (resp, mr\<lparr>mr_metrics := guard_finish_http_status (mr_metrics mr) ep t (fst resp)\<rparr>))"

definition body_or_404 :: "('a \<Rightarrow> 'm relay_body) \<Rightarrow> 'a option \<Rightarrow> nat \<times> 'm relay_body" where
  "body_or_404 f r = (case r of Some x \<Rightarrow> (200, f x) | None \<Rightarrow> (404, EmptyBody))"

definition http_fetch_application_message ::
  "nat \<Rightarrow> MessageRelay \<Rightarrow> string \<Rightarrow> (nat \<times> PendingApplicationMessage relay_body) \<times> MessageRelay" where
  "http_fetch_application_message t mr recipient =
     (let mr1 = relay_guard_start ''fetch_application_message'' mr
      in relay_guard_close ''fetch_application_message'' t
           (body_or_404 BytesBody (fetch_application_message mr1 recipient), mr1))"

definition http_fetch_pending_application_message ::
  "nat \<Rightarrow> (bytes \<Rightarrow> string) \<Rightarrow> MessageRelay \<Rightarrow> string \<Rightarrow> (nat \<times> PendingApplicationMessage relay_body) \<times> MessageRelay" where
  "http_fetch_pending_application_message t hex mr recipient =
     (let mr1 = relay_guard_start ''fetch_pending_application_message'' mr
      in relay_guard_close ''fetch_pending_application_message'' t
           (body_or_404 JsonBody (fetch_pending_application_message hex mr1 recipient), mr1))"

definition http_ack_application_message ::
  "nat \<Rightarrow> MessageRelay \<Rightarrow> string \<Rightarrow> string \<Rightarrow> (nat \<times> PendingApplicationMessage relay_body) \<times> MessageRelay" where
  "http_ack_application_message t mr recipient message_id =
     relay_guard_close ''ack_application_message'' t
       (apfst (\<lambda>acked. if acked then (200, EmptyBody) else (200, NoteBody ''application message was already acked or absent''))
          (ack_application_message (relay_guard_start ''ack_application_message'' mr) recipient message_id))"

section \<open>The Signal relay\<close>

definition signal_guard_start :: "string \<Rightarrow> SignalRelay \<Rightarrow> SignalRelay" where
  "signal_guard_start ep sr = sr\<lparr>sr_metrics := snd (metrics_start (sr_metrics sr) ep)\<rparr>"

definition signal_guard_close ::
  "string \<Rightarrow> nat \<Rightarrow> (nat \<times> 'm relay_body) \<times> SignalRelay \<Rightarrow> (nat \<times> 'm relay_body) \<times> SignalRelay" where
  "signal_guard_close ep t x =
     (case x of (resp, sr) \<Rightarrow> (resp, sr\<lparr>sr_metrics := guard_finish_http_status (sr_metrics sr) ep t (fst resp)\<rparr>))"

definition http_fetch_message ::
  "nat \<Rightarrow> SignalRelay \<Rightarrow> string \<Rightarrow> (nat \<times> PendingMessage relay_body) \<times> SignalRelay" where
  "http_fetch_message t sr recipient =
     (let sr1 = signal_guard_start ''fetch_message'' sr
      in signal_guard_close ''fetch_message'' t (body_or_404 BytesBody (fetch_message sr1 recipient), sr1))"

definition http_fetch_pending_message ::
  "nat \<Rightarrow> (bytes \<Rightarrow> string) \<Rightarrow> SignalRelay \<Rightarrow> string \<Rightarrow> (nat \<times> PendingMessage relay_body) \<times> SignalRelay" where
  "http_fetch_pending_message t hex sr recipient =
     (let sr1 = signal_guard_start ''fetch_pending_message'' sr
      in signal_guard_close ''fetch_pending_message'' t (body_or_404 JsonBody (fetch_pending_message hex sr1 recipient), sr1))"

definition http_fetch_pending_message_from ::
  "nat \<Rightarrow> (bytes \<Rightarrow> string) \<Rightarrow> SignalRelay \<Rightarrow> string \<Rightarrow> string \<Rightarrow> (nat \<times> PendingMessage relay_body) \<times> SignalRelay" where
  "http_fetch_pending_message_from t hex sr recipient sender =
     (let sr1 = signal_guard_start ''fetch_pending_message_from'' sr
      in signal_guard_close ''fetch_pending_message_from'' t
           (body_or_404 JsonBody (fetch_pending_message_from hex sr1 recipient sender), sr1))"

definition http_ack_message ::
  "nat \<Rightarrow> SignalRelay \<Rightarrow> string \<Rightarrow> string \<Rightarrow> (nat \<times> PendingMessage relay_body) \<times> SignalRelay" where
  "http_ack_message t sr recipient message_id =
     signal_guard_close ''ack_message'' t
       (apfst (\<lambda>acked. if acked then (200, EmptyBody) else (200, NoteBody ''message was already acked or absent''))
          (ack_message (signal_guard_start ''ack_message'' sr) recipient message_id))"

section \<open>What the handlers do to an inbox\<close>

lemma signal_inbox_metrics [simp]: "signal_inbox (sr\<lparr>sr_metrics := m\<rparr>) r = signal_inbox sr r"
  by (simp add: signal_inbox_def)

lemma signal_inbox_guard [simp]:
  "signal_inbox (signal_guard_start ep sr) r = signal_inbox sr r"
  "signal_inbox (snd (signal_guard_close ep t x)) r = signal_inbox (snd x) r"
  "fst (signal_guard_close ep t x) = fst x"
  by (simp_all add: signal_guard_start_def signal_guard_close_def split: prod.splits)

lemma fetch_record_inbox:
  "fetch_pending_message_record sr r sn = List.find (\<lambda>env. case sn of None \<Rightarrow> True | Some s \<Rightarrow> se_sender env = s) (signal_inbox sr r)"
  by (simp add: fetch_pending_message_record_def signal_inbox_def queue_of_def split: option.splits)

lemma http_fetch_from:
  "fst (http_fetch_pending_message_from t hex sr r sn) =
     body_or_404 (\<lambda>e. JsonBody (to_pending_message hex e)) (List.find (\<lambda>e. se_sender e = sn) (signal_inbox sr r))"
  "signal_inbox (snd (http_fetch_pending_message_from t hex sr r sn)) r' = signal_inbox sr r'"
  by (simp_all add: http_fetch_pending_message_from_def Let_def fetch_pending_message_from_def fetch_record_inbox body_or_404_def
      split: option.splits)

lemma http_ack_inbox:
  "fst (fst (http_ack_message t sr r i)) = 200"
  "signal_inbox (snd (http_ack_message t sr r i)) r' = (if r' = r then retain_other se_id i (signal_inbox sr r) else signal_inbox sr r')"
  by (auto simp: http_ack_message_def ack_message_def signal_inbox_def queue_of_def Let_def retain_other_def signal_guard_start_def
      signal_guard_close_def split: option.splits prod.splits)

lemma http_publish_inbox:
  assumes "rs \<noteq> []" and "list_all (\<lambda>r. r \<noteq> [] \<and> CHR '','' \<notin> set r \<and> trim r = r) rs"
  shows "fst (http_publish_pairwise_message t sr c sn (Some (Some (join '','' rs))) b) = 200"
    and "signal_inbox (snd (http_publish_pairwise_message t sr c sn (Some (Some (join '','' rs))) b)) r =
      signal_inbox sr r @ map (signal_envelope c sn (sr_next_message_id sr) b) (filter (\<lambda>x. x = r) (filter (\<lambda>x. x \<noteq> sn) rs))"
    and "sr_next_message_id (snd (http_publish_pairwise_message t sr c sn (Some (Some (join '','' rs))) b)) = sr_next_message_id sr + 1"
proof -
  have p: "parse_recipients_header (Some (join '','' rs)) = Inr rs"
    by (rule parse_recipients_join [OF assms(1)]) (use assms(2) in \<open>auto simp: list_all_iff\<close>)
  show "fst (http_publish_pairwise_message t sr c sn (Some (Some (join '','' rs))) b) = 200"
    "signal_inbox (snd (http_publish_pairwise_message t sr c sn (Some (Some (join '','' rs))) b)) r =
      signal_inbox sr r @ map (signal_envelope c sn (sr_next_message_id sr) b) (filter (\<lambda>x. x = r) (filter (\<lambda>x. x \<noteq> sn) rs))"
    "sr_next_message_id (snd (http_publish_pairwise_message t sr c sn (Some (Some (join '','' rs))) b)) = sr_next_message_id sr + 1"
    using assms(1) by (simp_all add: http_publish_pairwise_message_def p Let_def split_beta publish_pairwise_message_def
        publish_response_def signal_fold)
qed

end
