(* ===== verification/Sender_Key_Worker.thy ===== *)
theory Sender_Key_Worker
  imports Group_Cipher Relay_Http
begin

text \<open>
  The sender-keys mode of the Signal worker (\<^verbatim>\<open>src/Signal_containerized/src/sender_keys.rs\<close>): the sender-key methods of a
  participant and the five commands of a worker, over the group cipher and the relay. The pairwise sessions that
  protect the distributions are the Double Ratchet of libsignal; they are the record \<open>pairwise\<close>, an argument of
  the commands. A request to the relay reaches its handler; whether the acknowledgement after a
  decryption gets through is an argument. Profiling is left out.
\<close>

section \<open>Participants\<close>

record 'p pairwise =
  has_session_with :: "'p \<Rightarrow> ProtocolAddress \<Rightarrow> bool"
  encrypt_message :: "'p \<Rightarrow> ProtocolAddress \<Rightarrow> bytes \<Rightarrow> (string + bytes) \<times> 'p"
  decrypt_message :: "'p \<Rightarrow> ProtocolAddress \<Rightarrow> bytes \<Rightarrow> (string + bytes) \<times> 'p"

text \<open>Of the fields of a participant, those the sender-key methods use.\<close>

record 'p SignalParticipant =
  part_name :: string
  part_address :: ProtocolAddress
  part_sender_key_id :: "uuid option"
  part_sender_key_store :: InMemSenderKeyStore
  part_sessions :: 'p

datatype SenderKeyError =
    Bail string
  | Protocol SignalProtocolError
  | RelayStatus nat
  | Pairwise string
  | BadHex

definition address :: "string \<Rightarrow> ProtocolAddress" where
  "address name = (name, 1)"

definition sender_key_distribution ::
  "signal_crypto \<Rightarrow> sender_key_randomness \<Rightarrow> u64 option \<Rightarrow> 'p SignalParticipant
     \<Rightarrow> (SenderKeyError + bytes) \<times> 'p SignalParticipant" where
  "sender_key_distribution cr rnd generation p =
     (let (err, p1) =
        (case generation of
           None \<Rightarrow> (None, p)
         | Some g \<Rightarrow>
             (let key_id = (ucast g :: uuid) in
              if g = 0 \<or> (case part_sender_key_id p of Some old \<Rightarrow> key_id \<le> old | None \<Rightarrow> False)
              then (Some (Bail ''Sender Key generations must increase and be nonzero''), p)
              else (None, p\<lparr>part_sender_key_id := Some key_id\<rparr>)))
      in case err of Some e \<Rightarrow> (Inl e, p1)
         | None \<Rightarrow>
         case part_sender_key_id p1 of None \<Rightarrow> (Inl (Bail ''Sender Key not initialized''), p1)
         | Some key_id \<Rightarrow>
           (case create_sender_key_distribution_message cr (part_address p1) key_id (part_sender_key_store p1) rnd of
              (res, s1) \<Rightarrow> (map_sum Protocol skdm_serialized res, p1\<lparr>part_sender_key_store := s1\<rparr>)))"

definition process_sender_key_distribution ::
  "signal_crypto \<Rightarrow> string \<Rightarrow> bytes \<Rightarrow> 'p SignalParticipant \<Rightarrow> (SenderKeyError + unit) \<times> 'p SignalParticipant" where
  "process_sender_key_distribution cr sender b p =
     (case skdm_try_from cr b of
        Inl e \<Rightarrow> (Inl (Protocol e), p)
      | Inr message \<Rightarrow>
          (Inr (), p\<lparr>part_sender_key_store :=
             process_sender_key_distribution_message (address sender) message (part_sender_key_store p)\<rparr>))"

definition sender_key_encrypt ::
  "signal_crypto \<Rightarrow> bytes \<Rightarrow> bytes \<Rightarrow> 'p SignalParticipant \<Rightarrow> (SenderKeyError + bytes) \<times> 'p SignalParticipant" where
  "sender_key_encrypt cr rnd plaintext p =
     (case part_sender_key_id p of
        None \<Rightarrow> (Inl (Bail ''Sender Key not initialized''), p)
      | Some key_id \<Rightarrow>
          (case group_encrypt cr (part_sender_key_store p) (part_address p) key_id plaintext rnd of
             (res, s1) \<Rightarrow> (map_sum Protocol skm_serialized res, p\<lparr>part_sender_key_store := s1\<rparr>)))"

definition sender_key_decrypt ::
  "signal_crypto \<Rightarrow> string \<Rightarrow> bytes \<Rightarrow> 'p SignalParticipant \<Rightarrow> (SenderKeyError + bytes) \<times> 'p SignalParticipant" where
  "sender_key_decrypt cr sender b p =
     (case group_decrypt cr b (part_sender_key_store p) (address sender) of
        (res, s1) \<Rightarrow> (map_sum Protocol id res, p\<lparr>part_sender_key_store := s1\<rparr>))"

section \<open>The relay as the worker sees it\<close>

text \<open>Hexadecimal encoding and decoding of the message bytes in a JSON answer.\<close>

record hex_codec =
  hex_encode :: "bytes \<Rightarrow> string"
  hex_decode :: "string \<Rightarrow> bytes option"

definition relay_post_message ::
  "string \<Rightarrow> string \<Rightarrow> string list \<Rightarrow> bytes \<Rightarrow> SignalRelay \<Rightarrow> (SenderKeyError + unit) \<times> SignalRelay" where
  "relay_post_message conversation_id sender recipients b sr =
     (case http_publish_pairwise_message 0 sr conversation_id sender (Some (Some (join '','' recipients))) b of
        (status, sr1) \<Rightarrow> (if status = 200 then Inr () else Inl (RelayStatus status), sr1))"

definition relay_get_pending_message ::
  "hex_codec \<Rightarrow> string \<Rightarrow> string \<Rightarrow> SignalRelay \<Rightarrow> (SenderKeyError + PendingMessage) \<times> SignalRelay" where
  "relay_get_pending_message hx recipient sender sr =
     (case http_fetch_pending_message_from 0 (hex_encode hx) sr recipient sender of
        ((status, body), sr1) \<Rightarrow>
          (case body of JsonBody m \<Rightarrow> if status = 200 then Inr m else Inl (RelayStatus status)
           | _ \<Rightarrow> Inl (RelayStatus status), sr1))"

definition relay_ack_message :: "string \<Rightarrow> string \<Rightarrow> SignalRelay \<Rightarrow> (SenderKeyError + unit) \<times> SignalRelay" where
  "relay_ack_message recipient message_id sr =
     (case http_ack_message 0 sr recipient message_id of
        ((status, _), sr1) \<Rightarrow> (if status = 200 then Inr () else Inl (RelayStatus status), sr1))"

section \<open>Commands\<close>

text \<open>The loop of \<^verbatim>\<open>distribute\<close> over the recipients.\<close>

fun distribute_to ::
  "'p pairwise \<Rightarrow> bytes \<Rightarrow> string list \<Rightarrow> 'p SignalParticipant \<times> SignalRelay
     \<Rightarrow> (SenderKeyError + unit) \<times> 'p SignalParticipant \<times> SignalRelay" where
  "distribute_to pw distribution [] w = (Inr (), w)"
| "distribute_to pw distribution (recipient # rest) (p, sr) =
     (if \<not> has_session_with pw (part_sessions p) (address recipient) then
        (Inl (Bail ''distribution requires pairwise session''), (p, sr))
      else case encrypt_message pw (part_sessions p) (address recipient) distribution of
        (Inl e, ss) \<Rightarrow> (Inl (Pairwise e), (p\<lparr>part_sessions := ss\<rparr>, sr))
      | (Inr b, ss) \<Rightarrow>
          (case relay_post_message ''sender-key-distribution'' (part_name p) [recipient] b sr of
             (Inl e, sr1) \<Rightarrow> (Inl e, (p\<lparr>part_sessions := ss\<rparr>, sr1))
           | (Inr _, sr1) \<Rightarrow> distribute_to pw distribution rest (p\<lparr>part_sessions := ss\<rparr>, sr1)))"

definition distribute ::
  "signal_crypto \<Rightarrow> 'p pairwise \<Rightarrow> sender_key_randomness \<Rightarrow> string list \<Rightarrow> u64 option \<Rightarrow> 'p SignalParticipant \<times> SignalRelay
     \<Rightarrow> (SenderKeyError + unit) \<times> 'p SignalParticipant \<times> SignalRelay" where
  "distribute cr pw rnd recipients generation w =
     (case sender_key_distribution cr rnd generation (fst w) of
        (Inl e, p1) \<Rightarrow> (Inl e, (p1, snd w))
      | (Inr distribution, p1) \<Rightarrow> distribute_to pw distribution recipients (p1, snd w))"

text \<open>
  One turn of \<^verbatim>\<open>receive_distribution\<close>: \<open>Inr None\<close> asks for another turn, after an outdated delivery has been
  acknowledged.
\<close>

definition receive_distribution_turn ::
  "signal_crypto \<Rightarrow> hex_codec \<Rightarrow> 'p pairwise \<Rightarrow> string \<Rightarrow> bool \<Rightarrow> u64 option \<Rightarrow> 'p SignalParticipant \<times> SignalRelay
     \<Rightarrow> (SenderKeyError + unit option) \<times> 'p SignalParticipant \<times> SignalRelay" where
  "receive_distribution_turn cr hx pw sender eager_refresh expected_generation w =
     (case w of (p, sr) \<Rightarrow>
      case relay_get_pending_message hx (part_name p) sender sr of
        (Inl e, sr1) \<Rightarrow> (Inl e, (p, sr1))
      | (Inr delivery, sr1) \<Rightarrow>
        let ack = (\<lambda>done p'. case relay_ack_message (part_name p) (sp_id delivery) sr1 of
                     (Inl e, sr2) \<Rightarrow> (Inl e, (p', sr2)) | (Inr _, sr2) \<Rightarrow> (Inr done, (p', sr2)))
        in if eager_refresh \<and> sp_conversation_id delivery = ''sender-key-application'' then ack None p
           else if \<not> (sp_conversation_id delivery = ''sender-key-distribution'' \<and> sp_sender delivery = sender) then
             (Inl (Bail ''expected protected Sender Key distribution''), (p, sr1))
           else case hex_decode hx (sp_message_hex delivery) of
             None \<Rightarrow> (Inl BadHex, (p, sr1))
           | Some b \<Rightarrow>
             (case decrypt_message pw (part_sessions p) (address sender) b of
                (Inl e, ss) \<Rightarrow> (Inl (Pairwise e), (p\<lparr>part_sessions := ss\<rparr>, sr1))
              | (Inr distribution, ss) \<Rightarrow>
                (let p1 = p\<lparr>part_sessions := ss\<rparr>;
                     process = (case process_sender_key_distribution cr sender distribution p1 of
                         (Inl e, p2) \<Rightarrow> (Inl e, (p2, sr1))
                       | (Inr _, p2) \<Rightarrow> ack (Some ()) p2)
                 in case expected_generation of
                      None \<Rightarrow> process
                    | Some gen \<Rightarrow>
                      (case skdm_try_from cr distribution of
                         Inl e \<Rightarrow> (Inl (Protocol e), (p1, sr1))
                       | Inr m \<Rightarrow>
                         if \<not> skdm_distribution_id m \<le> ucast gen then
                           (Inl (Bail ''unexpected future Sender Key generation''), (p1, sr1))
                         else if skdm_distribution_id m < ucast gen then ack None p1
                         else process))))"

text \<open>The loop; fuel bounds the number of turns, \<open>None\<close> is running out of it.\<close>

fun receive_distribution ::
  "nat \<Rightarrow> signal_crypto \<Rightarrow> hex_codec \<Rightarrow> 'p pairwise \<Rightarrow> string \<Rightarrow> bool \<Rightarrow> u64 option \<Rightarrow> 'p SignalParticipant \<times> SignalRelay
     \<Rightarrow> ((SenderKeyError + unit) \<times> 'p SignalParticipant \<times> SignalRelay) option" where
  "receive_distribution 0 cr hx pw sender eager_refresh expected_generation w = None"
| "receive_distribution (Suc fuel) cr hx pw sender eager_refresh expected_generation w =
     (case receive_distribution_turn cr hx pw sender eager_refresh expected_generation w of
        (Inl e, w1) \<Rightarrow> Some (Inl e, w1)
      | (Inr (Some _), w1) \<Rightarrow> Some (Inr (), w1)
      | (Inr None, w1) \<Rightarrow> receive_distribution fuel cr hx pw sender eager_refresh expected_generation w1)"

definition command_sender_key_distribute ::
  "signal_crypto \<Rightarrow> 'p pairwise \<Rightarrow> sender_key_randomness \<Rightarrow> string list \<Rightarrow> u64 option \<Rightarrow> bool \<Rightarrow> 'p SignalParticipant \<times> SignalRelay
     \<Rightarrow> (SenderKeyError + unit) \<times> 'p SignalParticipant \<times> SignalRelay" where
  "command_sender_key_distribute cr pw rnd recipients generation eager_refresh w =
     (let w1 = (if eager_refresh then apfst (\<lambda>p. p\<lparr>part_sender_key_store := in_mem_sender_key_store_new\<rparr>) w else w)
      in distribute cr pw rnd recipients generation w1)"

fun onboard_from ::
  "nat \<Rightarrow> signal_crypto \<Rightarrow> hex_codec \<Rightarrow> 'p pairwise \<Rightarrow> bool \<Rightarrow> string list \<Rightarrow> 'p SignalParticipant \<times> SignalRelay
     \<Rightarrow> ((SenderKeyError + unit) \<times> 'p SignalParticipant \<times> SignalRelay) option" where
  "onboard_from fuel cr hx pw eager_refresh [] w = Some (Inr (), w)"
| "onboard_from fuel cr hx pw eager_refresh (sender # rest) w =
     (case receive_distribution fuel cr hx pw sender eager_refresh None w of
        None \<Rightarrow> None
      | Some (Inl e, w1) \<Rightarrow> Some (Inl e, w1)
      | Some (Inr _, w1) \<Rightarrow> onboard_from fuel cr hx pw eager_refresh rest w1)"

definition command_sender_key_onboard ::
  "nat \<Rightarrow> signal_crypto \<Rightarrow> hex_codec \<Rightarrow> 'p pairwise \<Rightarrow> sender_key_randomness \<Rightarrow> string list \<Rightarrow> u64 \<Rightarrow> bool
     \<Rightarrow> 'p SignalParticipant \<times> SignalRelay \<Rightarrow> ((SenderKeyError + unit) \<times> 'p SignalParticipant \<times> SignalRelay) option" where
  "command_sender_key_onboard fuel cr hx pw rnd participants generation eager_refresh w =
     (case onboard_from fuel cr hx pw eager_refresh participants
             (apfst (\<lambda>p. p\<lparr>part_sender_key_store := in_mem_sender_key_store_new\<rparr>) w) of
        None \<Rightarrow> None
      | Some (Inl e, w1) \<Rightarrow> Some (Inl e, w1)
      | Some (Inr _, w1) \<Rightarrow> Some (distribute cr pw rnd participants (Some generation) w1))"

definition command_sender_key_receive_distribution ::
  "nat \<Rightarrow> signal_crypto \<Rightarrow> hex_codec \<Rightarrow> 'p pairwise \<Rightarrow> string \<Rightarrow> u64 option \<Rightarrow> bool
     \<Rightarrow> 'p SignalParticipant \<times> SignalRelay \<Rightarrow> ((SenderKeyError + unit) \<times> 'p SignalParticipant \<times> SignalRelay) option" where
  "command_sender_key_receive_distribution fuel cr hx pw sender expected_generation eager_refresh w =
     receive_distribution fuel cr hx pw sender eager_refresh expected_generation w"

definition command_sender_key_encrypt ::
  "signal_crypto \<Rightarrow> bytes \<Rightarrow> string list \<Rightarrow> bytes \<Rightarrow> 'p SignalParticipant \<times> SignalRelay
     \<Rightarrow> (SenderKeyError + unit) \<times> 'p SignalParticipant \<times> SignalRelay" where
  "command_sender_key_encrypt cr rnd recipients message w =
     (case sender_key_encrypt cr rnd message (fst w) of
        (Inl e, p1) \<Rightarrow> (Inl e, (p1, snd w))
      | (Inr b, p1) \<Rightarrow> apsnd (Pair p1) (relay_post_message ''sender-key-application'' (part_name p1) recipients b (snd w)))"

definition command_sender_key_decrypt ::
  "signal_crypto \<Rightarrow> hex_codec \<Rightarrow> bool \<Rightarrow> string \<Rightarrow> nat \<Rightarrow> 'p SignalParticipant \<times> SignalRelay
     \<Rightarrow> (SenderKeyError + bytes) \<times> 'p SignalParticipant \<times> SignalRelay" where
  "command_sender_key_decrypt cr hx ack_arrives sender expected_plaintext_bytes w =
     (case w of (p, sr) \<Rightarrow>
      case relay_get_pending_message hx (part_name p) sender sr of
        (Inl e, sr1) \<Rightarrow> (Inl e, (p, sr1))
      | (Inr delivery, sr1) \<Rightarrow>
        if \<not> (sp_conversation_id delivery = ''sender-key-application'' \<and> sp_sender delivery = sender) then
          (Inl (Bail ''expected Sender Key application message''), (p, sr1))
        else case hex_decode hx (sp_message_hex delivery) of
          None \<Rightarrow> (Inl BadHex, (p, sr1))
        | Some b \<Rightarrow>
          (case sender_key_decrypt cr sender b p of
             (Inl e, p1) \<Rightarrow> (Inl e, (p1, sr1))
           | (Inr plaintext, p1) \<Rightarrow>
             if length plaintext \<noteq> expected_plaintext_bytes then (Inl (Bail ''unexpected plaintext size''), (p1, sr1))
             else if \<not> ack_arrives then (Inl (RelayStatus 503), (p1, sr1))
             else case relay_ack_message (part_name p1) (sp_id delivery) sr1 of
               (Inl e, sr2) \<Rightarrow> (Inl e, (p1, sr2))
             | (Inr _, sr2) \<Rightarrow> (Inr plaintext, (p1, sr2))))"

section \<open>Messages of one sender in any order\<close>

lemma encrypt_each:
  assumes laws: "crypto_laws cr"
  shows "part_sender_key_id p = Some d \<Longrightarrow> sending cr (part_address p) d cid k c0 (part_sender_key_store p) h \<Longrightarrow>
     h + length ms \<le> u32_max \<Longrightarrow>
     \<exists>p1. serve_all (\<lambda>p (m, rnd). sender_key_encrypt cr rnd m p) p ms =
       (map (\<lambda>j. (ms ! j, Inr (skm_serialized (wire_message cr d cid k c0 (h + j) (ms ! j))))) [0..<length ms], p1) \<and>
       part_sender_key_id p1 = Some d \<and> part_address p1 = part_address p \<and>
       sending cr (part_address p1) d cid k c0 (part_sender_key_store p1) (h + length ms)"
proof (induction ms arbitrary: p h)
  case (Cons x ms)
  obtain m rnd where x: "x = (m, rnd)" by (cases x)
  obtain s1 where e: "group_encrypt cr (part_sender_key_store p) (part_address p) d m rnd = (Inr (wire_message cr d cid k c0 h (m, rnd)), s1)"
      "sending cr (part_address p) d cid k c0 s1 (Suc h)"
    using group_encrypt_sending [OF laws Cons.prems(2)] Cons.prems(3) by fastforce
  let ?p = "p\<lparr>part_sender_key_store := s1\<rparr>"
  obtain p1 where p1: "serve_all (\<lambda>p (m, rnd). sender_key_encrypt cr rnd m p) ?p ms =
       (map (\<lambda>j. (ms ! j, Inr (skm_serialized (wire_message cr d cid k c0 (Suc h + j) (ms ! j))))) [0..<length ms], p1)"
      "part_sender_key_id p1 = Some d" "part_address p1 = part_address p"
      "sending cr (part_address p1) d cid k c0 (part_sender_key_store p1) (Suc h + length ms)"
    using Cons.IH [of ?p "Suc h"] Cons.prems e(2) by auto
  have "[0..<length (x # ms)] = 0 # map Suc [0..<length ms]" by (simp add: map_Suc_upt upt_conv_Cons del: upt_Suc)
  then have "serve_all (\<lambda>p (m, rnd). sender_key_encrypt cr rnd m p) p (x # ms) =
       (map (\<lambda>j. ((x # ms) ! j, Inr (skm_serialized (wire_message cr d cid k c0 (h + j) ((x # ms) ! j))))) [0..<length (x # ms)], p1)"
    using p1(1) e(1) Cons.prems(1) by (simp add: x sender_key_encrypt_def comp_def del: upt_Suc)
  then show ?case using p1 by auto
qed simp

text \<open>What arrives at a receiver: the message with a given number, or the distribution once more.\<close>

datatype arrival = Message nat | Distribution

definition arrive ::
  "signal_crypto \<Rightarrow> string \<Rightarrow> bytes \<Rightarrow> bytes list \<Rightarrow> 'p SignalParticipant \<Rightarrow> arrival \<Rightarrow> bytes option \<times> 'p SignalParticipant" where
  "arrive cr sender dist cts p x =
     (case x of
        Message i \<Rightarrow> apfst (\<lambda>res. case res of Inr m \<Rightarrow> Some m | Inl _ \<Rightarrow> None) (sender_key_decrypt cr sender (cts ! i) p)
      | Distribution \<Rightarrow> (None, snd (process_sender_key_distribution cr sender dist p)))"

text \<open>
  What a receiver should read that took the chain over before message \<open>n\<close>: every message from \<open>n\<close> on,
  at its first arrival.
\<close>

fun readings :: "nat \<Rightarrow> bytes list \<Rightarrow> nat set \<Rightarrow> arrival list \<Rightarrow> bytes option list" where
  "readings n plain seen [] = []"
| "readings n plain seen (Message i # xs) =
     (if n \<le> i \<and> i \<notin> seen then Some (plain ! i) else None) # readings n plain (insert i seen) xs"
| "readings n plain seen (Distribution # xs) = None # readings n plain seen xs"

lemma arrivals_read:
  assumes laws: "crypto_laws cr" and c0: "length c0 = 32" and m: "m - n \<le> MAX_MESSAGE_KEYS" "m \<le> u32_max"
    and cts: "\<And>i. i < m \<Longrightarrow> cts ! i = skm_serialized (wire_message cr d cid k c0 i (ms ! i))"
  shows "receiving cr (address sender) d cid k c0 n (part_sender_key_store p) w \<Longrightarrow> complete n m seen w \<Longrightarrow>
     list_all (\<lambda>x. case x of Message i \<Rightarrow> i < m | Distribution \<Rightarrow> True) xs \<Longrightarrow> length ms = m \<Longrightarrow>
     map snd (fst (serve_all (arrive cr sender (skdm_serialized (distribution_at cr d cid k c0 n)) cts) p xs)) =
       readings n (map fst ms) seen xs"
proof (induction xs arbitrary: p w seen)
  case (Cons x xs)
  show ?case
  proof (cases x)
    case Distribution
    let ?p = "p\<lparr>part_sender_key_store := process_sender_key_distribution_message (address sender)
        (distribution_at cr d cid k c0 n) (part_sender_key_store p)\<rparr>"
    have "receiving cr (address sender) d cid k c0 n (part_sender_key_store ?p) w"
      using process_distribution_again [OF laws Cons.prems(1)] by simp
    then show ?thesis using Cons.IH [of ?p w seen] Cons.prems Distribution
      by (simp add: arrive_def process_sender_key_distribution_def distribution_at_round_trip [OF laws c0])
  next
    case (Message i)
    then have i: "i < m" using Cons.prems(3) by simp
    obtain h kept where w: "w = (h, kept)" by (cases w)
    obtain ans w1 where req: "key_request (h, kept) i = (ans, w1)" by (metis surj_pair)
    have cm: "complete n m (insert i seen) w1" "case ans of Inl e \<Rightarrow> w1 = w \<and> (i < n \<or> i \<in> seen) | Inr _ \<Rightarrow> n \<le> i \<and> i \<notin> seen"
      using complete_request [OF Cons.prems(2) i m] req w by auto
    have i': "i \<le> u32_max" using i m by simp
    note dec = group_decrypt_receiving [OF laws Cons.prems(1) [unfolded w] i' req, of "ms ! i"]
    show ?thesis
    proof (cases ans)
      case (Inl e)
      then have "sender_key_decrypt cr sender (cts ! i) p = (Inl (Protocol e), p)"
        using dec cts [OF i] by (simp add: sender_key_decrypt_def)
      then show ?thesis using Cons.IH [of p w "insert i seen"] Cons.prems cm Inl Message by (auto simp: arrive_def)
    next
      case (Inr j)
      then obtain s1 where s1: "group_decrypt cr (cts ! i) (part_sender_key_store p) (address sender) = (Inr (fst (ms ! i)), s1)"
          "receiving cr (address sender) d cid k c0 n s1 w1"
        using dec cts [OF i] by auto
      then have "sender_key_decrypt cr sender (cts ! i) p = (Inr (fst (ms ! i)), p\<lparr>part_sender_key_store := s1\<rparr>)"
        by (simp add: sender_key_decrypt_def)
      then show ?thesis using Cons.IH [of "p\<lparr>part_sender_key_store := s1\<rparr>" w1 "insert i seen"] Cons.prems cm Inr Message s1(2) i
        by (simp add: arrive_def)
    qed
  qed
qed simp

lemma sender_key_distribution_fresh:
  assumes laws: "crypto_laws cr" and len: "length (rnd_sender_key rnd) = 32" "length (rnd_signing_key rnd) = 32"
    and none: "load_sender_key (part_address a) (ucast g) (part_sender_key_store a) = None"
    and dist: "sender_key_distribution cr rnd (Some g) a = (Inr b, a1)"
  defines "cid \<equiv> drop_bit 1 (rnd_chain_id rnd)" and "k \<equiv> clamp_integer cr (rnd_signing_key rnd)"
  shows "b = skdm_serialized (distribution_at cr (ucast g) cid k (rnd_sender_key rnd) 0) \<and>
    part_sender_key_id a1 = Some (ucast g) \<and> part_address a1 = part_address a \<and>
    sending cr (part_address a1) (ucast g) cid k (rnd_sender_key rnd) (part_sender_key_store a1) 0"
proof -
  obtain s1 where "create_sender_key_distribution_message cr (part_address a) (ucast g) (part_sender_key_store a) rnd =
      (Inr (distribution_at cr (ucast g) cid k (rnd_sender_key rnd) 0), s1)"
      "sending cr (part_address a) (ucast g) cid k (rnd_sender_key rnd) s1 0"
    using create_distribution_fresh [OF laws none len] unfolding cid_def k_def by blast
  then show ?thesis using dist by (auto simp: sender_key_distribution_def Let_def split: if_splits)
qed


definition demo_participant :: "string \<Rightarrow> unit SignalParticipant" where
  "demo_participant name =
     \<lparr>part_name = name, part_address = address name, part_sender_key_id = None,
      part_sender_key_store = in_mem_sender_key_store_new, part_sessions = ()\<rparr>"

definition demo_randomness :: sender_key_randomness where
  "demo_randomness = \<lparr>rnd_chain_id = 8, rnd_sender_key = replicate 32 1, rnd_signing_key = replicate 32 2\<rparr>"

lemma demo_distribution:
  "\<exists>first a1. sender_key_distribution demo_crypto demo_randomness (Some 1) (demo_participant n) = (Inr first, a1)"
proof -
  have "load_sender_key (address n) 1 in_mem_sender_key_store_new = None"
    by (simp add: load_sender_key_def in_mem_sender_key_store_new_def)
  from create_distribution_fresh [OF demo_crypto_laws this, of demo_randomness]
  show ?thesis by (auto simp: sender_key_distribution_def demo_participant_def demo_randomness_def)
qed


section \<open>Removed members\<close>

text \<open>
  (C20) When a sender moves on to a fresh generation, a participant that holds only keys of earlier generations of
  that sender, such as a member that was removed, cannot read anything the sender encrypts from then on, and its
  attempts change nothing.
\<close>

theorem fresh_generation_excludes:
  assumes "crypto_laws cr" and "length (rnd_sender_key rnd) = 32" and "length (rnd_signing_key rnd) = 32"
    and "load_sender_key (part_address a) (ucast g) (part_sender_key_store a) = None"
    and "sender_key_distribution cr rnd (Some g) a = (Inr dist, a1)"
    and "serve_all (\<lambda>p (m, r). sender_key_encrypt cr r m p) a1 ms = (sent, a2)" and "length ms \<le> u32_max"
    and "\<And>d. ks_keys (part_sender_key_store c) (address alice, d) \<noteq> None \<Longrightarrow> d < ucast g"
  shows "\<exists>cts. map snd sent = map Inr cts \<and>
    list_all (\<lambda>ct. sender_key_decrypt cr alice ct c = (Inl (Protocol (NoSenderKeyState (ucast g))), c)) cts"
proof -
  let ?d = "ucast g :: uuid" and ?c0 = "rnd_sender_key rnd"
  define cid where "cid = drop_bit 1 (rnd_chain_id rnd)"
  define k where "k = clamp_integer cr (rnd_signing_key rnd)"
  have a1: "part_sender_key_id a1 = Some ?d" "sending cr (part_address a1) ?d cid k ?c0 (part_sender_key_store a1) 0"
    using sender_key_distribution_fresh [OF assms(1-5)] unfolding cid_def k_def by auto
  let ?ct = "\<lambda>j. skm_serialized (wire_message cr ?d cid k ?c0 j (ms ! j))"
  have "map snd sent = map Inr (map ?ct [0..<length ms])"
    using encrypt_each [OF assms(1) a1, of ms] assms(6,7) by auto
  moreover have "sender_key_decrypt cr alice (?ct j) c = (Inl (Protocol (NoSenderKeyState ?d)), c)" for j
  proof -
    have "load_sender_key (address alice) ?d (part_sender_key_store c) = None"
      using assms(8) [of ?d] by (cases "ks_keys (part_sender_key_store c) (address alice, ?d)") (simp_all add: load_sender_key_def)
    moreover have "skm_try_from cr (?ct j) = Inr (wire_message cr ?d cid k ?c0 j (ms ! j))"
        "skm_distribution_id (wire_message cr ?d cid k ?c0 j (ms ! j)) = ?d"
      using sender_key_message_round_trip [OF assms(1)] by (simp_all add: wire_message_def sender_key_message_new_def Let_def)
    ultimately show ?thesis by (simp add: sender_key_decrypt_def group_decrypt_def Let_def)
  qed
  ultimately show ?thesis by (intro exI [of _ "map ?ct [0..<length ms]"] conjI) (simp_all only: list_all_iff, simp)
qed

theorem fresh_generation_excludes_witness:
  "\<exists>dist a1 sent a2 cts.
     sender_key_distribution demo_crypto demo_randomness (Some 1) (demo_participant ''alice'') = (Inr dist, a1) \<and>
     serve_all (\<lambda>p (m, r). sender_key_encrypt demo_crypto r m p) a1 [([1], [])] = (sent, a2) \<and>
     map snd sent = map Inr cts \<and>
     list_all (\<lambda>ct. sender_key_decrypt demo_crypto ''alice'' ct (demo_participant ''carol'') =
       (Inl (Protocol (NoSenderKeyState 1)), demo_participant ''carol'')) cts"
proof -
  obtain dist a1 where d: "sender_key_distribution demo_crypto demo_randomness (Some 1) (demo_participant ''alice'') = (Inr dist, a1)"
    using demo_distribution by blast
  obtain sent a2 where s: "serve_all (\<lambda>p (m, r). sender_key_encrypt demo_crypto r m p) a1 [([1], [])] = (sent, a2)"
    by (metis surj_pair)
  have "\<exists>cts. map snd sent = map Inr cts \<and>
      list_all (\<lambda>ct. sender_key_decrypt demo_crypto ''alice'' ct (demo_participant ''carol'') =
        (Inl (Protocol (NoSenderKeyState (ucast (1 :: u64)))), demo_participant ''carol'')) cts"
    by (rule fresh_generation_excludes [OF demo_crypto_laws _ _ _ d s])
      (simp_all add: demo_randomness_def demo_participant_def u32_max_def load_sender_key_def in_mem_sender_key_store_new_def)
  then show ?thesis using d s by (metis unsigned_1)
qed

section \<open>Commands that fail after decrypting\<close>

lemma relay_get_pending:
  assumes "List.find (\<lambda>e. se_sender e = sender) (signal_inbox sr r) = Some e"
  shows "fst (relay_get_pending_message hx r sender sr) = Inr (to_pending_message (hex_encode hx) e)"
    and "signal_inbox (snd (relay_get_pending_message hx r sender sr)) r' = signal_inbox sr r'"
proof -
  obtain st bd sr1 where h: "http_fetch_pending_message_from 0 (hex_encode hx) sr r sender = ((st, bd), sr1)"
    by (cases "http_fetch_pending_message_from 0 (hex_encode hx) sr r sender") auto
  then have "st = 200" "bd = JsonBody (to_pending_message (hex_encode hx) e)" "signal_inbox sr1 r' = signal_inbox sr r'" for r'
    using http_fetch_from [of 0 "hex_encode hx" sr r sender] assms by (simp_all add: body_or_404_def)
  then show "fst (relay_get_pending_message hx r sender sr) = Inr (to_pending_message (hex_encode hx) e)"
    "signal_inbox (snd (relay_get_pending_message hx r sender sr)) r' = signal_inbox sr r'"
    by (simp_all add: relay_get_pending_message_def h)
qed

lemma key_request_twice:
  assumes "chain_rel cr i0 c st (h, kept)" and "key_request (h, kept) i = (Inr j, w1)"
  shows "\<exists>e. key_request w1 i = (Inl e, w1)"
proof -
  have k: "distinct kept" using assms(1) by (auto simp: chain_rel_def strict_sorted_iff)
  show ?thesis
  proof (cases "i < h")
    case True
    then have "w1 = (h, remove1 i kept)" using assms(2) by (auto split: if_splits)
    then show ?thesis using True k by simp
  next
    case False
    then have w1: "w1 = (Suc i, drop_oldest MAX_MESSAGE_KEYS (kept @ [h..<i]))" using assms(2) by (auto split: if_splits)
    have "set kept \<subseteq> {..<h}" using assms(1) by (auto simp: chain_rel_def)
    then have "i \<notin> set (drop_oldest MAX_MESSAGE_KEYS (kept @ [h..<i]))"
      using set_drop_oldest [of MAX_MESSAGE_KEYS "kept @ [h..<i]"] False by auto
    then show ?thesis using w1 by simp
  qed
qed

text \<open>The next message from the sender cannot be read, whatever is tried.\<close>

definition stuck ::
  "signal_crypto \<Rightarrow> string \<Rightarrow> SignalEnvelope \<Rightarrow> 'p SignalParticipant \<times> SignalRelay \<Rightarrow> bool" where
  "stuck cr sender e w \<longleftrightarrow>
     List.find (\<lambda>e. se_sender e = sender) (signal_inbox (snd w) (part_name (fst w))) = Some e \<and>
     (\<exists>err. sender_key_decrypt cr sender (se_message_bytes e) (fst w) = (Inl err, fst w))"

lemma stuck_step:
  assumes "stuck cr sender e w" and "\<And>b. hex_decode hx (hex_encode hx b) = Some b"
  shows "\<exists>err. fst (command_sender_key_decrypt cr hx ok sender n w) = Inl err"
    and "stuck cr sender e (snd (command_sender_key_decrypt cr hx ok sender n w))"
proof -
  obtain p sr where w: "w = (p, sr)" by (cases w)
  obtain d sr1 where g: "relay_get_pending_message hx (part_name p) sender sr = (d, sr1)" by (metis surj_pair)
  have find: "List.find (\<lambda>e. se_sender e = sender) (signal_inbox sr (part_name p)) = Some e"
    and dec: "\<exists>err. sender_key_decrypt cr sender (se_message_bytes e) p = (Inl err, p)"
    using assms(1) by (simp_all add: stuck_def w)
  have d: "d = Inr (to_pending_message (hex_encode hx) e)" and same: "\<And>r. signal_inbox sr1 r = signal_inbox sr r"
    using relay_get_pending [OF find, of hx] g by simp_all
  obtain e0 where e0: "sender_key_decrypt cr sender (se_message_bytes e) p = (Inl e0, p)" using dec by blast
  have "\<exists>err. command_sender_key_decrypt cr hx ok sender n w = (Inl err, (p, sr1))"
    by (simp add: command_sender_key_decrypt_def w g d to_pending_message_def assms(2) e0)
  then obtain err where err: "command_sender_key_decrypt cr hx ok sender n w = (Inl err, (p, sr1))" by blast
  then show "\<exists>err. fst (command_sender_key_decrypt cr hx ok sender n w) = Inl err" by simp
  show "stuck cr sender e (snd (command_sender_key_decrypt cr hx ok sender n w))"
    using find dec same by (simp add: err stuck_def)
qed

lemma stuck_forever:
  assumes hex: "\<And>b. hex_decode hx (hex_encode hx b) = Some b"
  shows "stuck cr sender e w \<Longrightarrow>
    list_all (\<lambda>(_, res). \<exists>err. res = Inl err)
      (fst (serve_all (\<lambda>w (ok, n). command_sender_key_decrypt cr hx ok sender n w) w attempts))"
proof (induction attempts arbitrary: w)
  case (Cons x xs)
  obtain ok n where x: "x = (ok, n)" by (cases x)
  show ?case using Cons.IH stuck_step [OF Cons.prems hex, of ok n]
    by (auto simp: x split: prod.splits)
qed simp

text \<open>
  (C36) The command that receives a message first advances the chain and only then checks the size of the plaintext and
  acknowledges the delivery. When the size differs from the expected one, or the acknowledgement does not get
  through, the command fails and the message stays at the relay with its key used up: every later attempt to receive from
  that sender fails as well, so nothing that sender posts afterwards can be received.
\<close>

theorem failed_receive_blocks_sender:
  assumes "crypto_laws cr" and "\<And>b. hex_decode hx (hex_encode hx b) = Some b"
    and "receiving cr (address sender) d cid k c0 i0 (part_sender_key_store p) w" and "i \<le> u32_max"
    and "List.find (\<lambda>e. se_sender e = sender) (signal_inbox sr (part_name p)) = Some e"
    and "se_conversation_id e = ''sender-key-application''"
    and "se_message_bytes e = skm_serialized (wire_message cr d cid k c0 i (m, rnd))"
    and "\<not> ack_arrives \<or> n \<noteq> length m"
    and "command_sender_key_decrypt cr hx ack_arrives sender n (p, sr) = (res, w1)"
  shows "(\<exists>err. res = Inl err) \<and>
    list_all (\<lambda>(_, res). \<exists>err. res = Inl err)
      (fst (serve_all (\<lambda>w (ok, n). command_sender_key_decrypt cr hx ok sender n w) w1 attempts))"
proof -
  obtain h kept where w: "w = (h, kept)" by (cases w)
  obtain ans v where req: "key_request (h, kept) i = (ans, v)" by (metis surj_pair)
  note dec = group_decrypt_receiving [OF assms(1) assms(3) [unfolded w] assms(4) req, of "(m, rnd)", folded assms(7)]
  obtain del sr1 where g: "relay_get_pending_message hx (part_name p) sender sr = (del, sr1)" by (metis surj_pair)
  have d: "del = Inr (to_pending_message (hex_encode hx) e)" and same: "\<And>r. signal_inbox sr1 r = signal_inbox sr r"
    using relay_get_pending [OF assms(5), of hx] g by simp_all
  have snd: "se_sender e = sender" using assms(5) by (auto simp: find_Some_iff)
  have "(\<exists>err. res = Inl err) \<and> stuck cr sender e w1"
  proof (cases ans)
    case (Inl err)
    then have "sender_key_decrypt cr sender (se_message_bytes e) p = (Inl (Protocol err), p)"
      using dec by (simp add: sender_key_decrypt_def)
    then have st: "stuck cr sender e (p, sr)" using assms(5) by (simp add: stuck_def)
    then show ?thesis using stuck_step [OF st assms(2), of ack_arrives n] assms(9) by simp
  next
    case (Inr j)
    then obtain s1 where s1: "group_decrypt cr (se_message_bytes e) (part_sender_key_store p) (address sender) = (Inr m, s1)"
        "receiving cr (address sender) d cid k c0 i0 s1 v" using dec by auto
    have dec1: "sender_key_decrypt cr sender (se_message_bytes e) p = (Inr m, p\<lparr>part_sender_key_store := s1\<rparr>)"
      using s1(1) by (simp add: sender_key_decrypt_def)
    have "(\<exists>err. res = Inl err) \<and> w1 = (p\<lparr>part_sender_key_store := s1\<rparr>, sr1)"
    proof (cases "length m = n")
      case True
      then show ?thesis using assms(8,9) dec1
        by (auto simp: command_sender_key_decrypt_def g d to_pending_message_def assms(2,6) snd)
    next
      case False
      then show ?thesis using assms(9) dec1
        by (auto simp: command_sender_key_decrypt_def g d to_pending_message_def assms(2,6) snd)
    qed
    moreover have "\<exists>err. sender_key_decrypt cr sender (se_message_bytes e) (p\<lparr>part_sender_key_store := s1\<rparr>) =
        (Inl err, p\<lparr>part_sender_key_store := s1\<rparr>)"
    proof -
      obtain st where "chain_rel cr i0 (chain_from cr c0 i0) st (h, kept)" using assms(3) by (auto simp: receiving_def w)
      then obtain e' where "key_request v i = (Inl e', v)" using key_request_twice req Inr by blast
      then show ?thesis using group_decrypt_receiving [OF assms(1), of "address sender" d cid k c0 i0 s1 "fst v" "snd v" i] s1(2) assms(4)
        by (fastforce simp: sender_key_decrypt_def assms(7))
    qed
    ultimately show ?thesis using assms(5) same by (simp add: stuck_def)
  qed
  then show ?thesis using stuck_forever [OF assms(2)] by blast
qed

definition demo_hex :: hex_codec where
  "demo_hex = \<lparr>hex_encode = map (\<lambda>x. char_of (unat x)), hex_decode = \<lambda>s. Some (map (\<lambda>c. of_nat (of_char c)) s)\<rparr>"

lemma demo_hex_inverse: "hex_decode demo_hex (hex_encode demo_hex b) = Some b"
proof -
  have "of_nat (of_char (char_of (unat x) :: char)) = x" for x :: u8
  proof -
    have "unat x < 256" using unsigned_less [of x] by simp
    then show ?thesis by simp
  qed
  then show ?thesis by (simp add: demo_hex_def comp_def)
qed

text \<open>Bob has the key of Alice, and her first message waits for him at the relay.\<close>

definition demo_chain :: "(bytes \<Rightarrow> bytes \<Rightarrow> 'a) \<Rightarrow> 'a" where
  "demo_chain f = f (replicate 32 2) (replicate 32 1)"

definition demo_bob :: "unit SignalParticipant" where
  "demo_bob = (demo_participant ''bob'')\<lparr>part_sender_key_store := process_sender_key_distribution_message (address ''alice'')
     (demo_chain (\<lambda>k c. distribution_at demo_crypto 1 4 k c 0)) in_mem_sender_key_store_new\<rparr>"

definition demo_delivery :: SignalEnvelope where
  "demo_delivery = \<lparr>se_id = ''1'', se_conversation_id = ''sender-key-application'', se_sender = ''alice'',
     se_message_bytes = skm_serialized (demo_chain (\<lambda>k c. wire_message demo_crypto 1 4 k c 0 ([7], [])))\<rparr>"

definition demo_mail :: SignalRelay where
  "demo_mail = (signal_relay_new (service_metrics_new None))\<lparr>sr_inboxes := [''bob'' \<mapsto> [demo_delivery]]\<rparr>"

theorem failed_receive_blocks_sender_witness:
  "\<exists>res w1. command_sender_key_decrypt demo_crypto demo_hex True ''alice'' 2 (demo_bob, demo_mail) = (res, w1) \<and>
     (\<exists>err. res = Inl err) \<and>
     list_all (\<lambda>(_, res). \<exists>err. res = Inl err)
       (fst (serve_all (\<lambda>w (ok, n). command_sender_key_decrypt demo_crypto demo_hex ok ''alice'' n w) w1 [(True, 1), (True, 1)]))"
proof -
  obtain res w1 where c: "command_sender_key_decrypt demo_crypto demo_hex True ''alice'' 2 (demo_bob, demo_mail) = (res, w1)"
    by (metis surj_pair)
  have "receiving demo_crypto (address ''alice'') 1 4 (replicate 32 2) (replicate 32 1) 0 (part_sender_key_store demo_bob) (0, [])"
    using process_distribution_fresh [OF demo_crypto_laws, of "address ''alice''" 1 in_mem_sender_key_store_new 0]
    by (simp add: demo_bob_def demo_chain_def load_sender_key_def in_mem_sender_key_store_new_def)
  moreover have "List.find (\<lambda>e. se_sender e = ''alice'') (signal_inbox demo_mail (part_name demo_bob)) = Some demo_delivery"
    by (simp add: demo_mail_def demo_bob_def demo_participant_def signal_inbox_def queue_of_def demo_delivery_def)
  ultimately show ?thesis
    using failed_receive_blocks_sender [OF demo_crypto_laws demo_hex_inverse _ _ _ _ _ _ c, of 1 4 "replicate 32 2" "replicate 32 1" 0
        "(0, [])" 0 demo_delivery "[7]" "[]" "[(True, 1), (True, 1)]"] c
    by (simp add: demo_delivery_def demo_chain_def)
qed

section \<open>Waiting for a distribution\<close>

lemma distribution_turn_progress:
  assumes "receive_distribution_turn cr hx pw sender eager gen (p, sr) = (Inr None, (p1, sr1))"
  shows "part_name p1 = part_name p \<and>
    length (filter (\<lambda>e. se_sender e = sender) (signal_inbox sr1 (part_name p))) <
    length (filter (\<lambda>e. se_sender e = sender) (signal_inbox sr (part_name p)))"
proof -
  let ?q = "signal_inbox sr (part_name p)"
  obtain st bd sr0 where h: "http_fetch_pending_message_from 0 (hex_encode hx) sr (part_name p) sender = ((st, bd), sr0)"
    by (cases "http_fetch_pending_message_from 0 (hex_encode hx) sr (part_name p) sender") auto
  show ?thesis
  proof (cases "List.find (\<lambda>e. se_sender e = sender) ?q")
    case None
    then have "st = 404" "bd = EmptyBody"
      using http_fetch_from(1) [of 0 "hex_encode hx" sr "part_name p" sender] h by (simp_all add: body_or_404_def)
    then show ?thesis using assms by (simp add: receive_distribution_turn_def relay_get_pending_message_def h)
  next
    case (Some e)
    obtain del sr0 where g: "relay_get_pending_message hx (part_name p) sender sr = (del, sr0)" by (metis surj_pair)
    have d: "del = Inr (to_pending_message (hex_encode hx) e)" and same: "\<And>r. signal_inbox sr0 r = signal_inbox sr r"
      using relay_get_pending [OF Some, of hx] g by simp_all
    obtain s2 b2 sr2 where a: "http_ack_message 0 sr0 (part_name p) (se_id e) = ((s2, b2), sr2)"
      by (cases "http_ack_message 0 sr0 (part_name p) (se_id e)") auto
    have ack: "relay_ack_message (part_name p) (se_id e) sr0 = (Inr (), sr2)" "signal_inbox sr2 (part_name p) = retain_other se_id (se_id e) ?q"
      using http_ack_inbox [of 0 sr0 "part_name p" "se_id e"] a same by (simp_all add: relay_ack_message_def)
    have e: "e \<in> set ?q" "se_sender e = sender" using Some by (auto simp: find_Some_iff)
    have "part_name p1 = part_name p \<and> sr1 = sr2"
      using assms by (auto simp: receive_distribution_turn_def g d to_pending_message_def ack Let_def process_sender_key_distribution_def
          split: if_splits option.splits sum.splits prod.splits)
    moreover have "length (filter (\<lambda>e. se_sender e = sender) (retain_other se_id (se_id e) ?q)) < length (filter (\<lambda>e. se_sender e = sender) ?q)"
    proof -
      have "filter (\<lambda>e. se_sender e = sender) (retain_other se_id (se_id e) ?q) =
          filter (\<lambda>m. se_id m \<noteq> se_id e) (filter (\<lambda>e. se_sender e = sender) ?q)"
        by (auto simp: retain_other_def filter_filter intro: filter_cong)
      then show ?thesis using e length_filter_less [of e "filter (\<lambda>e. se_sender e = sender) ?q" "\<lambda>m. se_id m \<noteq> se_id e"] by simp
    qed
    ultimately show ?thesis using ack(2) by simp
  qed
qed

text \<open>
  (C31) The loop that waits for a key distribution ends: each turn that asks for another one has acknowledged a delivery of
  the sender, so it takes at most one turn more than there are deliveries of that sender in the inbox.
\<close>

theorem receive_distribution_returns:
  "length (filter (\<lambda>e. se_sender e = sender) (signal_inbox sr (part_name p))) < fuel \<Longrightarrow>
     \<exists>r. receive_distribution fuel cr hx pw sender eager gen (p, sr) = Some r"
proof (induction fuel arbitrary: p sr)
  case (Suc fuel)
  obtain res p1 sr1 where t: "receive_distribution_turn cr hx pw sender eager gen (p, sr) = (res, (p1, sr1))"
    by (cases "receive_distribution_turn cr hx pw sender eager gen (p, sr)") auto
  show ?case
  proof (cases "res = Inr None")
    case True
    then show ?thesis using Suc.IH [of sr1 p1] Suc.prems distribution_turn_progress [OF t [unfolded True]] t by simp
  next
    case False
    then show ?thesis using t by (auto split: sum.splits option.splits)
  qed
qed simp

theorem receive_distribution_returns_witness:
  "\<exists>r. receive_distribution 2 demo_crypto demo_hex
     \<lparr>has_session_with = \<lambda>_ _. True, encrypt_message = \<lambda>s _ b. (Inr b, s), decrypt_message = \<lambda>s _ b. (Inr b, s)\<rparr>
     ''alice'' True None (demo_bob, demo_mail) = Some r"
  by (rule receive_distribution_returns)
    (simp add: demo_mail_def demo_bob_def demo_participant_def signal_inbox_def queue_of_def demo_delivery_def)

end
