(* ===== verification/Key_Repository.thy ===== *)
theory Key_Repository
  imports Relay_Http
begin

text \<open>
  The prekey repository of the Signal side (\<^verbatim>\<open>src/Signal_containerized/src/key_repository.rs\<close> and
  \<^verbatim>\<open>bin/key_repository.rs\<close>): a queue of prekey bundles per participant, one-time bundles first and the signed-prekey
  fallback last. A session is established by fetching the bundle at the front and then asking for its consumption, in
  two requests.
\<close>

section \<open>Bundles\<close>

record PrekeyBundleStorable =
  pb_registration_id :: u32
  pb_device_id :: u32
  pb_bundle_id :: string
  pb_prekey_id :: "u32 option"
  pb_prekey_public :: "bytes option"
  pb_classical_one_time_prekey_present :: bool
  pb_classical_one_time_prekey_id :: "u32 option"
  pb_signed_prekey_id :: u32
  pb_signed_prekey_public :: bytes
  pb_signed_prekey_signature :: bytes
  pb_identity_key_public :: bytes
  pb_kyber_prekey_id :: u32
  pb_kyber_prekey_public :: bytes
  pb_kyber_prekey_signature :: bytes
  pb_pq_prekey_id :: u32
  pb_pq_prekey_type :: string
  pb_pq_prekey_signature_present :: bool

definition is_one_time :: "PrekeyBundleStorable \<Rightarrow> bool" where
  "is_one_time b = (pb_classical_one_time_prekey_present b \<or> pb_pq_prekey_type b = ''one_time'')"

record PrekeyStock =
  stock_participant :: string
  one_time_available :: nat
  fallback_available :: bool

record OneTimePrekeyStorable =
  ot_prekey_id :: u32
  ot_prekey_public :: bytes
  ot_pq_prekey_id :: u32
  ot_pq_prekey_public :: bytes
  ot_pq_prekey_signature :: bytes

record PrekeyBundleBatchStorable =
  batch_registration_id :: u32
  batch_device_id :: u32
  batch_signed_prekey_id :: u32
  batch_signed_prekey_public :: bytes
  batch_signed_prekey_signature :: bytes
  batch_identity_key_public :: bytes
  batch_last_resort_pq_prekey_id :: u32
  batch_last_resort_pq_prekey_public :: bytes
  batch_last_resort_pq_prekey_signature :: bytes
  batch_one_time_prekeys :: "OneTimePrekeyStorable list"
  batch_signed_prekey_fallback :: bool

definition bundle_id :: "u32 \<Rightarrow> u32 \<Rightarrow> u32 option \<Rightarrow> u32 \<Rightarrow> string \<Rightarrow> string" where
  "bundle_id device_id signed_prekey_id classical_prekey_id pq_prekey_id pq_type =
     ''device'' @ show_nat (unat device_id) @ ''-spk'' @ show_nat (unat signed_prekey_id) @ ''-classical'' @
     (case classical_prekey_id of Some i \<Rightarrow> show_nat (unat i) | None \<Rightarrow> ''none'') @ ''-pq'' @ show_nat (unat pq_prekey_id) @
     ''-'' @ pq_type"

definition one_time_bundle :: "PrekeyBundleBatchStorable \<Rightarrow> OneTimePrekeyStorable \<Rightarrow> PrekeyBundleStorable" where
  "one_time_bundle batch k =
     \<lparr>pb_registration_id = batch_registration_id batch, pb_device_id = batch_device_id batch,
      pb_bundle_id = bundle_id (batch_device_id batch) (batch_signed_prekey_id batch) (Some (ot_prekey_id k)) (ot_pq_prekey_id k) ''one_time'',
      pb_prekey_id = Some (ot_prekey_id k), pb_prekey_public = Some (ot_prekey_public k),
      pb_classical_one_time_prekey_present = True, pb_classical_one_time_prekey_id = Some (ot_prekey_id k),
      pb_signed_prekey_id = batch_signed_prekey_id batch, pb_signed_prekey_public = batch_signed_prekey_public batch,
      pb_signed_prekey_signature = batch_signed_prekey_signature batch, pb_identity_key_public = batch_identity_key_public batch,
      pb_kyber_prekey_id = ot_pq_prekey_id k, pb_kyber_prekey_public = ot_pq_prekey_public k,
      pb_kyber_prekey_signature = ot_pq_prekey_signature k, pb_pq_prekey_id = ot_pq_prekey_id k,
      pb_pq_prekey_type = ''one_time'', pb_pq_prekey_signature_present = (ot_pq_prekey_signature k \<noteq> [])\<rparr>"

definition fallback_bundle :: "PrekeyBundleBatchStorable \<Rightarrow> PrekeyBundleStorable" where
  "fallback_bundle batch =
     \<lparr>pb_registration_id = batch_registration_id batch, pb_device_id = batch_device_id batch,
      pb_bundle_id = bundle_id (batch_device_id batch) (batch_signed_prekey_id batch) None (batch_last_resort_pq_prekey_id batch) ''last_resort'',
      pb_prekey_id = None, pb_prekey_public = None,
      pb_classical_one_time_prekey_present = False, pb_classical_one_time_prekey_id = None,
      pb_signed_prekey_id = batch_signed_prekey_id batch, pb_signed_prekey_public = batch_signed_prekey_public batch,
      pb_signed_prekey_signature = batch_signed_prekey_signature batch, pb_identity_key_public = batch_identity_key_public batch,
      pb_kyber_prekey_id = batch_last_resort_pq_prekey_id batch, pb_kyber_prekey_public = batch_last_resort_pq_prekey_public batch,
      pb_kyber_prekey_signature = batch_last_resort_pq_prekey_signature batch, pb_pq_prekey_id = batch_last_resort_pq_prekey_id batch,
      pb_pq_prekey_type = ''last_resort'', pb_pq_prekey_signature_present = (batch_last_resort_pq_prekey_signature batch \<noteq> [])\<rparr>"

definition expand :: "PrekeyBundleBatchStorable \<Rightarrow> PrekeyBundleStorable list" where
  "expand batch =
     map (one_time_bundle batch) (batch_one_time_prekeys batch) @
     (if batch_signed_prekey_fallback batch then [fallback_bundle batch] else [])"

section \<open>The repository\<close>

record KeyRepository =
  prekey_bundles :: "string \<rightharpoonup> PrekeyBundleStorable list"
  one_time_prekey_consumption :: "string \<rightharpoonup> u64"
  kr_metrics :: ServiceMetrics

definition key_repository_new :: "ServiceMetrics \<Rightarrow> KeyRepository" where
  "key_repository_new m = \<lparr>prekey_bundles = Map.empty, one_time_prekey_consumption = Map.empty, kr_metrics = m\<rparr>"

definition publish_prekey_bundle :: "string \<Rightarrow> PrekeyBundleStorable \<Rightarrow> KeyRepository \<Rightarrow> KeyRepository" where
  "publish_prekey_bundle participant b kr =
     kr\<lparr>prekey_bundles := (prekey_bundles kr)(participant \<mapsto> queue_of (prekey_bundles kr) participant @ [b])\<rparr>"

text \<open>The two loops that sort bundles into the one-time queue and the fallback, the last fallback winning.\<close>

fun sort_bundles :: "PrekeyBundleStorable list \<Rightarrow> PrekeyBundleStorable list \<times> PrekeyBundleStorable option
    \<Rightarrow> PrekeyBundleStorable list \<times> PrekeyBundleStorable option" where
  "sort_bundles [] acc = acc"
| "sort_bundles (b # bs) (one_time, fallback) =
     sort_bundles bs (if is_one_time b then (one_time @ [b], fallback) else (one_time, Some b))"

definition publish_prekey_bundles :: "string \<Rightarrow> PrekeyBundleStorable list \<Rightarrow> KeyRepository \<Rightarrow> KeyRepository" where
  "publish_prekey_bundles participant bundles kr =
     (case sort_bundles bundles (sort_bundles (queue_of (prekey_bundles kr) participant) ([], None)) of
        (one_time, fallback) \<Rightarrow>
          kr\<lparr>prekey_bundles := (prekey_bundles kr)(participant \<mapsto>
             (case fallback of Some b \<Rightarrow> one_time @ [b] | None \<Rightarrow> one_time))\<rparr>)"

definition publish_prekey_bundle_batch :: "string \<Rightarrow> PrekeyBundleBatchStorable \<Rightarrow> KeyRepository \<Rightarrow> KeyRepository" where
  "publish_prekey_bundle_batch participant batch kr = publish_prekey_bundles participant (expand batch) kr"

definition fetch_prekey_bundle :: "string \<Rightarrow> KeyRepository \<Rightarrow> PrekeyBundleStorable option" where
  "fetch_prekey_bundle participant kr =
     (case prekey_bundles kr participant of
        None \<Rightarrow> None
      | Some queue \<Rightarrow> (case queue of [] \<Rightarrow> None | b # _ \<Rightarrow> Some b))"

definition consume_one_time_prekey :: "string \<Rightarrow> KeyRepository \<Rightarrow> bool \<times> KeyRepository" where
  "consume_one_time_prekey participant kr =
     (case prekey_bundles kr participant of
        None \<Rightarrow> (False, kr)
      | Some [] \<Rightarrow> (False, kr)
      | Some (front # rest) \<Rightarrow>
          if \<not> (pb_classical_one_time_prekey_present front \<or> pb_pq_prekey_type front = ''one_time'') then (False, kr)
          else (True, kr\<lparr>prekey_bundles := (prekey_bundles kr)(participant \<mapsto> rest),
            one_time_prekey_consumption := (one_time_prekey_consumption kr)(participant \<mapsto>
              (case one_time_prekey_consumption kr participant of Some n \<Rightarrow> n | None \<Rightarrow> 0) + 1)\<rparr>))"

definition one_time_prekeys_consumed :: "string \<Rightarrow> KeyRepository \<Rightarrow> u64" where
  "one_time_prekeys_consumed participant kr =
     (case one_time_prekey_consumption kr participant of Some n \<Rightarrow> n | None \<Rightarrow> 0)"

definition prekey_stock :: "string \<Rightarrow> KeyRepository \<Rightarrow> PrekeyStock" where
  "prekey_stock participant kr =
     \<lparr>stock_participant = participant,
      one_time_available = (case prekey_bundles kr participant of Some q \<Rightarrow> length (filter is_one_time q) | None \<Rightarrow> 0),
      fallback_available = (case prekey_bundles kr participant of Some q \<Rightarrow> list_ex (\<lambda>b. \<not> is_one_time b) q | None \<Rightarrow> False)\<rparr>"

definition remove_participant :: "string \<Rightarrow> KeyRepository \<Rightarrow> KeyRepository" where
  "remove_participant participant kr =
     kr\<lparr>prekey_bundles := (prekey_bundles kr)(participant := None),
        one_time_prekey_consumption := (one_time_prekey_consumption kr)(participant := None)\<rparr>"

section \<open>Handlers\<close>

definition kr_guard_start :: "string \<Rightarrow> KeyRepository \<Rightarrow> KeyRepository" where
  "kr_guard_start ep kr = kr\<lparr>kr_metrics := snd (metrics_start (kr_metrics kr) ep)\<rparr>"

definition kr_guard_finish :: "string \<Rightarrow> nat \<Rightarrow> KeyRepository \<Rightarrow> KeyRepository" where
  "kr_guard_finish ep t kr = kr\<lparr>kr_metrics := guard_finish (kr_metrics kr) ep t False\<rparr>"

definition http_publish_prekey_bundle :: "nat \<Rightarrow> string \<Rightarrow> PrekeyBundleStorable \<Rightarrow> KeyRepository \<Rightarrow> nat \<times> KeyRepository" where
  "http_publish_prekey_bundle t participant b kr =
     (200, kr_guard_finish ''publish_prekey_bundle'' t
        (publish_prekey_bundle participant b (kr_guard_start ''publish_prekey_bundle'' kr)))"

definition http_publish_prekey_bundles :: "nat \<Rightarrow> string \<Rightarrow> PrekeyBundleBatchStorable \<Rightarrow> KeyRepository \<Rightarrow> nat \<times> KeyRepository" where
  "http_publish_prekey_bundles t participant batch kr =
     (200, kr_guard_finish ''publish_prekey_bundles'' t
        (publish_prekey_bundle_batch participant batch (kr_guard_start ''publish_prekey_bundles'' kr)))"

definition http_fetch_prekey_bundle ::
  "nat \<Rightarrow> string \<Rightarrow> KeyRepository \<Rightarrow> (nat \<times> PrekeyBundleStorable relay_body) \<times> KeyRepository" where
  "http_fetch_prekey_bundle t participant kr =
     (let kr1 = kr_guard_start ''fetch_prekey_bundle'' kr;
          resp = body_or_404 JsonBody (fetch_prekey_bundle participant kr1)
      in (resp, kr1\<lparr>kr_metrics := guard_finish_http_status (kr_metrics kr1) ''fetch_prekey_bundle'' t (fst resp)\<rparr>))"

definition http_consume_one_time_prekey :: "nat \<Rightarrow> string \<Rightarrow> KeyRepository \<Rightarrow> nat \<times> KeyRepository" where
  "http_consume_one_time_prekey t participant kr =
     (200, kr_guard_finish ''consume_one_time_prekey'' t
        (snd (consume_one_time_prekey participant (kr_guard_start ''consume_one_time_prekey'' kr))))"

definition http_get_one_time_prekeys_consumed :: "nat \<Rightarrow> string \<Rightarrow> KeyRepository \<Rightarrow> (string \<times> u64) \<times> KeyRepository" where
  "http_get_one_time_prekeys_consumed t participant kr =
     (let kr1 = kr_guard_start ''get_one_time_prekeys_consumed'' kr
      in ((participant, one_time_prekeys_consumed participant kr1), kr_guard_finish ''get_one_time_prekeys_consumed'' t kr1))"

definition http_get_prekey_stock :: "nat \<Rightarrow> string \<Rightarrow> KeyRepository \<Rightarrow> PrekeyStock \<times> KeyRepository" where
  "http_get_prekey_stock t participant kr =
     (let kr1 = kr_guard_start ''get_prekey_stock'' kr
      in (prekey_stock participant kr1, kr_guard_finish ''get_prekey_stock'' t kr1))"

definition http_remove_participant :: "nat \<Rightarrow> string \<Rightarrow> KeyRepository \<Rightarrow> nat \<times> KeyRepository" where
  "http_remove_participant t participant kr =
     (200, kr_guard_finish ''remove_participant'' t (remove_participant participant (kr_guard_start ''remove_participant'' kr)))"

section \<open>The reference: a pool of one-time bundles with a fallback\<close>

text \<open>
  Per participant the one-time bundles in order of publication and the latest fallback. Establishing a session takes the
  oldest one-time bundle, or the fallback when there is none left, which stays.
\<close>

type_synonym pool = "PrekeyBundleStorable list \<times> PrekeyBundleStorable option"

fun pool_publish :: "PrekeyBundleStorable list \<Rightarrow> pool \<Rightarrow> pool" where
  "pool_publish bs (ot, fb) =
     (ot @ filter is_one_time bs,
      (case filter (\<lambda>b. \<not> is_one_time b) bs of [] \<Rightarrow> fb | xs \<Rightarrow> Some (last xs)))"

fun pool_take :: "pool \<Rightarrow> PrekeyBundleStorable option \<times> pool" where
  "pool_take (b # ot, fb) = (Some b, (ot, fb))"
| "pool_take ([], fb) = (fb, ([], fb))"

datatype kr_op = PublishBatch string PrekeyBundleBatchStorable | Establish string | Remove string

fun pool_exec :: "(string \<Rightarrow> pool) \<Rightarrow> kr_op \<Rightarrow> PrekeyBundleStorable option \<times> (string \<Rightarrow> pool)" where
  "pool_exec w (PublishBatch p batch) = (None, w(p := pool_publish (expand batch) (w p)))"
| "pool_exec w (Establish p) = (case pool_take (w p) of (r, x) \<Rightarrow> (r, w(p := x)))"
| "pool_exec w (Remove p) = (None, w(p := ([], None)))"

text \<open>The two requests of an initiator, one after the other.\<close>

fun kr_exec :: "KeyRepository \<Rightarrow> kr_op \<Rightarrow> PrekeyBundleStorable option \<times> KeyRepository" where
  "kr_exec kr (PublishBatch p batch) = (None, publish_prekey_bundle_batch p batch kr)"
| "kr_exec kr (Establish p) = (fetch_prekey_bundle p kr, snd (consume_one_time_prekey p kr))"
| "kr_exec kr (Remove p) = (None, remove_participant p kr)"

fun pool_queue :: "pool \<Rightarrow> PrekeyBundleStorable list" where
  "pool_queue (ot, fb) = ot @ (case fb of None \<Rightarrow> [] | Some b \<Rightarrow> [b])"

fun pool_ok :: "pool \<Rightarrow> bool" where
  "pool_ok (ot, fb) = (list_all is_one_time ot \<and> (case fb of None \<Rightarrow> True | Some b \<Rightarrow> \<not> is_one_time b))"

definition pool_rel :: "KeyRepository \<Rightarrow> (string \<Rightarrow> pool) \<Rightarrow> bool" where
  "pool_rel kr w \<longleftrightarrow> (\<forall>p. pool_ok (w p) \<and> queue_of (prekey_bundles kr) p = pool_queue (w p))"

lemma sort_bundles_pool: "sort_bundles bs acc = pool_publish bs acc"
proof (induction bs acc rule: sort_bundles.induct)
  case (2 b bs ot fb)
  then show ?case by (auto split: list.splits)
qed auto

lemma last_fallback: "filter (\<lambda>b. \<not> is_one_time b) ys = x # xs \<Longrightarrow> \<not> is_one_time (last (x # xs))"
proof -
  assume "filter (\<lambda>b. \<not> is_one_time b) ys = x # xs"
  then have "last (x # xs) \<in> set (filter (\<lambda>b. \<not> is_one_time b) ys)" by (simp only: last_in_set list.distinct simp_thms)
  then show ?thesis by simp
qed

lemma pool_publish_queue:
  assumes "pool_ok w"
  shows "pool_publish bs (pool_publish (pool_queue w) ([], None)) = pool_publish bs w" and "pool_ok (pool_publish bs w)"
proof -
  obtain ot fb where w: "w = (ot, fb)" by (cases w)
  have f: "filter is_one_time ot = ot" "filter (\<lambda>b. \<not> is_one_time b) ot = []"
    using assms by (auto simp: w list_all_iff filter_id_conv filter_empty_conv)
  show "pool_publish bs (pool_publish (pool_queue w) ([], None)) = pool_publish bs w"
    using assms f by (auto simp: w split: option.splits list.splits)
  show "pool_ok (pool_publish bs w)" using assms last_fallback by (auto simp: w list_all_iff split: option.splits list.splits)
qed

lemma publish_bundles_queue:
  "queue_of (prekey_bundles (publish_prekey_bundles p bs kr)) q =
     (if q = p then pool_queue (pool_publish bs (pool_publish (queue_of (prekey_bundles kr) p) ([], None))) else queue_of (prekey_bundles kr) q)"
  by (auto simp: publish_prekey_bundles_def sort_bundles_pool split: prod.splits option.splits)

lemma fetch_queue: "fetch_prekey_bundle p kr = (case queue_of (prekey_bundles kr) p of [] \<Rightarrow> None | b # _ \<Rightarrow> Some b)"
  by (simp add: fetch_prekey_bundle_def queue_of_def split: option.splits)

lemma consume_queue:
  "queue_of (prekey_bundles (snd (consume_one_time_prekey p kr))) q =
     (if q = p then (case queue_of (prekey_bundles kr) p of [] \<Rightarrow> [] | b # r \<Rightarrow> if is_one_time b then r else b # r)
      else queue_of (prekey_bundles kr) q)"
  by (auto simp: consume_one_time_prekey_def queue_of_def is_one_time_def split: option.splits list.splits)

lemma kr_exec_refines:
  assumes "pool_rel kr w"
  shows "fst (kr_exec kr x) = fst (pool_exec w x) \<and> pool_rel (snd (kr_exec kr x)) (snd (pool_exec w x))"
proof -
  have r: "pool_ok (w p)" "queue_of (prekey_bundles kr) p = pool_queue (w p)" for p using assms by (simp_all add: pool_rel_def)
  show ?thesis
  proof (cases x)
    case (PublishBatch p batch)
    then show ?thesis using r
      by (simp add: pool_rel_def publish_prekey_bundle_batch_def publish_bundles_queue pool_publish_queue del: pool_publish.simps)
  next
    case (Establish p)
    obtain ot fb where w: "w p = (ot, fb)" by (cases "w p")
    show ?thesis using r [of p] r Establish w
      by (cases ot; cases fb) (auto simp: pool_rel_def fetch_queue consume_queue)
  next
    case (Remove p)
    then show ?thesis using r by (auto simp: pool_rel_def remove_participant_def queue_of_def)
  qed
qed


section \<open>Stock and consumption\<close>

datatype kr_change = Single string PrekeyBundleStorable | Batch string PrekeyBundleBatchStorable | Consume string | Drop string

fun kr_update :: "KeyRepository \<Rightarrow> kr_change \<Rightarrow> KeyRepository" where
  "kr_update kr (Single p b) = publish_prekey_bundle p b kr"
| "kr_update kr (Batch p batch) = publish_prekey_bundle_batch p batch kr"
| "kr_update kr (Consume p) = snd (consume_one_time_prekey p kr)"
| "kr_update kr (Drop p) = remove_participant p kr"

text \<open>The one-time bundles published for a participant since it was last removed.\<close>

fun published_by :: "string \<Rightarrow> nat \<Rightarrow> kr_change \<Rightarrow> nat" where
  "published_by q n (Single p b) = (if p = q \<and> is_one_time b then Suc n else n)"
| "published_by q n (Batch p batch) = (if p = q then n + length (batch_one_time_prekeys batch) else n)"
| "published_by q n (Consume p) = n"
| "published_by q n (Drop p) = (if p = q then 0 else n)"

lemma expand_one_time: "filter is_one_time (expand batch) = map (one_time_bundle batch) (batch_one_time_prekeys batch)"
  by (simp add: expand_def is_one_time_def one_time_bundle_def fallback_bundle_def filter_map comp_def)

lemma one_time_pool_queue: "filter is_one_time (pool_queue (pool_publish bs (pool_publish q ([], None)))) = filter is_one_time q @ filter is_one_time bs"
  using last_fallback by (auto split: list.splits)

lemma stock_queue: "one_time_available (prekey_stock p kr) = length (filter is_one_time (queue_of (prekey_bundles kr) p))"
  by (simp add: prekey_stock_def queue_of_def split: option.splits)

lemma stock_update:
  "one_time_prekeys_consumed q (kr_update kr x) + of_nat (one_time_available (prekey_stock q (kr_update kr x))) =
     of_nat (published_by q n x)"
  if "one_time_prekeys_consumed q kr + of_nat (one_time_available (prekey_stock q kr)) = (of_nat n :: u64)"
proof (cases x)
  case (Single p b)
  then show ?thesis using that by (auto simp: stock_queue publish_prekey_bundle_def one_time_prekeys_consumed_def algebra_simps)
next
  case (Batch p batch)
  have "one_time_prekeys_consumed q (kr_update kr x) = one_time_prekeys_consumed q kr"
    by (simp add: Batch publish_prekey_bundle_batch_def publish_prekey_bundles_def one_time_prekeys_consumed_def split: prod.splits)
  moreover have "one_time_available (prekey_stock q (kr_update kr x)) =
      one_time_available (prekey_stock q kr) + (if p = q then length (batch_one_time_prekeys batch) else 0)"
    by (simp add: Batch publish_prekey_bundle_batch_def stock_queue publish_bundles_queue one_time_pool_queue expand_one_time
        del: pool_publish.simps pool_queue.simps)
  ultimately show ?thesis using that by (auto simp: Batch algebra_simps)
next
  case (Consume p)
  then show ?thesis using that
    by (auto simp: stock_queue consume_one_time_prekey_def one_time_prekeys_consumed_def queue_of_def is_one_time_def add.assoc
        split: option.splits list.splits if_splits)
next
  case (Drop p)
  then show ?thesis using that by (auto simp: stock_queue remove_participant_def one_time_prekeys_consumed_def queue_of_def)
qed

text \<open>
  (C26) Prekeys are neither lost nor duplicated by the repository: for every participant the number of one-time bundles published
  since its last removal is the number consumed plus the number in stock, modulo the width of the counter, whatever
  single publications, batches, consumptions and removals happened for whom.
\<close>

theorem prekeys_conserved:
  "one_time_prekeys_consumed p (run_ops kr_update (key_repository_new m) ops) +
     of_nat (one_time_available (prekey_stock p (run_ops kr_update (key_repository_new m) ops))) =
     of_nat (foldl (published_by p) 0 ops)"
proof -
  have "one_time_prekeys_consumed p (run_ops kr_update kr ops) + of_nat (one_time_available (prekey_stock p (run_ops kr_update kr ops))) =
      of_nat (foldl (published_by p) n ops)"
    if "one_time_prekeys_consumed p kr + of_nat (one_time_available (prekey_stock p kr)) = of_nat n" for kr n
    using that
  proof (induction ops arbitrary: kr n)
    case (Cons x xs)
    then show ?case using stock_update [OF Cons.prems, of x] by simp
  qed simp
  from this [of "key_repository_new m" 0] show ?thesis
    by (simp add: key_repository_new_def one_time_prekeys_consumed_def prekey_stock_def)
qed

section \<open>Two initiators at once\<close>

text \<open>
  (C35) Fetching a bundle and consuming it are two requests. When two initiators both fetch before either consumes, they
  get the same one-time bundle, and their two consumptions also discard the next one-time bundle, which no one received.
\<close>

theorem concurrent_initiators_share_prekey:
  assumes "queue_of (prekey_bundles kr) p = b1 # b2 # rest" and "is_one_time b1" and "is_one_time b2"
    and "http_fetch_prekey_bundle t1 p kr = (first, kr1)" and "http_fetch_prekey_bundle t2 p kr1 = (second, kr2)"
    and "http_consume_one_time_prekey t3 p kr2 = (s3, kr3)" and "http_consume_one_time_prekey t4 p kr3 = (s4, kr4)"
  shows "first = (200, JsonBody b1) \<and> second = (200, JsonBody b1) \<and> queue_of (prekey_bundles kr4) p = rest"
proof -
  have g [simp]: "prekey_bundles (kr_guard_start ep kr) = prekey_bundles kr" "prekey_bundles (kr_guard_finish ep t kr) = prekey_bundles kr" for ep kr t
    by (simp_all add: kr_guard_start_def kr_guard_finish_def)
  have "prekey_bundles kr1 = prekey_bundles kr" "prekey_bundles kr2 = prekey_bundles kr"
    using assms(4,5) by (auto simp: http_fetch_prekey_bundle_def Let_def)
  moreover from this have "queue_of (prekey_bundles kr3) p = b2 # rest"
    using assms(1,2,6) by (auto simp: http_consume_one_time_prekey_def consume_queue)
  moreover from this have "queue_of (prekey_bundles kr4) p = rest"
    using assms(3,7) by (auto simp: http_consume_one_time_prekey_def consume_queue)
  ultimately show ?thesis using assms(1,4,5)
    by (auto simp: http_fetch_prekey_bundle_def Let_def fetch_queue body_or_404_def)
qed

definition demo_prekey :: "u32 \<Rightarrow> OneTimePrekeyStorable" where
  "demo_prekey i = \<lparr>ot_prekey_id = i, ot_prekey_public = [1], ot_pq_prekey_id = i, ot_pq_prekey_public = [2], ot_pq_prekey_signature = [3]\<rparr>"

definition demo_batch :: PrekeyBundleBatchStorable where
  "demo_batch = \<lparr>batch_registration_id = 1, batch_device_id = 1, batch_signed_prekey_id = 1, batch_signed_prekey_public = [1],
     batch_signed_prekey_signature = [2], batch_identity_key_public = [3], batch_last_resort_pq_prekey_id = 9,
     batch_last_resort_pq_prekey_public = [4], batch_last_resort_pq_prekey_signature = [5],
     batch_one_time_prekeys = [demo_prekey 1, demo_prekey 2], batch_signed_prekey_fallback = True\<rparr>"

theorem concurrent_initiators_share_prekey_witness:
  "\<exists>kr kr1 kr2 kr3 kr4.
     kr = publish_prekey_bundle_batch ''bob'' demo_batch (key_repository_new (service_metrics_new None)) \<and>
     http_fetch_prekey_bundle 0 ''bob'' kr = ((200, JsonBody (one_time_bundle demo_batch (demo_prekey 1))), kr1) \<and>
     http_fetch_prekey_bundle 0 ''bob'' kr1 = ((200, JsonBody (one_time_bundle demo_batch (demo_prekey 1))), kr2) \<and>
     http_consume_one_time_prekey 0 ''bob'' kr2 = (200, kr3) \<and> http_consume_one_time_prekey 0 ''bob'' kr3 = (200, kr4) \<and>
     queue_of (prekey_bundles kr4) ''bob'' = [fallback_bundle demo_batch]"
proof -
  let ?kr = "publish_prekey_bundle_batch ''bob'' demo_batch (key_repository_new (service_metrics_new None))"
  have q: "queue_of (prekey_bundles ?kr) ''bob'' =
      one_time_bundle demo_batch (demo_prekey 1) # one_time_bundle demo_batch (demo_prekey 2) # [fallback_bundle demo_batch]"
    by (simp add: publish_prekey_bundle_batch_def publish_bundles_queue key_repository_new_def expand_def demo_batch_def
        is_one_time_def one_time_bundle_def fallback_bundle_def)
  have ot: "is_one_time (one_time_bundle demo_batch k)" for k by (simp add: is_one_time_def one_time_bundle_def)
  obtain f kr1 where f: "http_fetch_prekey_bundle 0 ''bob'' ?kr = (f, kr1)" by (metis surj_pair)
  obtain g kr2 where g: "http_fetch_prekey_bundle 0 ''bob'' kr1 = (g, kr2)" by (metis surj_pair)
  obtain s kr3 where s: "http_consume_one_time_prekey 0 ''bob'' kr2 = (s, kr3)" by (metis surj_pair)
  obtain t kr4 where t: "http_consume_one_time_prekey 0 ''bob'' kr3 = (t, kr4)" by (metis surj_pair)
  have "s = 200" "t = 200" using s t by (simp_all add: http_consume_one_time_prekey_def)
  with concurrent_initiators_share_prekey [OF q ot ot f g s t] f g s t show ?thesis by blast
qed

end
