(* ===== verification/Secret_Tree.thy ===== *)
theory Secret_Tree
  imports Tree_Math Sender_Ratchet
begin

text \<open>
  The secret tree of OpenMLS (\<^verbatim>\<open>openmls-main/openmls/src/tree/secret_tree.rs\<close>): the encryption secret of an epoch at the root of
  a binary tree, expanded downwards only where a sender is heard from, a parent being erased as soon as its
  children are derived. At a leaf two sender ratchets take over. It is built on the index arithmetic of
  \<open>Tree_Math\<close> and the ratchets of \<open>Sender_Ratchet\<close>. An operation whose tree arithmetic may not return has
  the result \<open>None\<close> in that case.
\<close>

section \<open>The tree\<close>

datatype SecretType = HandshakeSecret | ApplicationSecret

datatype ContentType = Application | Proposal | Commit

fun secret_type_from :: "ContentType \<Rightarrow> SecretType" where
  "secret_type_from Application = ApplicationSecret"
| "secret_type_from Commit = HandshakeSecret"
| "secret_type_from Proposal = HandshakeSecret"

definition expand_label :: "kdf \<Rightarrow> bytes \<Rightarrow> string \<Rightarrow> bytes \<Rightarrow> SecretTreeError + bytes" where
  "expand_label cr secret label context = map_sum CryptoError id (kdf_expand_label cr secret label context (hash_length cr))"

text \<open>The bytes of a byte-string literal.\<close>

definition ascii :: "string \<Rightarrow> bytes" where
  "ascii s = map (\<lambda>c. of_nat (of_char c)) s"

definition derive_child_secrets :: "kdf \<Rightarrow> bytes \<Rightarrow> SecretTreeError + bytes \<times> bytes" where
  "derive_child_secrets cr parent_secret =
     (case expand_label cr parent_secret ''tree'' (ascii ''left'') of Inl e \<Rightarrow> Inl e
      | Inr left_child \<Rightarrow>
        case expand_label cr parent_secret ''tree'' (ascii ''right'') of Inl e \<Rightarrow> Inl e
        | Inr right_child \<Rightarrow> Inr (left_child, right_child))"

record SecretTree =
  st_own_index :: LeafNodeIndex
  st_leaf_nodes :: "bytes option list"
  st_parent_nodes :: "bytes option list"
  st_handshake_sender_ratchets :: "SenderRatchet option list"
  st_application_sender_ratchets :: "SenderRatchet option list"
  st_size :: TreeSize

fun leaf_usize :: "LeafNodeIndex \<Rightarrow> nat" where
  "leaf_usize (LeafNodeIndex i) = unat i"

fun parent_usize :: "ParentNodeIndex \<Rightarrow> nat" where
  "parent_usize (ParentNodeIndex i) = unat i"

text \<open>\<^verbatim>\<open>Vec::get\<close> and assignment through \<^verbatim>\<open>Vec::get_mut\<close>, an index out of range being the error of the caller.\<close>

definition get_at :: "'a list \<Rightarrow> nat \<Rightarrow> SecretTreeError + 'a" where
  "get_at xs i = (if i < length xs then Inr (xs ! i) else Inl IndexOutOfBounds)"

fun get_node :: "SecretTree \<Rightarrow> TreeNodeIndex \<Rightarrow> SecretTreeError + bytes option" where
  "get_node t (Leaf i) = get_at (st_leaf_nodes t) (leaf_usize i)"
| "get_node t (Parent i) = get_at (st_parent_nodes t) (parent_usize i)"

fun set_node :: "TreeNodeIndex \<Rightarrow> bytes option \<Rightarrow> SecretTree \<Rightarrow> (SecretTreeError + unit) \<times> SecretTree" where
  "set_node (Leaf i) node t =
     (if leaf_usize i < length (st_leaf_nodes t)
      then (Inr (), t\<lparr>st_leaf_nodes := (st_leaf_nodes t)[leaf_usize i := node]\<rparr>) else (Inl IndexOutOfBounds, t))"
| "set_node (Parent i) node t =
     (if parent_usize i < length (st_parent_nodes t)
      then (Inr (), t\<lparr>st_parent_nodes := (st_parent_nodes t)[parent_usize i := node]\<rparr>) else (Inl IndexOutOfBounds, t))"

definition secret_tree_new :: "bytes \<Rightarrow> TreeSize \<Rightarrow> LeafNodeIndex \<Rightarrow> SecretTree" where
  "secret_tree_new encryption_secret sz own_index =
     (let n = unat (leaf_count sz) in
      snd (set_node (root sz) (Some encryption_secret)
        \<lparr>st_own_index = own_index, st_leaf_nodes = replicate n None, st_parent_nodes = replicate n None,
         st_handshake_sender_ratchets = replicate n None, st_application_sender_ratchets = replicate n None, st_size = sz\<rparr>))"

fun ratchets :: "SecretType \<Rightarrow> SecretTree \<Rightarrow> SenderRatchet option list" where
  "ratchets HandshakeSecret t = st_handshake_sender_ratchets t"
| "ratchets ApplicationSecret t = st_application_sender_ratchets t"

fun put_ratchets :: "SecretType \<Rightarrow> SenderRatchet option list \<Rightarrow> SecretTree \<Rightarrow> SecretTree" where
  "put_ratchets HandshakeSecret rs t = t\<lparr>st_handshake_sender_ratchets := rs\<rparr>"
| "put_ratchets ApplicationSecret rs t = t\<lparr>st_application_sender_ratchets := rs\<rparr>"

definition ratchet_opt :: "SecretTree \<Rightarrow> LeafNodeIndex \<Rightarrow> SecretType \<Rightarrow> SecretTreeError + SenderRatchet option" where
  "ratchet_opt t index secret_type = get_at (ratchets secret_type t) (leaf_usize index)"

text \<open>The initialised ratchet; the caller writes it back.\<close>

definition ratchet_mut :: "SecretTree \<Rightarrow> LeafNodeIndex \<Rightarrow> SecretType \<Rightarrow> SecretTreeError + SenderRatchet" where
  "ratchet_mut t index secret_type =
     (case get_at (ratchets secret_type t) (leaf_usize index) of
        Inr (Some r) \<Rightarrow> Inr r
      | _ \<Rightarrow> Inl IndexOutOfBounds)"

definition write_ratchet :: "LeafNodeIndex \<Rightarrow> SecretType \<Rightarrow> SenderRatchet \<Rightarrow> SecretTree \<Rightarrow> SecretTree" where
  "write_ratchet index secret_type r t =
     put_ratchets secret_type ((ratchets secret_type t)[leaf_usize index := Some r]) t"

section \<open>Deriving downwards\<close>

type_synonym 'a tree_result = "((SecretTreeError + 'a) \<times> SecretTree) option"

definition derive_down :: "kdf \<Rightarrow> ParentNodeIndex \<Rightarrow> SecretTree \<Rightarrow> unit tree_result" where
  "derive_down cr index_in_tree t =
     (case get_node t (Parent index_in_tree) of
        Inl e \<Rightarrow> Some (Inl e, t)
      | Inr None \<Rightarrow> Some (Inl LibraryError, t)
      | Inr (Some node_secret) \<Rightarrow>
        case left index_in_tree of None \<Rightarrow> None
        | Some left_index \<Rightarrow>
        case right index_in_tree of None \<Rightarrow> None
        | Some right_index \<Rightarrow>
        case derive_child_secrets cr node_secret of Inl e \<Rightarrow> Some (Inl e, t)
        | Inr (left_secret, right_secret) \<Rightarrow>
        case set_node left_index (Some left_secret) t of (Inl e, t1) \<Rightarrow> Some (Inl e, t1)
        | (Inr _, t1) \<Rightarrow>
        case set_node right_index (Some right_secret) t1 of (Inl e, t2) \<Rightarrow> Some (Inl e, t2)
        | (Inr _, t2) \<Rightarrow> Some (set_node (Parent index_in_tree) None t2))"

text \<open>The nodes of the direct path up to the first one that has a secret.\<close>

fun collect_empty :: "SecretTree \<Rightarrow> ParentNodeIndex list \<Rightarrow> SecretTreeError + ParentNodeIndex list" where
  "collect_empty t [] = Inr []"
| "collect_empty t (p # ps) =
     (case get_node t (Parent p) of
        Inl e \<Rightarrow> Inl e
      | Inr (Some _) \<Rightarrow> Inr [p]
      | Inr None \<Rightarrow> map_sum id (Cons p) (collect_empty t ps))"

fun derive_all :: "kdf \<Rightarrow> ParentNodeIndex list \<Rightarrow> SecretTree \<Rightarrow> unit tree_result" where
  "derive_all cr [] t = Some (Inr (), t)"
| "derive_all cr (n # ns) t =
     (case derive_down cr n t of
        None \<Rightarrow> None
      | Some (Inl e, t1) \<Rightarrow> Some (Inl e, t1)
      | Some (Inr _, t1) \<Rightarrow> derive_all cr ns t1)"

definition derive_leaf :: "kdf \<Rightarrow> LeafNodeIndex \<Rightarrow> SecretTree \<Rightarrow> unit tree_result" where
  "derive_leaf cr index t =
     (case get_node t (Leaf index) of
        Inl e \<Rightarrow> Some (Inl e, t)
      | Inr (Some _) \<Rightarrow> Some (Inr (), t)
      | Inr None \<Rightarrow>
        case direct_path index (st_size t) of None \<Rightarrow> None
        | Some path \<Rightarrow>
        case collect_empty t path of
          Inl e \<Rightarrow> Some (Inl e, t)
        | Inr empty_nodes \<Rightarrow> derive_all cr (rev empty_nodes) t)"

text \<open>The last part of the initialisation: from the secret of the leaf to its two ratchets.\<close>

definition install_ratchets :: "kdf \<Rightarrow> LeafNodeIndex \<Rightarrow> SecretTree \<Rightarrow> (SecretTreeError + unit) \<times> SecretTree" where
  "install_ratchets cr index t =
     (case get_node t (Leaf index) of
        Inl e \<Rightarrow> (Inl e, t)
      | Inr None \<Rightarrow> (Inl LibraryError, t)
      | Inr (Some node_secret) \<Rightarrow>
        case expand_label cr node_secret ''handshake'' [] of Inl e \<Rightarrow> (Inl e, t)
        | Inr handshake \<Rightarrow>
        case expand_label cr node_secret ''application'' [] of Inl e \<Rightarrow> (Inl e, t)
        | Inr application \<Rightarrow>
          (let mk = (if index = st_own_index t then (\<lambda>s. EncryptionRatchet (initial_ratchet_secret s))
                     else (\<lambda>s. DecryptionRatchetOf (decryption_ratchet_new s)))
           in if \<not> leaf_usize index < length (st_handshake_sender_ratchets t) then (Inl IndexOutOfBounds, t)
              else let t1 = write_ratchet index HandshakeSecret (mk handshake) t
              in if \<not> leaf_usize index < length (st_application_sender_ratchets t1) then (Inl IndexOutOfBounds, t1)
              else set_node (Leaf index) None (write_ratchet index ApplicationSecret (mk application) t1)))"

definition initialize_sender_ratchets :: "kdf \<Rightarrow> LeafNodeIndex \<Rightarrow> SecretTree \<Rightarrow> unit tree_result" where
  "initialize_sender_ratchets cr index t =
     (if unat (leaf_count (st_size t)) \<le> leaf_usize index then Some (Inl IndexOutOfBounds, t)
      else case ratchet_opt t index HandshakeSecret of Inl e \<Rightarrow> Some (Inl e, t)
      | Inr hs \<Rightarrow>
      case (if hs \<noteq> None then map_sum id (\<lambda>r. r \<noteq> None) (ratchet_opt t index ApplicationSecret) else Inr False) of
        Inl e \<Rightarrow> Some (Inl e, t)
      | Inr True \<Rightarrow> Some (Inr (), t)
      | Inr False \<Rightarrow>
      case derive_leaf cr index t of
        None \<Rightarrow> None
      | Some (Inl e, t1) \<Rightarrow> Some (Inl e, t1)
      | Some (Inr _, t1) \<Rightarrow> Some (install_ratchets cr index t1))"

section \<open>Requests\<close>

definition ensure_ratchet :: "kdf \<Rightarrow> LeafNodeIndex \<Rightarrow> SecretType \<Rightarrow> SecretTree \<Rightarrow> unit tree_result" where
  "ensure_ratchet cr index secret_type t =
     (case ratchet_opt t index secret_type of
        Inl e \<Rightarrow> Some (Inl e, t)
      | Inr (Some _) \<Rightarrow> Some (Inr (), t)
      | Inr None \<Rightarrow> initialize_sender_ratchets cr index t)"

definition tree_secret_for_decryption ::
  "kdf \<Rightarrow> SenderRatchetConfiguration \<Rightarrow> LeafNodeIndex \<Rightarrow> SecretType \<Rightarrow> u32 \<Rightarrow> SecretTree \<Rightarrow> RatchetKeyMaterial tree_result" where
  "tree_secret_for_decryption cr cfg index secret_type generation t =
     (if unat (leaf_count (st_size t)) \<le> leaf_usize index then Some (Inl IndexOutOfBounds, t)
      else case ensure_ratchet cr index secret_type t of
        None \<Rightarrow> None
      | Some (Inl e, t1) \<Rightarrow> Some (Inl e, t1)
      | Some (Inr _, t1) \<Rightarrow>
        (case ratchet_mut t1 index secret_type of
           Inl e \<Rightarrow> Some (Inl e, t1)
         | Inr (EncryptionRatchet _) \<Rightarrow> Some (Inl RatchetTypeError, t1)
         | Inr (DecryptionRatchetOf d) \<Rightarrow>
             (case secret_for_decryption cr cfg generation d of
                (res, d1) \<Rightarrow> Some (res, write_ratchet index secret_type (DecryptionRatchetOf d1) t1))))"

definition tree_secret_for_encryption ::
  "kdf \<Rightarrow> LeafNodeIndex \<Rightarrow> SecretType \<Rightarrow> SecretTree \<Rightarrow> (u32 \<times> RatchetKeyMaterial) tree_result" where
  "tree_secret_for_encryption cr index secret_type t =
     (case ensure_ratchet cr index secret_type t of
        None \<Rightarrow> None
      | Some (Inl e, t1) \<Rightarrow> Some (Inl e, t1)
      | Some (Inr _, t1) \<Rightarrow>
        (case ratchet_mut t1 index secret_type of
           Inl e \<Rightarrow> Some (Inl e, t1)
         | Inr (DecryptionRatchetOf _) \<Rightarrow> Some (Inl RatchetTypeError, t1)
         | Inr (EncryptionRatchet r) \<Rightarrow>
             (case ratchet_forward cr r of
                (res, r1) \<Rightarrow> Some (res, write_ratchet index secret_type (EncryptionRatchet r1) t1))))"

section \<open>The tree as a store of nodes\<close>

text \<open>
  A tree of height \<open>h\<close> has its nodes at \<open>(k, j)\<close>: the \<open>j\<close>-th node of level \<open>k\<close>. The two vectors of nodes are
  one map on these positions.
\<close>

definition shape :: "nat \<Rightarrow> SecretTree \<Rightarrow> bool" where
  "shape h t \<longleftrightarrow> st_size t = size_of h \<and> length (st_leaf_nodes t) = 2 ^ h \<and> length (st_parent_nodes t) = 2 ^ h \<and>
     (\<forall>ty. length (ratchets ty t) = 2 ^ h)"

fun slot :: "SecretTree \<Rightarrow> TreeNodeIndex \<Rightarrow> bytes option" where
  "slot t (Leaf i) = st_leaf_nodes t ! leaf_usize i"
| "slot t (Parent i) = st_parent_nodes t ! parent_usize i"

abbreviation node :: "SecretTree \<Rightarrow> nat \<Rightarrow> nat \<Rightarrow> bytes option" where
  "node t k j \<equiv> slot t (tree_node k j)"

lemma leaf_pow: "l < 2 ^ h \<Longrightarrow> h \<le> 30 \<Longrightarrow> l < (2 :: nat) ^ 31"
  using power_increasing [of h 31 "2 :: nat"] by simp

lemma leaf_usize_leafi: "l < 2 ^ h \<Longrightarrow> h \<le> 30 \<Longrightarrow> leaf_usize (leafi l) = l"
  using leaf_pow [of l h] by (simp add: unat_of_nat take_bit_nat_eq_self)

lemma leafi_eq: "a < 2 ^ h \<Longrightarrow> b < 2 ^ h \<Longrightarrow> h \<le> 30 \<Longrightarrow> leafi a = leafi b \<longleftrightarrow> a = b"
  using leaf_usize_leafi by metis

lemma parent_usize_node:
  assumes "in_tree h (Suc k) j" and "h \<le> 30"
  shows "parent_usize (parent_node (Suc k) j) < 2 ^ h"
proof -
  have "unat (nodew (Suc k) j) < 2 ^ (h + 1)" using node_at_bound [OF assms(1)] unat_nodew [OF assms] by simp
  then show ?thesis
    by (simp add: parent_node_def parent_from_tree_index_def odd_pred [OF nodew_odd] unat_div_distrib del: of_nat_mult)
qed

lemma index_in_range:
  assumes "shape h t" and "in_tree h k j" and "h \<le> 30"
  shows "case tree_node k j of Leaf i \<Rightarrow> leaf_usize i < length (st_leaf_nodes t)
    | Parent i \<Rightarrow> parent_usize i < length (st_parent_nodes t)"
proof (cases k)
  case 0
  then have "j < 2 ^ h" using assms(2) by (simp add: in_tree_def)
  then show ?thesis
    using 0 assms tree_node_zero [OF leaf_pow [OF _ assms(3)], of j] leaf_usize_leafi [of j h] by (simp add: shape_def)
next
  case (Suc k')
  then show ?thesis using assms parent_usize_node [of h k' j] by (simp add: tree_node_Suc shape_def)
qed

lemma get_node_at: "shape h t \<Longrightarrow> in_tree h k j \<Longrightarrow> h \<le> 30 \<Longrightarrow> get_node t (tree_node k j) = Inr (node t k j)"
  using index_in_range [of h t k j] by (cases "tree_node k j") (simp_all add: get_at_def)

lemma set_node_at:
  "shape h t \<Longrightarrow> in_tree h k j \<Longrightarrow> h \<le> 30 \<Longrightarrow>
     set_node (tree_node k j) v t = (Inr (), snd (set_node (tree_node k j) v t))"
  using index_in_range [of h t k j] by (cases "tree_node k j") simp_all

lemma set_node_frame [simp]:
  "ratchets ty (snd (set_node i v t)) = ratchets ty t" "st_own_index (snd (set_node i v t)) = st_own_index t"
  "st_size (snd (set_node i v t)) = st_size t"
  by (cases i; cases ty; simp)+

lemma set_node_lengths [simp]:
  "length (st_leaf_nodes (snd (set_node i v t))) = length (st_leaf_nodes t)"
  "length (st_parent_nodes (snd (set_node i v t))) = length (st_parent_nodes t)"
  by (cases i; simp)+

lemma set_node_shape [simp]: "shape h (snd (set_node i v t)) \<longleftrightarrow> shape h t"
  by (simp add: shape_def)

lemma parent_usize_inj: "parent_usize p = parent_usize q \<Longrightarrow> p = q"
  by (cases p; cases q) (simp add: word_unat_eq_iff)

lemma leaf_usize_inj: "leaf_usize p = leaf_usize q \<Longrightarrow> p = q"
  by (cases p; cases q) (simp add: word_unat_eq_iff)

lemma slot_set_node:
  assumes "case i of Leaf i \<Rightarrow> leaf_usize i < length (st_leaf_nodes t)
    | Parent i \<Rightarrow> parent_usize i < length (st_parent_nodes t)"
  shows "slot (snd (set_node i v t)) i' = (if i' = i then v else slot t i')"
  using assms by (cases i; cases i') (auto simp: nth_list_update dest: parent_usize_inj leaf_usize_inj)

lemma node_set_node:
  assumes "shape h t" and "in_tree h k j" and "in_tree h k' j'" and "h \<le> 30"
  shows "node (snd (set_node (tree_node k j) v t)) k' j' = (if k' = k \<and> j' = j then v else node t k' j')"
  using slot_set_node [OF index_in_range [OF assms(1,2,4)]] tree_node_inj [OF assms(2,3,4)] by metis

text \<open>The nodes of a tree after one of them has been expanded.\<close>

definition child :: "kdf \<Rightarrow> bytes \<Rightarrow> nat \<Rightarrow> bytes" where
  "child cr s j = projr (expand_label cr s ''tree'' (ascii (if even j then ''left'' else ''right'')))"

lemma expand_label_some: "kdf_total cr \<Longrightarrow> \<exists>s'. expand_label cr s l c = Inr s'"
  unfolding expand_label_def kdf_total_def by (metis map_sum.simps(2))

lemma expand_label_total: "kdf_total cr \<Longrightarrow> expand_label cr s l c = Inr (projr (expand_label cr s l c))"
  unfolding expand_label_def kdf_total_def by (metis id_apply map_sum.simps(2) sum.sel(2))

lemma derive_child_secrets_total:
  "kdf_total cr \<Longrightarrow> derive_child_secrets cr s = Inr (child cr s (2 * j), child cr s (2 * j + 1))"
  using expand_label_some [of cr s "''tree''" "ascii ''left''"] expand_label_some [of cr s "''tree''" "ascii ''right''"]
  by (auto simp: derive_child_secrets_def child_def)

lemma in_tree_children: "in_tree h (Suc k) j \<Longrightarrow> in_tree h k (2 * j) \<and> in_tree h k (2 * j + 1)"
proof -
  assume a: "in_tree h (Suc k) j"
  then have "Suc k \<le> h" by (simp add: in_tree_def)
  then have "h - k = Suc (h - Suc k)" by arith
  then have "(2 :: nat) ^ (h - k) = 2 * 2 ^ (h - Suc k)" by simp
  then show ?thesis using a by (simp add: in_tree_def)
qed

definition same_frame :: "SecretTree \<Rightarrow> SecretTree \<Rightarrow> bool" where
  "same_frame t t' \<longleftrightarrow> st_own_index t' = st_own_index t \<and> (\<forall>ty. ratchets ty t' = ratchets ty t)"

lemma derive_down_at:
  assumes "kdf_total cr" and "shape h t" and "in_tree h (Suc k) j" and "h \<le> 30" and "node t (Suc k) j = Some s"
  shows "\<exists>t'. derive_down cr (parent_node (Suc k) j) t = Some (Inr (), t') \<and> shape h t' \<and> same_frame t t' \<and>
    (\<forall>k' j'. in_tree h k' j' \<longrightarrow> node t' k' j' =
      (if k' = Suc k \<and> j' = j then None else if k' = k \<and> j' div 2 = j then Some (child cr s j') else node t k' j'))"
proof -
  have c: "in_tree h k (2 * j)" "in_tree h k (2 * j + 1)" using in_tree_children [OF assms(3)] by auto
  have k: "k < 31" using assms(3,4) by (simp add: in_tree_def)
  define t1 where "t1 = snd (set_node (tree_node k (2 * j)) (Some (child cr s (2 * j))) t)"
  define t2 where "t2 = snd (set_node (tree_node k (2 * j + 1)) (Some (child cr s (2 * j + 1))) t1)"
  define t3 where "t3 = snd (set_node (tree_node (Suc k) j) None t2)"
  have sh: "shape h t1" "shape h t2" using assms(2) by (simp_all add: t1_def t2_def)
  have s1: "set_node (tree_node k (2 * j)) (Some (child cr s (2 * j))) t = (Inr (), t1)"
    unfolding t1_def by (rule set_node_at [OF assms(2) c(1) assms(4)])
  have s2: "set_node (tree_node k (2 * j + 1)) (Some (child cr s (2 * j + 1))) t1 = (Inr (), t2)"
    unfolding t2_def by (rule set_node_at [OF sh(1) c(2) assms(4)])
  have s3: "set_node (Parent (parent_node (Suc k) j)) None t2 = (Inr (), t3)"
    unfolding t3_def tree_node_Suc [symmetric] by (rule set_node_at [OF sh(2) assms(3,4)])
  have g: "get_node t (Parent (parent_node (Suc k) j)) = Inr (Some s)"
    using get_node_at [OF assms(2-4)] assms(5) by (simp add: tree_node_Suc)
  have "derive_down cr (parent_node (Suc k) j) t = Some (Inr (), t3)"
    unfolding derive_down_def g left_parent_node [OF k] right_parent_node [OF k] derive_child_secrets_total [OF assms(1), of s j]
      sum.case option.case prod.case s1 s2 s3 ..
  moreover have "shape h t3" "same_frame t t3" using sh by (simp_all add: t3_def t2_def t1_def same_frame_def)
  moreover have "node t3 k' j' =
      (if k' = Suc k \<and> j' = j then None else if k' = k \<and> j' div 2 = j then Some (child cr s j') else node t k' j')"
    if "in_tree h k' j'" for k' j'
  proof -
    have "node t3 k' j' = (if k' = Suc k \<and> j' = j then None else node t2 k' j')"
      "node t2 k' j' = (if k' = k \<and> j' = 2 * j + 1 then Some (child cr s (2 * j + 1)) else node t1 k' j')"
      "node t1 k' j' = (if k' = k \<and> j' = 2 * j then Some (child cr s (2 * j)) else node t k' j')"
      unfolding t3_def t2_def t1_def
      using node_set_node [OF sh(2) assms(3) that assms(4)] node_set_node [OF sh(1) c(2) that assms(4)]
        node_set_node [OF assms(2) c(1) that assms(4)] unfolding t2_def t1_def by blast+
    moreover have "j' div 2 = j \<longleftrightarrow> j' = 2 * j \<or> j' = 2 * j + 1" by arith
    ultimately show ?thesis by (cases "k' = k") (auto simp del: slot.simps)
  qed
  ultimately show ?thesis by blast
qed

section \<open>The reference: the secret of every node\<close>

fun secret_below :: "kdf \<Rightarrow> bytes \<Rightarrow> nat \<Rightarrow> nat \<Rightarrow> bytes" where
  "secret_below cr s 0 j = s"
| "secret_below cr s (Suc d) j = child cr (secret_below cr s d (j div 2)) j"

definition node_secret :: "kdf \<Rightarrow> nat \<Rightarrow> bytes \<Rightarrow> nat \<Rightarrow> nat \<Rightarrow> bytes" where
  "node_secret cr h s k j = secret_below cr s (h - k) j"

definition leaf_ratchet_secret :: "kdf \<Rightarrow> nat \<Rightarrow> bytes \<Rightarrow> nat \<Rightarrow> SecretType \<Rightarrow> bytes" where
  "leaf_ratchet_secret cr h s l ty = projr (expand_label cr (node_secret cr h s 0 l)
     (case ty of HandshakeSecret \<Rightarrow> ''handshake'' | ApplicationSecret \<Rightarrow> ''application'') [])"

lemma node_secret_child: "k < h \<Longrightarrow> node_secret cr h s k j = child cr (node_secret cr h s (Suc k) (j div 2)) j"
proof -
  assume "k < h"
  then have "h - k = Suc (h - Suc k)" by arith
  then show ?thesis by (simp add: node_secret_def)
qed

text \<open>The nodes after the path of leaf \<open>l\<close> has been derived from level \<open>k0\<close> down.\<close>

definition opened :: "kdf \<Rightarrow> nat \<Rightarrow> bytes \<Rightarrow> nat \<Rightarrow> nat \<Rightarrow> (nat \<Rightarrow> nat \<Rightarrow> bytes option) \<Rightarrow> nat \<Rightarrow> nat \<Rightarrow> bytes option" where
  "opened cr h s l k0 f k j =
     (if k < k0 \<and> j div 2 = l div 2 ^ Suc k then (if k = 0 \<or> j \<noteq> l div 2 ^ k then Some (node_secret cr h s k j) else None)
      else if 0 < k \<and> k = k0 \<and> j = l div 2 ^ k0 then None else f k j)"

abbreviation path :: "nat \<Rightarrow> nat \<Rightarrow> nat \<Rightarrow> ParentNodeIndex list" where
  "path l a b \<equiv> map (\<lambda>k. parent_node k (l div 2 ^ k)) [a..<b]"

lemma same_frame_trans: "same_frame t t1 \<Longrightarrow> same_frame t1 t2 \<Longrightarrow> same_frame t t2"
  by (simp add: same_frame_def)

lemma derive_all_path:
  assumes "kdf_total cr" and "l < 2 ^ h" and "h \<le> 30"
  shows "shape h t \<Longrightarrow> k0 \<le> h \<Longrightarrow> node t k0 (l div 2 ^ k0) = Some (node_secret cr h s k0 (l div 2 ^ k0)) \<Longrightarrow>
    \<exists>t'. derive_all cr (rev (path l 1 (Suc k0))) t = Some (Inr (), t') \<and> shape h t' \<and> same_frame t t' \<and>
      (\<forall>k j. in_tree h k j \<longrightarrow> node t' k j = opened cr h s l k0 (node t) k j)"
proof (induction k0 arbitrary: t)
  case 0
  then show ?case by (simp add: same_frame_def opened_def)
next
  case (Suc k0)
  let ?p = "\<lambda>k. l div 2 ^ k"
  have half: "?p k div 2 = ?p (Suc k)" for k by (simp add: div_mult2_eq [symmetric] mult.commute)
  have k0: "k0 < h" "k0 \<le> h" using Suc.prems(2) by simp_all
  obtain t1 where t1: "derive_down cr (parent_node (Suc k0) (?p (Suc k0))) t = Some (Inr (), t1)" "shape h t1" "same_frame t t1"
    and n1: "\<And>k j. in_tree h k j \<Longrightarrow> node t1 k j = (if k = Suc k0 \<and> j = ?p (Suc k0) then None
      else if k = k0 \<and> j div 2 = ?p (Suc k0) then Some (child cr (node_secret cr h s (Suc k0) (?p (Suc k0))) j) else node t k j)"
    using derive_down_at [OF assms(1) Suc.prems(1) in_tree_leaf [OF assms(2) Suc.prems(2)] assms(3) Suc.prems(3)] by auto
  have n1': "node t1 k j = (if k = Suc k0 \<and> j = ?p (Suc k0) then None
      else if k = k0 \<and> j div 2 = ?p (Suc k0) then Some (node_secret cr h s k0 j) else node t k j)" if "in_tree h k j" for k j
    using n1 [OF that] node_secret_child [OF k0(1), of cr s j] by simp
  have "node t1 k0 (?p k0) = Some (node_secret cr h s k0 (?p k0))"
    using n1' [OF in_tree_leaf [OF assms(2) k0(2)]] half [of k0] by simp
  from Suc.IH [OF t1(2) k0(2) this] obtain t2 where
    t2: "derive_all cr (rev (path l 1 (Suc k0))) t1 = Some (Inr (), t2)" "shape h t2" "same_frame t1 t2"
    and n2: "\<And>k j. in_tree h k j \<Longrightarrow> node t2 k j = opened cr h s l k0 (node t1) k j" by auto
  have "rev (path l 1 (Suc (Suc k0))) = parent_node (Suc k0) (?p (Suc k0)) # rev (path l 1 (Suc k0))" by simp
  then have "derive_all cr (rev (path l 1 (Suc (Suc k0)))) t = Some (Inr (), t2)"
    unfolding derive_all.simps using t1(1) t2(1) by simp
  moreover have "node t2 k j = opened cr h s l (Suc k0) (node t) k j" if "in_tree h k j" for k j
    unfolding n2 [OF that] opened_def n1' [OF that] using half [of k0] by (cases "k < k0"; cases "k = k0") auto
  ultimately show ?case using t2(2) same_frame_trans [OF t1(3) t2(3)] by blast
qed

lemma collect_empty_path:
  assumes "shape h t" and "l < 2 ^ h" and "h \<le> 30" and "k0 \<le> h" and "node t k0 (l div 2 ^ k0) \<noteq> None"
    and "\<And>k. 0 < k \<Longrightarrow> k < k0 \<Longrightarrow> node t k (l div 2 ^ k) = None"
  shows "0 < a \<Longrightarrow> a \<le> k0 \<Longrightarrow> collect_empty t (path l a (Suc h)) = Inr (path l a (Suc k0))"
proof (induction "k0 - a" arbitrary: a)
  case 0
  then have a: "a = k0" "k0 = Suc (k0 - 1)" by simp_all
  have "get_node t (Parent (parent_node k0 (l div 2 ^ k0))) = Inr (node t k0 (l div 2 ^ k0))"
    using get_node_at [OF assms(1) in_tree_leaf [OF assms(2,4)] assms(3)] tree_node_Suc [of "k0 - 1"] a(2) by simp
  then show ?case using assms(4,5) a(1) by (auto simp: upt_conv_Cons simp del: upt_Suc)
next
  case (Suc n)
  then have a: "a = Suc (a - 1)" "a < k0" "a \<le> h" "n = k0 - Suc a" using assms(4) by simp_all
  have "get_node t (Parent (parent_node a (l div 2 ^ a))) = Inr (node t a (l div 2 ^ a))"
    using get_node_at [OF assms(1) in_tree_leaf [OF assms(2) a(3)] assms(3)] tree_node_Suc [of "a - 1"] a(1) by simp
  moreover have "node t a (l div 2 ^ a) = None" using assms(6) a(2) Suc.prems by blast
  moreover have "collect_empty t (path l (Suc a) (Suc h)) = Inr (path l (Suc a) (Suc k0))"
    using Suc.hyps(1) [OF a(4)] a(2) by simp
  ultimately show ?case using a(2,3) by (simp add: upt_conv_Cons del: upt_Suc)
qed

section \<open>The invariant\<close>

definition stored :: "nat \<Rightarrow> SecretTree \<Rightarrow> nat \<Rightarrow> nat set" where
  "stored h t l = {k. k \<le> h \<and> node t k (l div 2 ^ k) \<noteq> None}"

definition initialised :: "SecretTree \<Rightarrow> nat set" where
  "initialised t = {l. l < length (ratchets HandshakeSecret t) \<and> ratchets HandshakeSecret t ! l \<noteq> None}"

definition nodes_ok :: "kdf \<Rightarrow> nat \<Rightarrow> bytes \<Rightarrow> nat set \<Rightarrow> SecretTree \<Rightarrow> bool" where
  "nodes_ok cr h s I t \<longleftrightarrow>
     (\<forall>k j. in_tree h k j \<longrightarrow> node t k j = None \<or> node t k j = Some (node_secret cr h s k j)) \<and>
     (\<forall>l < 2 ^ h. if l \<in> I then stored h t l = {} else \<exists>k. stored h t l = {k})"

text \<open>
  A well-formed tree: every stored secret is the one of its node; a leaf has both of its ratchets and no secret
  left on its path, or none of them and exactly one secret on its path.
\<close>

definition tree_ok :: "kdf \<Rightarrow> nat \<Rightarrow> bytes \<Rightarrow> nat \<Rightarrow> SecretTree \<Rightarrow> bool" where
  "tree_ok cr h s own t \<longleftrightarrow> shape h t \<and> st_own_index t = leafi own \<and> nodes_ok cr h s (initialised t) t \<and>
     (\<forall>l < 2 ^ h. \<forall>ty. ratchets ty t ! l \<noteq> None \<longleftrightarrow> l \<in> initialised t)"

lemma opened_path:
  assumes "l < 2 ^ h" and "m < 2 ^ h"
  shows "opened cr h s l k0 f k (m div 2 ^ k) =
    (if k < k0 \<and> meet l m = Suc k \<or> k < k0 \<and> k = 0 \<and> meet l m = 0 then Some (node_secret cr h s k (m div 2 ^ k))
     else if 0 < k \<and> k \<le> k0 \<and> meet l m \<le> k then None else f k (m div 2 ^ k))"
proof -
  have half: "z div 2 ^ k div 2 = z div 2 ^ Suc k" for z :: nat by (simp add: div_mult2_eq [symmetric] mult.commute)
  have "(m div 2 ^ k) div 2 = l div 2 ^ Suc k \<longleftrightarrow> meet l m \<le> Suc k" "m div 2 ^ k = l div 2 ^ k \<longleftrightarrow> meet l m \<le> k"
    "m div 2 ^ k = l div 2 ^ k0 \<and> k = k0 \<longleftrightarrow> meet l m \<le> k \<and> k = k0"
    unfolding half using agree_iff [OF assms, of "Suc k"] agree_iff [OF assms, of k] by metis+
  then show ?thesis unfolding opened_def by (auto simp: le_Suc_eq)
qed

lemma meet_zero: "l < 2 ^ h \<Longrightarrow> m < 2 ^ h \<Longrightarrow> meet l m = 0 \<longleftrightarrow> l = m"
  using agree_iff [of l h m 0] by simp

lemma stored_shared: "l < 2 ^ h \<Longrightarrow> m < 2 ^ h \<Longrightarrow> meet l m \<le> k \<Longrightarrow> k \<in> stored h t l \<Longrightarrow> k \<in> stored h t m"
  using agree_iff [of l h m k] by (simp add: stored_def)

lemma stored_opened:
  assumes "l < 2 ^ h" and "m < 2 ^ h" and "stored h t l = {k0}" and "stored h t m \<subseteq> {k1}"
    and "\<And>k j. in_tree h k j \<Longrightarrow> node t' k j = (if k = 0 \<and> j = l then None else opened cr h s l k0 (node t) k j)"
  shows "stored h t' m = (if m = l then {} else if meet l m \<le> k0 then {meet l m - 1} else stored h t m)"
proof -
  have k0: "k0 \<le> h" "node t k0 (l div 2 ^ k0) \<noteq> None" using assms(3) by (auto simp: stored_def)
  have old: "node t k (l div 2 ^ k) = None" if "k \<le> h" "k \<noteq> k0" for k using assms(3) that by (auto simp: stored_def)
  have new: "node t' k (m div 2 ^ k) = (if k = 0 \<and> m = l then None else opened cr h s l k0 (node t) k (m div 2 ^ k))"
    if "k \<le> h" for k using assms(5) [OF in_tree_leaf [OF assms(2) that]] by auto
  note mz = meet_zero [OF assms(1,2)]
  consider "m = l" | "m \<noteq> l" "meet l m \<le> k0" | "m \<noteq> l" "k0 < meet l m" by force
  then show ?thesis
  proof cases
    case 1
    then have "node t' k (m div 2 ^ k) = None" if "k \<le> h" for k
      using new [OF that] old [OF that] mz that opened_path [OF assms(1,2), of cr s k0 "node t" k] by auto
    then show ?thesis using 1 by (simp add: stored_def)
  next
    case 2
    have m: "stored h t m = {k0}" using assms(3,4) stored_shared [OF assms(1,2) 2(2), of t] by auto
    have "node t' k (m div 2 ^ k) \<noteq> None \<longleftrightarrow> k = meet l m - 1" if "k \<le> h" for k
    proof -
      have "node t k (m div 2 ^ k) = None" if "k \<noteq> k0" using m \<open>k \<le> h\<close> that by (auto simp: stored_def)
      then show ?thesis using new [OF that] mz 2 opened_path [OF assms(1,2), of cr s k0 "node t" k] by auto
    qed
    then show ?thesis using 2 k0(1) by (auto simp: stored_def)
  next
    case 3
    then have "node t' k (m div 2 ^ k) = node t k (m div 2 ^ k)" if "k \<le> h" for k
      using new [OF that] mz opened_path [OF assms(1,2), of cr s k0 "node t" k] by auto
    then show ?thesis using 3 by (auto simp: stored_def)
  qed
qed

lemma opened_cases:
  "opened cr h s l k0 f k j = None \<or> opened cr h s l k0 f k j = Some (node_secret cr h s k j) \<or> opened cr h s l k0 f k j = f k j"
  by (auto simp: opened_def)

lemma nodes_ok_opened:
  assumes ok: "nodes_ok cr h s I t" and l: "l < 2 ^ h" and st: "stored h t l = {k0}"
    and new: "\<And>k j. in_tree h k j \<Longrightarrow> node t' k j = (if k = 0 \<and> j = l then None else opened cr h s l k0 (node t) k j)"
  shows "nodes_ok cr h s (insert l I) t'"
proof -
  have "node t' k j = None \<or> node t' k j = Some (node_secret cr h s k j)" if "in_tree h k j" for k j
    using new [OF that] ok that opened_cases [of cr h s l k0 "node t" k j] unfolding nodes_ok_def by metis
  moreover have "if m \<in> insert l I then stored h t' m = {} else \<exists>k. stored h t' m = {k}" if m: "m < 2 ^ h" for m
  proof -
    have mI: "if m \<in> I then stored h t m = {} else \<exists>k. stored h t m = {k}" using ok m by (simp add: nodes_ok_def)
    then obtain k1 where "stored h t m \<subseteq> {k1}" by (auto split: if_splits)
    note st' = stored_opened [OF l m st this new]
    have "m \<notin> I" if "meet l m \<le> k0"
    proof
      assume "m \<in> I"
      then have "stored h t m = {}" using mI by simp
      moreover have "k0 \<in> stored h t m" using stored_shared [OF l m that] st by simp
      ultimately show False by simp
    qed
    then show ?thesis using st' mI by (auto split: if_splits)
  qed
  ultimately show ?thesis by (simp add: nodes_ok_def)
qed

lemma derive_leaf_ok:
  assumes "kdf_total cr" and "shape h t" and "nodes_ok cr h s I t" and l: "l < 2 ^ h" "l \<notin> I" and h: "h \<le> 30"
  shows "\<exists>k0 t'. stored h t l = {k0} \<and> derive_leaf cr (leafi l) t = Some (Inr (), t') \<and> shape h t' \<and> same_frame t t' \<and>
    node t' 0 l = Some (node_secret cr h s 0 l) \<and> (\<forall>k j. in_tree h k j \<longrightarrow> node t' k j = opened cr h s l k0 (node t) k j)"
proof -
  obtain k0 where st: "stored h t l = {k0}" using assms(3) l unfolding nodes_ok_def by metis
  then have k0: "k0 \<le> h" "node t k0 (l div 2 ^ k0) \<noteq> None" by (auto simp: stored_def)
  then have sec: "node t k0 (l div 2 ^ k0) = Some (node_secret cr h s k0 (l div 2 ^ k0))"
    using assms(3) in_tree_leaf [OF l(1) k0(1)] unfolding nodes_ok_def by metis
  have old: "node t k (l div 2 ^ k) = None" if "k < k0" for k using st that k0(1) by (auto simp: stored_def)
  have in0: "in_tree h 0 l" using l(1) by (simp add: in_tree_def)
  have leaf: "get_node t (Leaf (leafi l)) = Inr (node t 0 l)"
    using get_node_at [OF assms(2) in0 h] tree_node_zero [OF leaf_pow [OF l(1) h]] by simp
  show ?thesis
  proof (cases "k0 = 0")
    case True
    then have "derive_leaf cr (leafi l) t = Some (Inr (), t)" using leaf sec by (simp add: derive_leaf_def)
    then show ?thesis using True st sec assms(2) by (intro exI [of _ 0] exI [of _ t]) (simp add: same_frame_def opened_def)
  next
    case False
    obtain t' where t': "derive_all cr (rev (path l 1 (Suc k0))) t = Some (Inr (), t')" "shape h t'" "same_frame t t'"
      "\<And>k j. in_tree h k j \<Longrightarrow> node t' k j = opened cr h s l k0 (node t) k j"
      using derive_all_path [OF assms(1) l(1) h assms(2) k0(1) sec] by auto
    have "collect_empty t (path l 1 (Suc h)) = Inr (path l 1 (Suc k0))"
      using collect_empty_path [OF assms(2) l(1) h k0, of 1] old False by simp
    moreover have "node t 0 l = None" using old [of 0] False by simp
    moreover have "direct_path (leafi l) (st_size t) = Some (path l 1 (Suc h))"
      using direct_path_leaf [OF l(1) h] assms(2) by (simp add: shape_def)
    ultimately have "derive_leaf cr (leafi l) t = Some (Inr (), t')"
      using leaf t'(1) unfolding derive_leaf_def by simp
    moreover have "node t' 0 l = Some (node_secret cr h s 0 l)" using t'(4) [OF in0] False by (simp add: opened_def)
    ultimately show ?thesis using st t'(2-4) by blast
  qed
qed

text \<open>The ratchet a leaf starts with, in the tree of member \<open>own\<close>.\<close>

definition first_ratchet :: "kdf \<Rightarrow> nat \<Rightarrow> bytes \<Rightarrow> nat \<Rightarrow> nat \<Rightarrow> SecretType \<Rightarrow> SenderRatchet" where
  "first_ratchet cr h s own l ty =
     (if l = own then EncryptionRatchet (initial_ratchet_secret (leaf_ratchet_secret cr h s l ty))
      else DecryptionRatchetOf (decryption_ratchet_new (leaf_ratchet_secret cr h s l ty)))"

lemma write_ratchet_simps [simp]:
  "ratchets ty' (write_ratchet i ty r t) = (if ty' = ty then (ratchets ty t)[leaf_usize i := Some r] else ratchets ty' t)"
  "slot (write_ratchet i ty r t) n = slot t n"
  "st_size (write_ratchet i ty r t) = st_size t" "st_own_index (write_ratchet i ty r t) = st_own_index t"
  "shape h (write_ratchet i ty r t) \<longleftrightarrow> shape h t"
proof -
  show r: "ratchets ty' (write_ratchet i ty r t) = (if ty' = ty then (ratchets ty t)[leaf_usize i := Some r] else ratchets ty' t)" for ty'
    by (cases ty; cases ty') (auto simp: write_ratchet_def)
  have f: "st_leaf_nodes (write_ratchet i ty r t) = st_leaf_nodes t" "st_parent_nodes (write_ratchet i ty r t) = st_parent_nodes t"
    by (cases ty; simp add: write_ratchet_def)+
  then show "slot (write_ratchet i ty r t) n = slot t n" by (cases n) simp_all
  show g: "st_size (write_ratchet i ty r t) = st_size t" "st_own_index (write_ratchet i ty r t) = st_own_index t"
    by (cases ty; simp add: write_ratchet_def)+
  show "shape h (write_ratchet i ty r t) \<longleftrightarrow> shape h t" using f g by (auto simp: shape_def r)
qed

lemma install_ratchets_ok:
  assumes "kdf_total cr" and "shape h t" and "st_own_index t = leafi own" and "own < 2 ^ h" and l: "l < 2 ^ h" and h: "h \<le> 30"
    and "node t 0 l = Some (node_secret cr h s 0 l)"
  shows "\<exists>t'. install_ratchets cr (leafi l) t = (Inr (), t') \<and> shape h t' \<and> st_own_index t' = leafi own \<and>
    (\<forall>ty. ratchets ty t' = (ratchets ty t)[l := Some (first_ratchet cr h s own l ty)]) \<and>
    (\<forall>k j. in_tree h k j \<longrightarrow> node t' k j = (if k = 0 \<and> j = l then None else node t k j))"
proof -
  let ?w = "\<lambda>ty. write_ratchet (leafi l) ty (first_ratchet cr h s own l ty)"
  define t1 where "t1 = ?w ApplicationSecret (?w HandshakeSecret t)"
  define t2 where "t2 = snd (set_node (tree_node 0 l) None t1)"
  have in0: "in_tree h 0 l" using l by (simp add: in_tree_def)
  note tn = tree_node_zero [OF leaf_pow [OF l h]] and us = leaf_usize_leafi [OF l h]
  have sh: "shape h t1" using assms(2) by (simp add: t1_def)
  have leaf: "get_node t (Leaf (leafi l)) = Inr (Some (node_secret cr h s 0 l))"
    using get_node_at [OF assms(2) in0 h] tn assms(7) by simp
  have len: "length (st_handshake_sender_ratchets t) = 2 ^ h"
    "length (st_application_sender_ratchets (write_ratchet i HandshakeSecret r t)) = 2 ^ h" for i r
  proof -
    have r: "length (ratchets HandshakeSecret t) = 2 ^ h" "length (ratchets ApplicationSecret t) = 2 ^ h"
      using assms(2) unfolding shape_def by blast+
    then show "length (st_handshake_sender_ratchets t) = 2 ^ h" by simp
    show "length (st_application_sender_ratchets (write_ratchet i HandshakeSecret r t)) = 2 ^ h"
      using r by (simp add: write_ratchet_def)
  qed
  have ex: "expand_label cr (node_secret cr h s 0 l) ''handshake'' [] = Inr (leaf_ratchet_secret cr h s l HandshakeSecret)"
    "expand_label cr (node_secret cr h s 0 l) ''application'' [] = Inr (leaf_ratchet_secret cr h s l ApplicationSecret)"
    using expand_label_total [OF assms(1)] by (simp_all add: leaf_ratchet_secret_def)
  have own: "leafi l = st_own_index t \<longleftrightarrow> l = own" using leafi_eq [OF l assms(4) h] assms(3) by simp
  have "set_node (Leaf (leafi l)) None t1 = (Inr (), t2)"
    unfolding t2_def tn [symmetric] by (rule set_node_at [OF sh in0 h])
  then have "install_ratchets cr (leafi l) t = (Inr (), t2)"
    unfolding install_ratchets_def leaf sum.case option.case ex own Let_def len us if_distrib [of "\<lambda>f. f _"]
    using l by (simp add: t1_def first_ratchet_def del: set_node.simps)
  moreover have "shape h t2" "st_own_index t2 = leafi own" using sh assms(3) by (simp_all add: t2_def t1_def)
  moreover have "ratchets ty t2 = (ratchets ty t)[l := Some (first_ratchet cr h s own l ty)]" for ty
    using us by (cases ty) (simp_all add: t2_def t1_def del: ratchets.simps leaf_usize.simps)
  moreover have "node t2 k j = (if k = 0 \<and> j = l then None else node t k j)" if "in_tree h k j" for k j
    using node_set_node [OF sh in0 that h, of None] by (auto simp: t2_def t1_def)
  ultimately show ?thesis by blast
qed

lemma initialised_update:
  assumes "\<And>ty. ratchets ty t' = (ratchets ty t)[l := Some (f ty)]" and "l < length (ratchets HandshakeSecret t)"
  shows "initialised t' = insert l (initialised t)"
  using assms(2) unfolding initialised_def assms(1) by (auto simp: nth_list_update)

lemma ratchet_length: "shape h t \<Longrightarrow> length (ratchets ty t) = 2 ^ h"
  by (simp add: shape_def)

lemma tree_ok_ratchet: "tree_ok cr h s own t \<Longrightarrow> l < 2 ^ h \<Longrightarrow> ratchets ty t ! l = None \<longleftrightarrow> l \<notin> initialised t"
  unfolding tree_ok_def by blast

lemma initialize_ok:
  assumes "kdf_total cr" and ok: "tree_ok cr h s own t" and l: "l < 2 ^ h" "l \<notin> initialised t" and "own < 2 ^ h" and h: "h \<le> 30"
  shows "\<exists>t'. initialize_sender_ratchets cr (leafi l) t = Some (Inr (), t') \<and> tree_ok cr h s own t' \<and>
    (\<forall>ty. ratchets ty t' = (ratchets ty t)[l := Some (first_ratchet cr h s own l ty)])"
proof -
  have sh: "shape h t" and own: "st_own_index t = leafi own" and n: "nodes_ok cr h s (initialised t) t"
    using ok by (simp_all add: tree_ok_def)
  obtain k0 t1 where st: "stored h t l = {k0}" and t1: "derive_leaf cr (leafi l) t = Some (Inr (), t1)" "shape h t1" "same_frame t t1"
    "node t1 0 l = Some (node_secret cr h s 0 l)" "\<And>k j. in_tree h k j \<Longrightarrow> node t1 k j = opened cr h s l k0 (node t) k j"
    using derive_leaf_ok [OF assms(1) sh n l h] by auto
  have "st_own_index t1 = leafi own" and fr: "\<And>ty. ratchets ty t1 = ratchets ty t" using t1(3) own by (simp_all add: same_frame_def)
  from install_ratchets_ok [OF assms(1) t1(2) this(1) assms(5) l(1) h t1(4)] obtain t2 where
    t2: "install_ratchets cr (leafi l) t1 = (Inr (), t2)" "shape h t2" "st_own_index t2 = leafi own"
      "\<And>ty. ratchets ty t2 = (ratchets ty t)[l := Some (first_ratchet cr h s own l ty)]"
      "\<And>k j. in_tree h k j \<Longrightarrow> node t2 k j = (if k = 0 \<and> j = l then None else node t1 k j)"
    using fr by auto
  have len: "length (ratchets ty t) = 2 ^ h" for ty by (rule ratchet_length [OF sh])
  note I = initialised_update [OF t2(4), unfolded len, OF l(1)]
  have "nodes_ok cr h s (insert l (initialised t)) t2"
    using nodes_ok_opened [OF n l(1) st, of t2] t2(5) t1(5) by auto
  moreover have "ratchets ty t2 ! m \<noteq> None \<longleftrightarrow> m \<in> insert l (initialised t)" if "m < 2 ^ h" for m ty
    using l(1) tree_ok_ratchet [OF ok that, of ty] len [of ty] by (auto simp: t2(4) nth_list_update)
  ultimately have "tree_ok cr h s own t2" using t2(2,3) by (simp add: tree_ok_def I)
  moreover have "ratchet_opt t (leafi l) HandshakeSecret = Inr None"
    using tree_ok_ratchet [OF ok l(1)] l len leaf_usize_leafi [OF l(1) h]
    by (simp add: ratchet_opt_def get_at_def del: leaf_usize.simps ratchets.simps)
  then have "initialize_sender_ratchets cr (leafi l) t = Some (Inr (), t2)"
    using t1(1) t2(1) sh l(1) leaf_usize_leafi [OF l(1) h] size_of_counts(1) [OF h]
    by (simp add: initialize_sender_ratchets_def shape_def del: leaf_usize.simps)
  ultimately show ?thesis using t2(4) by blast
qed

section \<open>The tree is a table of ratchets\<close>

text \<open>
  The reference: every leaf has its two ratchets from the start, each in an entry of its own.
\<close>

type_synonym table = "nat \<Rightarrow> SecretType \<Rightarrow> SenderRatchet"

datatype tree_request = Encrypt LeafNodeIndex SecretType | Decrypt LeafNodeIndex SecretType u32

type_synonym tree_answer = "SecretTreeError + u32 \<times> RatchetKeyMaterial"

definition table_put :: "nat \<Rightarrow> SecretType \<Rightarrow> SenderRatchet \<Rightarrow> table \<Rightarrow> table" where
  "table_put l ty r f = (\<lambda>l' ty'. if l' = l \<and> ty' = ty then r else f l' ty')"

fun target :: "tree_request \<Rightarrow> LeafNodeIndex \<times> SecretType" where
  "target (Encrypt i ty) = (i, ty)"
| "target (Decrypt i ty g) = (i, ty)"

abbreviation target_leaf :: "tree_request \<Rightarrow> nat" where
  "target_leaf q \<equiv> leaf_usize (fst (target q))"

fun table_request :: "kdf \<Rightarrow> SenderRatchetConfiguration \<Rightarrow> nat \<Rightarrow> table \<Rightarrow> tree_request \<Rightarrow> tree_answer \<times> table" where
  "table_request cr cfg n f (Encrypt i ty) =
     (if n \<le> leaf_usize i then (Inl IndexOutOfBounds, f)
      else case f (leaf_usize i) ty of
        DecryptionRatchetOf _ \<Rightarrow> (Inl RatchetTypeError, f)
      | EncryptionRatchet r \<Rightarrow> (case ratchet_forward cr r of (res, r1) \<Rightarrow> (res, table_put (leaf_usize i) ty (EncryptionRatchet r1) f)))"
| "table_request cr cfg n f (Decrypt i ty g) =
     (if n \<le> leaf_usize i then (Inl IndexOutOfBounds, f)
      else case f (leaf_usize i) ty of
        EncryptionRatchet _ \<Rightarrow> (Inl RatchetTypeError, f)
      | DecryptionRatchetOf d \<Rightarrow>
          (case secret_for_decryption cr cfg g d of
             (res, d1) \<Rightarrow> (map_sum id (Pair g) res, table_put (leaf_usize i) ty (DecryptionRatchetOf d1) f)))"

fun answer_request :: "kdf \<Rightarrow> SenderRatchetConfiguration \<Rightarrow> tree_request \<Rightarrow> SecretTree \<Rightarrow> (u32 \<times> RatchetKeyMaterial) tree_result" where
  "answer_request cr cfg (Encrypt i ty) t = tree_secret_for_encryption cr i ty t"
| "answer_request cr cfg (Decrypt i ty g) t =
     map_option (apfst (map_sum id (Pair g))) (tree_secret_for_decryption cr cfg i ty g t)"

abbreviation tree_requests :: "kdf \<Rightarrow> SenderRatchetConfiguration \<Rightarrow> tree_request list \<Rightarrow> SecretTree
    \<Rightarrow> ((tree_request \<times> tree_answer) list \<times> SecretTree) option" where
  "tree_requests cr cfg \<equiv> attempt_all (answer_request cr cfg)"

definition table_rel :: "kdf \<Rightarrow> nat \<Rightarrow> bytes \<Rightarrow> nat \<Rightarrow> SecretTree \<Rightarrow> table \<Rightarrow> bool" where
  "table_rel cr h s own t f \<longleftrightarrow> tree_ok cr h s own t \<and>
     (\<forall>l < 2 ^ h. \<forall>ty. f l ty = (case ratchets ty t ! l of Some r \<Rightarrow> r | None \<Rightarrow> first_ratchet cr h s own l ty))"

lemma ensure_ok:
  assumes "kdf_total cr" and rel: "table_rel cr h s own t f" and l: "l < 2 ^ h" and "own < 2 ^ h" and h: "h \<le> 30"
  shows "\<exists>t'. ensure_ratchet cr (leafi l) ty t = Some (Inr (), t') \<and> table_rel cr h s own t' f \<and>
    initialised t' = insert l (initialised t) \<and> ratchet_mut t' (leafi l) ty = Inr (f l ty)"
proof -
  have ok: "tree_ok cr h s own t" using rel by (simp add: table_rel_def)
  then have len: "length (ratchets ty t) = 2 ^ h" for ty by (intro ratchet_length) (simp add: tree_ok_def)
  note us = leaf_usize_leafi [OF l h]
  have opt: "ratchet_opt t (leafi l) ty = Inr (ratchets ty t ! l)"
    using l len by (simp add: ratchet_opt_def get_at_def us del: leaf_usize.simps ratchets.simps)
  show ?thesis
  proof (cases "ratchets ty t ! l")
    case None
    then obtain t' where t': "initialize_sender_ratchets cr (leafi l) t = Some (Inr (), t')" "tree_ok cr h s own t'"
      "\<And>ty. ratchets ty t' = (ratchets ty t)[l := Some (first_ratchet cr h s own l ty)]"
      using initialize_ok [OF assms(1) ok l _ assms(4) h] tree_ok_ratchet [OF ok l, of ty] by auto
    have none: "ratchets ty' t ! l = None" for ty' using None tree_ok_ratchet [OF ok l] by metis
    have "f m ty' = (case ratchets ty' t' ! m of Some r \<Rightarrow> r | None \<Rightarrow> first_ratchet cr h s own m ty')" if "m < 2 ^ h" for m ty'
      using rel that none [of ty'] len by (cases "m = l") (auto simp: table_rel_def t'(3))
    then have r': "table_rel cr h s own t' f" using t'(2) by (simp add: table_rel_def)
    have "ratchets ty t' ! l = Some (f l ty)" using rel l none [of ty] len by (auto simp: table_rel_def t'(3))
    then have "ratchet_mut t' (leafi l) ty = Inr (f l ty)"
      using l len by (simp add: ratchet_mut_def get_at_def us t'(3) del: leaf_usize.simps ratchets.simps)
    moreover have "initialised t' = insert l (initialised t)" using initialised_update [OF t'(3)] len [of HandshakeSecret] l by simp
    ultimately show ?thesis using r' t'(1) None by (simp add: ensure_ratchet_def opt)
  next
    case (Some r)
    then have "f l ty = r" "l \<in> initialised t" using rel l tree_ok_ratchet [OF ok l, of ty] by (auto simp: table_rel_def)
    then have "insert l (initialised t) = initialised t" by blast
    with \<open>f l ty = r\<close> show ?thesis using Some rel l len
      by (simp add: ensure_ratchet_def opt ratchet_mut_def get_at_def us del: leaf_usize.simps ratchets.simps)
  qed
qed

lemma write_ok:
  assumes rel: "table_rel cr h s own t f" and l: "l < 2 ^ h" "l \<in> initialised t" and h: "h \<le> 30"
  shows "table_rel cr h s own (write_ratchet (leafi l) ty r t) (table_put l ty r f)"
    and "initialised (write_ratchet (leafi l) ty r t) = initialised t"
proof -
  let ?t = "write_ratchet (leafi l) ty r t"
  have ok: "tree_ok cr h s own t" using rel by (simp add: table_rel_def)
  then have len: "length (ratchets ty t) = 2 ^ h" for ty by (intro ratchet_length) (simp add: tree_ok_def)
  note us = leaf_usize_leafi [OF l(1) h]
  have nth: "ratchets ty' ?t ! m = (if m = l \<and> ty' = ty then Some r else ratchets ty' t ! m)" if "m < 2 ^ h" for m ty'
    using l(1) len [of ty] us by (auto simp: nth_list_update simp del: leaf_usize.simps)
  show I: "initialised ?t = initialised t"
    using l len [of HandshakeSecret] us
    by (cases ty) (auto simp: initialised_def nth_list_update simp del: leaf_usize.simps ratchets.simps)
  have "nodes_ok cr h s I ?t \<longleftrightarrow> nodes_ok cr h s I t" for I by (simp add: nodes_ok_def stored_def)
  moreover have "ratchets ty' ?t ! m \<noteq> None \<longleftrightarrow> m \<in> initialised t" if "m < 2 ^ h" for m ty'
    using tree_ok_ratchet [OF ok that, of ty'] l(2) nth [OF that, of ty'] by (auto split: if_splits)
  ultimately have "tree_ok cr h s own ?t" using ok by (simp add: tree_ok_def I)
  moreover have "table_put l ty r f m ty' = (case ratchets ty' ?t ! m of Some r \<Rightarrow> r | None \<Rightarrow> first_ratchet cr h s own m ty')"
    if "m < 2 ^ h" for m ty'
    using rel that nth [OF that, of ty'] by (auto simp: table_rel_def table_put_def)
  ultimately show "table_rel cr h s own ?t (table_put l ty r f)" by (simp add: table_rel_def)
qed

lemma leafi_usize [simp]: "leafi (leaf_usize i) = i"
  by (cases i) simp

lemma ensure_out_of_range:
  "shape h t \<Longrightarrow> 2 ^ h \<le> leaf_usize i \<Longrightarrow> ensure_ratchet cr i ty t = Some (Inl IndexOutOfBounds, t)"
  using ratchet_length [of h t ty] by (simp add: ensure_ratchet_def ratchet_opt_def get_at_def)

lemma answer_request_refines:
  assumes "kdf_total cr" and rel: "table_rel cr h s own t f" and "own < 2 ^ h" and h: "h \<le> 30"
  shows "\<exists>t'. answer_request cr cfg q t = Some (fst (table_request cr cfg (2 ^ h) f q), t') \<and>
    table_rel cr h s own t' (snd (table_request cr cfg (2 ^ h) f q)) \<and> initialised t \<subseteq> initialised t' \<and>
    (case fst (table_request cr cfg (2 ^ h) f q) of Inl _ \<Rightarrow> True | Inr _ \<Rightarrow> target_leaf q \<in> initialised t')"
proof -
  have sh: "shape h t" using rel by (simp add: table_rel_def tree_ok_def)
  then have n: "unat (leaf_count (st_size t)) = 2 ^ h" using size_of_counts(1) [OF h] by (simp add: shape_def)
  have ens: "\<exists>t'. ensure_ratchet cr i ty t = Some (Inr (), t') \<and> table_rel cr h s own t' f \<and>
      ratchet_mut t' i ty = Inr (f (leaf_usize i) ty) \<and> initialised t' = insert (leaf_usize i) (initialised t) \<and>
      (\<forall>r. table_rel cr h s own (write_ratchet i ty r t') (table_put (leaf_usize i) ty r f) \<and>
        initialised (write_ratchet i ty r t') = initialised t')"
    if "leaf_usize i < 2 ^ h" for i ty
    using ensure_ok [OF assms(1) rel that assms(3) h, of ty] write_ok [OF _ that _ h, of cr s own _ f ty] by auto
  show ?thesis
  proof (cases q)
    case (Encrypt i ty)
    show ?thesis
    proof (cases "leaf_usize i < 2 ^ h")
      case True
      from ens [OF this, of ty] obtain t' where t': "ensure_ratchet cr i ty t = Some (Inr (), t')" "table_rel cr h s own t' f"
        "ratchet_mut t' i ty = Inr (f (leaf_usize i) ty)"
        "\<And>r. table_rel cr h s own (write_ratchet i ty r t') (table_put (leaf_usize i) ty r f)"
        "initialised t' = insert (leaf_usize i) (initialised t)" "\<And>r. initialised (write_ratchet i ty r t') = initialised t'" by auto
      then show ?thesis using Encrypt True
        by (cases "f (leaf_usize i) ty") (auto simp: tree_secret_for_encryption_def split: prod.splits sum.splits)
    next
      case False
      then show ?thesis using Encrypt rel ensure_out_of_range [OF sh, of i cr ty] by (simp add: tree_secret_for_encryption_def)
    qed
  next
    case (Decrypt i ty g)
    show ?thesis
    proof (cases "leaf_usize i < 2 ^ h")
      case True
      from ens [OF this, of ty] obtain t' where t': "ensure_ratchet cr i ty t = Some (Inr (), t')" "table_rel cr h s own t' f"
        "ratchet_mut t' i ty = Inr (f (leaf_usize i) ty)"
        "\<And>r. table_rel cr h s own (write_ratchet i ty r t') (table_put (leaf_usize i) ty r f)"
        "initialised t' = insert (leaf_usize i) (initialised t)" "\<And>r. initialised (write_ratchet i ty r t') = initialised t'" by auto
      then show ?thesis using Decrypt True n
        by (cases "f (leaf_usize i) ty") (auto simp: tree_secret_for_decryption_def split: prod.splits sum.splits)
    next
      case False
      then show ?thesis using Decrypt rel n by (simp add: tree_secret_for_decryption_def)
    qed
  qed
qed

lemma tree_requests_refine:
  assumes "kdf_total cr" and "own < 2 ^ h" and "h \<le> 30"
  shows "table_rel cr h s own t f \<Longrightarrow>
    \<exists>t'. tree_requests cr cfg qs t = Some (fst (serve_all (table_request cr cfg (2 ^ h)) f qs), t') \<and>
      table_rel cr h s own t' (snd (serve_all (table_request cr cfg (2 ^ h)) f qs)) \<and> initialised t \<subseteq> initialised t' \<and>
      (\<forall>(q, k) \<in> set (served (fst (serve_all (table_request cr cfg (2 ^ h)) f qs))). target_leaf q \<in> initialised t')"
proof (induction qs arbitrary: t f)
  case Nil
  then show ?case by simp
next
  case (Cons q qs)
  obtain a f1 where q: "table_request cr cfg (2 ^ h) f q = (a, f1)" by (metis surj_pair)
  then obtain t1 where t1: "answer_request cr cfg q t = Some (a, t1)" "table_rel cr h s own t1 f1" "initialised t \<subseteq> initialised t1"
    "case a of Inl _ \<Rightarrow> True | Inr _ \<Rightarrow> target_leaf q \<in> initialised t1"
    using answer_request_refines [OF assms(1) Cons.prems assms(2,3), of cfg q] by auto
  from Cons.IH [OF t1(2)] obtain t2 where
    t2: "tree_requests cr cfg qs t1 = Some (fst (serve_all (table_request cr cfg (2 ^ h)) f1 qs), t2)"
      "table_rel cr h s own t2 (snd (serve_all (table_request cr cfg (2 ^ h)) f1 qs))" "initialised t1 \<subseteq> initialised t2"
      "\<forall>(q, k) \<in> set (served (fst (serve_all (table_request cr cfg (2 ^ h)) f1 qs))). target_leaf q \<in> initialised t2" by auto
  show ?case using q t1 t2 by (cases a) auto
qed

lemma new_nodes:
  assumes h: "h \<le> 30" and "in_tree h k j"
  shows "node (secret_tree_new s (size_of h) (leafi own)) k j = (if k = h then Some s else None)"
proof -
  define t :: SecretTree where "t = \<lparr>st_own_index = leafi own, st_leaf_nodes = replicate (2 ^ h) None, st_parent_nodes = replicate (2 ^ h) None,
    st_handshake_sender_ratchets = replicate (2 ^ h) None, st_application_sender_ratchets = replicate (2 ^ h) None, st_size = size_of h\<rparr>"
  have "length (ratchets ty t) = 2 ^ h" for ty by (cases ty) (simp_all add: t_def)
  then have sh: "shape h t" by (simp add: shape_def t_def)
  have new: "secret_tree_new s (size_of h) (leafi own) = snd (set_node (tree_node h 0) (Some s) t)"
    by (simp add: secret_tree_new_def size_of_counts [OF h] root_size_of [OF h] t_def Let_def)
  have "slot t (tree_node k j) = None"
    using index_in_range [OF sh assms(2) h] by (cases "tree_node k j") (simp_all add: t_def)
  moreover have "in_tree h h 0" by (simp add: in_tree_def)
  moreover have "k = h \<Longrightarrow> j = 0" using assms(2) by (simp add: in_tree_def)
  ultimately show ?thesis unfolding new using node_set_node [OF sh _ assms(2) h, of h 0 "Some s"] by auto
qed

lemma new_frame:
  assumes h: "h \<le> 30"
  shows "shape h (secret_tree_new s (size_of h) (leafi own))" "st_own_index (secret_tree_new s (size_of h) (leafi own)) = leafi own"
    "ratchets ty (secret_tree_new s (size_of h) (leafi own)) = replicate (2 ^ h) None"
proof -
  have r: "ratchets ty (secret_tree_new s (size_of h) (leafi own)) = replicate (2 ^ h) None" for ty
    by (cases ty) (simp_all add: secret_tree_new_def size_of_counts [OF h] Let_def del: ratchets.simps, simp_all)
  then show "ratchets ty (secret_tree_new s (size_of h) (leafi own)) = replicate (2 ^ h) None" .
  show "shape h (secret_tree_new s (size_of h) (leafi own))"
    using r by (simp add: shape_def secret_tree_new_def size_of_counts [OF h] Let_def)
  show "st_own_index (secret_tree_new s (size_of h) (leafi own)) = leafi own" by (simp add: secret_tree_new_def Let_def)
qed

lemma new_tree_rel:
  assumes h: "h \<le> 30"
  shows "table_rel cr h s own (secret_tree_new s (size_of h) (leafi own)) (first_ratchet cr h s own)"
proof -
  let ?t = "secret_tree_new s (size_of h) (leafi own)"
  note fr = new_frame [OF h, where s = s and own = own] and nn = new_nodes [OF h, of _ _ s own]
  have "stored h ?t l = {h}" if "l < 2 ^ h" for l
    using nn [OF in_tree_leaf [OF that]] by (auto simp: stored_def split: if_splits)
  moreover have "initialised ?t = {}" by (simp add: initialised_def fr del: ratchets.simps)
  moreover have "node_secret cr h s h j = s" for j by (simp add: node_secret_def)
  ultimately have "tree_ok cr h s own ?t" using fr nn by (auto simp: tree_ok_def nodes_ok_def)
  then show ?thesis by (simp add: table_rel_def fr)
qed

lemma run_rel:
  assumes "kdf_total cr" and "own < 2 ^ h" and "h \<le> 30"
    and "tree_requests cr cfg qs (secret_tree_new s (size_of h) (leafi own)) = Some (rs, t)"
  shows "rs = fst (serve_all (table_request cr cfg (2 ^ h)) (first_ratchet cr h s own) qs)" and "tree_ok cr h s own t"
    and "(q, k) \<in> set (served rs) \<Longrightarrow> target_leaf q \<in> initialised t"
proof -
  obtain t' where
    "tree_requests cr cfg qs (secret_tree_new s (size_of h) (leafi own)) =
       Some (fst (serve_all (table_request cr cfg (2 ^ h)) (first_ratchet cr h s own) qs), t')" and "tree_ok cr h s own t'"
    and "\<forall>(q, k) \<in> set (served (fst (serve_all (table_request cr cfg (2 ^ h)) (first_ratchet cr h s own) qs))). target_leaf q \<in> initialised t'"
    using tree_requests_refine [OF assms(1-3) new_tree_rel [OF assms(3)], of cfg qs s] unfolding table_rel_def by blast
  then show "rs = fst (serve_all (table_request cr cfg (2 ^ h)) (first_ratchet cr h s own) qs)" "tree_ok cr h s own t"
    "(q, k) \<in> set (served rs) \<Longrightarrow> target_leaf q \<in> initialised t"
    using assms(4) by auto
qed

lemma run_returns:
  assumes "kdf_total cr" and "own < 2 ^ h" and "h \<le> 30"
  obtains rs t where "tree_requests cr cfg qs (secret_tree_new s (size_of h) (leafi own)) = Some (rs, t)"
  using tree_requests_refine [OF assms new_tree_rel [OF assms(3)], of cfg qs s] by blast

text \<open>
  (C5) The lazy secret tree is the table of all ratchets: whatever sequence of encryption and decryption requests a
  member makes, for whatever leaves, kinds of secret and generations, every request returns, and it is answered exactly as
  if the ratchets of all leaves had been derived from the encryption secret at the start and never
  touched one another. In particular the derivation never finds a path without a secret.
\<close>

theorem secret_tree_refines_ratchets:
  assumes "kdf_total cr" and "own < 2 ^ h" and "h \<le> 30"
  shows "map_option fst (tree_requests cr cfg qs (secret_tree_new s (size_of h) (leafi own))) =
    Some (fst (serve_all (table_request cr cfg (2 ^ h)) (first_ratchet cr h s own) qs))"
  using tree_requests_refine [OF assms new_tree_rel [OF assms(3)], of cfg qs s] by auto

theorem secret_tree_refines_ratchets_witness:
  "map_option fst (tree_requests demo_kdf sender_ratchet_configuration_default [Encrypt (leafi 1) HandshakeSecret, Encrypt (leafi 4) HandshakeSecret]
       (secret_tree_new [7] (size_of 2) (leafi 1))) =
     Some [(Encrypt (leafi 1) HandshakeSecret, Inr (0, key_at demo_kdf (leaf_ratchet_secret demo_kdf 2 [7] 1 HandshakeSecret) 0)),
           (Encrypt (leafi 4) HandshakeSecret, Inl IndexOutOfBounds)]"
proof -
  have "initial_ratchet_secret x = head_at demo_kdf x 0" for x by (simp add: initial_ratchet_secret_def head_at_def)
  then show ?thesis
    using secret_tree_refines_ratchets [OF demo_kdf_total, of 1 2 sender_ratchet_configuration_default
        "[Encrypt (leafi 1) HandshakeSecret, Encrypt (leafi 4) HandshakeSecret]" "[7]"]
    by (simp add: first_ratchet_def ratchet_forward_head [OF demo_kdf_total] u32_max_def)
qed

text \<open>
  (C14) The shape of the secret tree: after any sequence of requests the vectors keep their lengths, every
  secret still stored is the one of its node, and each leaf either has both ratchets and no secret left in its leaf
  node or on its direct path, or has neither and exactly one node with a secret from which to derive them.
\<close>

theorem secret_tree_well_formed:
  assumes "kdf_total cr" and "own < 2 ^ h" and "h \<le> 30"
    and "tree_requests cr cfg qs (secret_tree_new s (size_of h) (leafi own)) = Some (rs, t)"
  shows "tree_ok cr h s own t"
  by (rule run_rel(2) [OF assms])

theorem secret_tree_well_formed_witness:
  "\<exists>rs t. tree_requests demo_kdf sender_ratchet_configuration_default [Encrypt (leafi 1) HandshakeSecret, Decrypt (leafi 2) ApplicationSecret 3]
       (secret_tree_new [7] (size_of 2) (leafi 1)) = Some (rs, t) \<and> tree_ok demo_kdf 2 [7] 1 t"
proof -
  let ?qs = "[Encrypt (leafi 1) HandshakeSecret, Decrypt (leafi 2) ApplicationSecret 3]"
  obtain t rs where
    run: "tree_requests demo_kdf sender_ratchet_configuration_default ?qs (secret_tree_new [7] (size_of 2) (leafi 1)) = Some (rs, t)"
    by (rule run_returns [OF demo_kdf_total, of 1 2 sender_ratchet_configuration_default ?qs "[7]"]) (simp, simp, blast)
  have "tree_ok demo_kdf 2 [7] 1 t" by (rule secret_tree_well_formed [OF demo_kdf_total _ _ run]) simp_all
  with run show ?thesis by blast
qed

text \<open>The nodes of a path, as the code addresses them.\<close>

lemma erased_path:
  assumes "tree_ok cr h s own t" and "l \<in> initialised t" and "l < 2 ^ h" and "h \<le> 30"
  shows "\<exists>ps. direct_path (leafi l) (st_size t) = Some ps \<and>
    (\<forall>n \<in> set (Leaf (leafi l) # map Parent ps). get_node t n = Inr None)"
proof -
  have sh: "shape h t" using assms(1) by (simp add: tree_ok_def)
  have "stored h t l = {}" using assms(1-3) by (simp add: tree_ok_def nodes_ok_def)
  then have "get_node t (tree_node k (l div 2 ^ k)) = Inr None" if "k \<le> h" for k
    using that get_node_at [OF sh in_tree_leaf [OF assms(3) that] assms(4)] by (auto simp: stored_def)
  then have "get_node t n = Inr None" if "n \<in> set (map (\<lambda>k. tree_node k (l div 2 ^ k)) [0..<h + 1])" for n
    using that by auto
  then have "\<forall>n \<in> set (Leaf (leafi l) # map Parent (path l 1 (h + 1))). get_node t n = Inr None"
    unfolding path_nodes [OF assms(3,4)] by blast
  moreover have "direct_path (leafi l) (st_size t) = Some (path l 1 (h + 1))"
    using direct_path_leaf [OF assms(3,4)] sh by (simp add: shape_def)
  ultimately show ?thesis by blast
qed

text \<open>
  (C17) Forward secrecy inside the tree: after any sequence of requests, a leaf for which one of them was
  answered has no secret left in its leaf node or in any node of its direct path, so that the initial secrets of its
  ratchets cannot be derived from the tree any more.
\<close>

theorem used_paths_erased:
  assumes "kdf_total cr" and "own < 2 ^ h" and "h \<le> 30"
    and "tree_requests cr cfg qs (secret_tree_new s (size_of h) (leafi own)) = Some (rs, t)"
    and "(q, k) \<in> set (served rs)"
  shows "\<exists>ps. direct_path (fst (target q)) (st_size t) = Some ps \<and>
    (\<forall>n \<in> set (Leaf (fst (target q)) # map Parent ps). get_node t n = Inr None)"
proof -
  note ok = run_rel(2,3) [OF assms(1-4)]
  have I: "target_leaf q \<in> initialised t" by (rule ok(2) [OF assms(5)])
  then have "target_leaf q < 2 ^ h" using ok(1) ratchet_length [of h t] by (auto simp: initialised_def tree_ok_def simp del: ratchets.simps)
  from erased_path [OF ok(1) I this assms(3)] show ?thesis by simp
qed

theorem used_paths_erased_witness:
  "\<exists>rs t ps. tree_requests demo_kdf sender_ratchet_configuration_default [Encrypt (leafi 1) HandshakeSecret]
       (secret_tree_new [7] (size_of 2) (leafi 1)) = Some (rs, t) \<and>
     direct_path (leafi 1) (st_size t) = Some ps \<and> map (get_node t) (map Parent ps) = replicate (length ps) (Inr None)"
proof -
  let ?q = "Encrypt (leafi 1) HandshakeSecret"
  obtain t rs where
    run: "tree_requests demo_kdf sender_ratchet_configuration_default [?q] (secret_tree_new [7] (size_of 2) (leafi 1)) = Some (rs, t)"
    by (rule run_returns [OF demo_kdf_total, of 1 2 sender_ratchet_configuration_default "[?q]" "[7]"]) (simp, simp, blast)
  have "initial_ratchet_secret x = head_at demo_kdf x 0" for x by (simp add: initial_ratchet_secret_def head_at_def)
  then have "(?q, (0, key_at demo_kdf (leaf_ratchet_secret demo_kdf 2 [7] 1 HandshakeSecret) 0)) \<in> set (served rs)"
    using run_rel(1) [OF demo_kdf_total _ _ run]
    by (simp add: first_ratchet_def ratchet_forward_head [OF demo_kdf_total] u32_max_def)
  from used_paths_erased [OF demo_kdf_total _ _ run this]
  obtain ps where "direct_path (leafi 1) (st_size t) = Some ps" "\<And>n. n \<in> set ps \<Longrightarrow> get_node t (Parent n) = Inr None" by auto
  then show ?thesis using run by (intro exI [of _ rs] exI [of _ t] exI [of _ ps]) (auto intro: replicate_eqI)
qed

subsection \<open>The keys of all members\<close>

text \<open>The secret a ratchet belongs to, and the generations it can still answer.\<close>

fun ratchet_ok :: "kdf \<Rightarrow> SenderRatchetConfiguration \<Rightarrow> bytes \<Rightarrow> SenderRatchet \<Rightarrow> bool" where
  "ratchet_ok cr cfg s0 (EncryptionRatchet r) \<longleftrightarrow> (\<exists>n \<le> u32_max. r = head_at cr s0 n)"
| "ratchet_ok cr cfg s0 (DecryptionRatchetOf d) \<longleftrightarrow> ratchet_healthy cr cfg s0 d"

fun ratchet_open :: "SenderRatchet \<Rightarrow> u32 set" where
  "ratchet_open (EncryptionRatchet r) = {g. rs_generation r \<le> g}"
| "ratchet_open (DecryptionRatchetOf d) = openings d"

definition table_ok :: "kdf \<Rightarrow> SenderRatchetConfiguration \<Rightarrow> nat \<Rightarrow> bytes \<Rightarrow> table \<Rightarrow> bool" where
  "table_ok cr cfg h s f \<longleftrightarrow> (\<forall>l ty. ratchet_ok cr cfg (leaf_ratchet_secret cr h s l ty) (f l ty))"

definition table_open :: "table \<Rightarrow> ((LeafNodeIndex \<times> SecretType) \<times> u32) set" where
  "table_open f = {((i, ty), g). g \<in> ratchet_open (f (leaf_usize i) ty)}"

text \<open>What an answer does to a set of open generations.\<close>

definition answer_law :: "(u32 \<Rightarrow> RatchetKeyMaterial) \<Rightarrow> (u32 \<Rightarrow> 'k) \<Rightarrow> 'k set \<Rightarrow> tree_answer \<Rightarrow> 'k set \<Rightarrow> bool" where
  "answer_law key tag opened_before a opened_after \<longleftrightarrow>
     (case a of Inl _ \<Rightarrow> opened_after \<subseteq> opened_before
      | Inr (g, k) \<Rightarrow> k = key g \<and> tag g \<in> opened_before \<and> opened_after \<subseteq> opened_before - {tag g})"

lemma forward_step:
  assumes "kdf_total cr" and "ratchet_ok cr cfg s0 (EncryptionRatchet r)" and "ratchet_forward cr r = (a, r')"
  shows "ratchet_ok cr cfg s0 (EncryptionRatchet r') \<and>
    answer_law (\<lambda>g. key_at cr s0 (unat g)) id (ratchet_open (EncryptionRatchet r)) a (ratchet_open (EncryptionRatchet r'))"
proof -
  obtain n where n: "n \<le> u32_max" "r = head_at cr s0 n" using assms(2) by auto
  show ?thesis
  proof (cases "n = u32_max")
    case True
    then show ?thesis using assms n by (auto simp: ratchet_forward_head answer_law_def)
  next
    case False
    then have S: "Suc n \<le> u32_max" using n(1) by simp
    have r: "a = Inr (of_nat n, key_at cr s0 n)" "r' = head_at cr s0 (Suc n)"
      using assms(3) False by (simp_all add: ratchet_forward_head [OF assms(1) n(1)] n(2))
    have le: "unat (of_nat n :: u32) = n" "unat (of_nat (Suc n) :: u32) = Suc n"
      by (rule u32_max_word [OF n(1)], rule u32_max_word [OF S])
    have "{g. of_nat (Suc n) \<le> g} \<subseteq> {g. (of_nat n :: u32) \<le> g} - {of_nat n}"
      unfolding word_le_nat_alt le by (auto simp: le)
    then show ?thesis using S le(1) r n(2) by (auto simp: head_at_def answer_law_def simp del: of_nat_Suc)
  qed
qed

lemma decrypt_step:
  assumes "ratchet_ok cr cfg s0 (DecryptionRatchetOf d)" and "secret_for_decryption cr cfg g d = (res, d')"
  shows "ratchet_ok cr cfg s0 (DecryptionRatchetOf d') \<and>
    answer_law (\<lambda>g. key_at cr s0 (unat g)) id (ratchet_open (DecryptionRatchetOf d)) (map_sum id (Pair g) res)
      (ratchet_open (DecryptionRatchetOf d'))"
proof -
  have "ratchet_healthy cr cfg s0 d" using assms(1) by simp
  from openings_step [OF this assms(2)] show ?thesis by (cases res) (auto simp: answer_law_def)
qed

lemma table_put_step:
  assumes "table_ok cr cfg h s f" and "ratchet_ok cr cfg (leaf_ratchet_secret cr h s (leaf_usize i) ty) r"
    and "answer_law key id (ratchet_open (f (leaf_usize i) ty)) a (ratchet_open r)"
  shows "table_ok cr cfg h s (table_put (leaf_usize i) ty r f) \<and>
    answer_law key (Pair (i, ty)) (table_open f) a (table_open (table_put (leaf_usize i) ty r f))"
proof -
  have "table_open (table_put (leaf_usize i) ty r f) \<subseteq> table_open f - {((i, ty), g) | g. g \<in> G}"
    if "ratchet_open r \<subseteq> ratchet_open (f (leaf_usize i) ty) - G" for G
    using that by (auto simp: table_open_def table_put_def split: if_splits)
  from this [of "{}"] this [of "{g}" for g]
  have "answer_law key (Pair (i, ty)) (table_open f) a (table_open (table_put (leaf_usize i) ty r f))"
    using assms(3) by (auto simp: answer_law_def table_open_def [of f] split: sum.splits)
  then show ?thesis using assms(1,2) by (auto simp: table_ok_def table_put_def)
qed

lemma table_step:
  assumes "kdf_total cr" and ok: "table_ok cr cfg h s f" and "table_request cr cfg n f q = (a, f')"
  shows "table_ok cr cfg h s f' \<and>
    answer_law (\<lambda>g. key_at cr (leaf_ratchet_secret cr h s (target_leaf q) (snd (target q))) (unat g)) (Pair (target q))
      (table_open f) a (table_open f')"
proof -
  obtain i ty where q: "target q = (i, ty)" by fastforce
  let ?l = "leaf_usize i" and ?s = "leaf_ratchet_secret cr h s (leaf_usize i) ty"
  have r: "ratchet_ok cr cfg ?s (f ?l ty)" using ok by (simp add: table_ok_def)
  have refused: ?thesis if "f' = f \<and> (\<exists>e. a = Inl e)" using ok that by (auto simp: answer_law_def)
  show ?thesis
  proof (cases q)
    case (Encrypt i' ty')
    then have i: "q = Encrypt i ty" using q by simp
    show ?thesis
    proof (cases "n \<le> ?l \<or> (\<exists>d. f ?l ty = DecryptionRatchetOf d)")
      case True
      then show ?thesis using refused assms(3) i by (auto split: if_splits)
    next
      case False
      then obtain r0 where r0: "f ?l ty = EncryptionRatchet r0" by (cases "f ?l ty") auto
      obtain r1 where r1: "ratchet_forward cr r0 = (a, r1)" "f' = table_put ?l ty (EncryptionRatchet r1) f"
        using assms(3) i False r0 by (auto split: prod.splits)
      show ?thesis
        using forward_step [OF assms(1) r [unfolded r0] r1(1)] table_put_step [OF ok] unfolding r1(2) q r0 [symmetric] fst_conv snd_conv by blast
    qed
  next
    case (Decrypt i' ty' g)
    then have i: "q = Decrypt i ty g" using q by simp
    show ?thesis
    proof (cases "n \<le> ?l \<or> (\<exists>r. f ?l ty = EncryptionRatchet r)")
      case True
      then show ?thesis using refused assms(3) i by (auto split: if_splits)
    next
      case False
      then obtain d where d: "f ?l ty = DecryptionRatchetOf d" by (cases "f ?l ty") auto
      obtain res d1 where d1: "secret_for_decryption cr cfg g d = (res, d1)" by (metis surj_pair)
      then have a: "a = map_sum id (Pair g) res" "f' = table_put ?l ty (DecryptionRatchetOf d1) f"
        using assms(3) i False d by auto
      show ?thesis
        using decrypt_step [OF r [unfolded d] d1] table_put_step [OF ok] unfolding a q d [symmetric] fst_conv snd_conv by blast
    qed
  qed
qed

definition handed_out :: "(tree_request \<times> u32 \<times> RatchetKeyMaterial) list \<Rightarrow> ((LeafNodeIndex \<times> SecretType) \<times> u32) list" where
  "handed_out = map (\<lambda>(q, g, k). (target q, g))"

lemma table_keys_once:
  assumes "kdf_total cr"
  shows "table_ok cr cfg h s f \<Longrightarrow> serve_all (table_request cr cfg n) f qs = (rs, f') \<Longrightarrow>
    distinct (handed_out (served rs)) \<and> set (handed_out (served rs)) \<subseteq> table_open f \<and>
    (\<forall>(q, g, k) \<in> set (served rs). k = key_at cr (leaf_ratchet_secret cr h s (target_leaf q) (snd (target q))) (unat g))"
proof (induction qs arbitrary: f rs)
  case Nil
  then show ?case by (simp add: handed_out_def)
next
  case (Cons q qs)
  obtain a f1 where q: "table_request cr cfg n f q = (a, f1)" by (metis surj_pair)
  obtain rs1 where rs1: "serve_all (table_request cr cfg n) f1 qs = (rs1, f')" "rs = (q, a) # rs1"
    using Cons.prems(2) q by (auto simp: apfst_def map_prod_def split: prod.splits)
  note st = table_step [OF assms Cons.prems(1) q]
  have IH: "distinct (handed_out (served rs1))" "set (handed_out (served rs1)) \<subseteq> table_open f1"
    "\<forall>(q, g, k) \<in> set (served rs1). k = key_at cr (leaf_ratchet_secret cr h s (target_leaf q) (snd (target q))) (unat g)"
    using Cons.IH [OF _ rs1(1)] st by auto
  show ?case
  proof (cases a)
    case (Inl e)
    then show ?thesis using IH st rs1(2) by (auto simp: answer_law_def)
  next
    case (Inr gk)
    obtain g k where gk: "gk = (g, k)" by (metis surj_pair)
    have "table_open f1 \<subseteq> table_open f - {(target q, g)}" "(target q, g) \<in> table_open f"
      "k = key_at cr (leaf_ratchet_secret cr h s (target_leaf q) (snd (target q))) (unat g)"
      using st Inr gk by (auto simp: answer_law_def)
    moreover have "handed_out (served rs) = (target q, g) # handed_out (served rs1)"
      using rs1(2) Inr gk by (simp add: handed_out_def)
    ultimately show ?thesis using IH rs1(2) Inr gk by auto
  qed
qed

lemma first_table_ok:
  assumes "kdf_total cr" and "unat (out_of_order_tolerance cfg) < 2 ^ 31"
  shows "table_ok cr cfg h s (first_ratchet cr h s own)"
proof -
  have "\<exists>n \<le> u32_max. initial_ratchet_secret x = head_at cr x n" for x
    by (intro exI [of _ 0]) (simp add: initial_ratchet_secret_def head_at_def)
  moreover have "ratchet_healthy cr cfg x (decryption_ratchet_new x)" for x
    unfolding ratchet_healthy_def using assms window_rel_new by blast
  ultimately show ?thesis by (simp add: table_ok_def first_ratchet_def)
qed

lemma run_keys:
  assumes "kdf_total cr" and "unat (out_of_order_tolerance cfg) < 2 ^ 31" and "own < 2 ^ h" and "h \<le> 30"
    and "tree_requests cr cfg qs (secret_tree_new s (size_of h) (leafi own)) = Some (rs, t)"
  shows "distinct (handed_out (served rs))"
    and "(q, g, k) \<in> set (served rs) \<Longrightarrow> k = key_at cr (leaf_ratchet_secret cr h s (target_leaf q) (snd (target q))) (unat g)"
proof -
  obtain rs' f' where f: "serve_all (table_request cr cfg (2 ^ h)) (first_ratchet cr h s own) qs = (rs', f')" by (metis surj_pair)
  then have "rs' = rs" using run_rel(1) [OF assms(1,3,4,5)] by simp
  with table_keys_once [OF assms(1) first_table_ok [OF assms(1,2)] f]
  show "distinct (handed_out (served rs))"
    "(q, g, k) \<in> set (served rs) \<Longrightarrow> k = key_at cr (leaf_ratchet_secret cr h s (target_leaf q) (snd (target q))) (unat g)" by auto
qed

text \<open>
  (C16) No key of an epoch is used twice by a member: in any sequence of encryption and decryption requests to a secret tree,
  the answered requests are for pairwise different triples of leaf, kind of secret and generation.
\<close>

theorem tree_keys_once:
  assumes "kdf_total cr" and "unat (out_of_order_tolerance cfg) < 2 ^ 31" and "own < 2 ^ h" and "h \<le> 30"
    and "tree_requests cr cfg qs (secret_tree_new s (size_of h) (leafi own)) = Some (rs, t)"
  shows "distinct (handed_out (served rs))"
  by (rule run_keys(1) [OF assms])

theorem tree_keys_once_witness:
  "\<exists>rs t. tree_requests demo_kdf sender_ratchet_configuration_default
       [Decrypt (leafi 2) ApplicationSecret 3, Encrypt (leafi 1) HandshakeSecret, Decrypt (leafi 2) ApplicationSecret 3]
       (secret_tree_new [7] (size_of 2) (leafi 1)) = Some (rs, t) \<and> distinct (handed_out (served rs))"
proof -
  let ?qs = "[Decrypt (leafi 2) ApplicationSecret 3, Encrypt (leafi 1) HandshakeSecret, Decrypt (leafi 2) ApplicationSecret 3]"
  obtain t rs where
    run: "tree_requests demo_kdf sender_ratchet_configuration_default ?qs (secret_tree_new [7] (size_of 2) (leafi 1)) = Some (rs, t)"
    by (rule run_returns [OF demo_kdf_total, of 1 2 sender_ratchet_configuration_default ?qs "[7]"]) (simp, simp, blast)
  have "distinct (handed_out (served rs))"
    by (rule tree_keys_once [OF demo_kdf_total _ _ _ run]) (simp_all add: sender_ratchet_configuration_default_def)
  with run show ?thesis by blast
qed

text \<open>
  (C15) Sender and receivers agree on every key of an epoch: two members that start from the same encryption secret and then make
  any requests of their own, in any order, are handed the same key and nonce for the same leaf, kind of secret
  and generation; in particular what one member encrypts with is what another decrypts with.
\<close>

theorem tree_members_agree:
  assumes "kdf_total cr" and "unat (out_of_order_tolerance cfg) < 2 ^ 31" and "h \<le> 30" and "a < 2 ^ h" and "b < 2 ^ h"
    and "tree_requests cr cfg qs (secret_tree_new s (size_of h) (leafi a)) = Some (rs, t)"
    and "tree_requests cr cfg qs' (secret_tree_new s (size_of h) (leafi b)) = Some (rs', t')"
    and "(q, g, k) \<in> set (served rs)" and "(q', g, k') \<in> set (served rs')" and "target q = target q'"
  shows "k = k'"
  using run_keys(2) [OF assms(1,2,4,3,6,8)] run_keys(2) [OF assms(1,2,5,3,7,9)] assms(10) by simp

theorem tree_members_agree_witness:
  "\<exists>k. (\<exists>t. tree_requests demo_kdf sender_ratchet_configuration_default [Encrypt (leafi 1) ApplicationSecret]
           (secret_tree_new [7] (size_of 2) (leafi 1)) = Some ([(Encrypt (leafi 1) ApplicationSecret, Inr (0, k))], t)) \<and>
       (\<exists>t. tree_requests demo_kdf sender_ratchet_configuration_default [Decrypt (leafi 1) ApplicationSecret 0]
           (secret_tree_new [7] (size_of 2) (leafi 3)) = Some ([(Decrypt (leafi 1) ApplicationSecret 0, Inr (0, k))], t))"
proof -
  let ?cfg = sender_ratchet_configuration_default
  let ?e = "Encrypt (leafi 1) ApplicationSecret" and ?d = "Decrypt (leafi 1) ApplicationSecret 0"
  let ?s = "leaf_ratchet_secret demo_kdf 2 [7] 1 ApplicationSecret"
  obtain t rs where run: "tree_requests demo_kdf ?cfg [?e] (secret_tree_new [7] (size_of 2) (leafi 1)) = Some (rs, t)"
    by (rule run_returns [OF demo_kdf_total, of 1 2 ?cfg "[?e]" "[7]"]) (simp, simp, blast)
  obtain t' rs' where run': "tree_requests demo_kdf ?cfg [?d] (secret_tree_new [7] (size_of 2) (leafi 3)) = Some (rs', t')"
    by (rule run_returns [OF demo_kdf_total, of 3 2 ?cfg "[?d]" "[7]"]) (simp, simp, blast)
  have tol: "unat (out_of_order_tolerance ?cfg) < 2 ^ 31" by (simp add: sender_ratchet_configuration_default_def)
  have z: "initial_ratchet_secret x = head_at demo_kdf x 0" for x by (simp add: initial_ratchet_secret_def head_at_def)
  have e: "rs = [(?e, Inr (0, key_at demo_kdf ?s 0))]"
    using run_rel(1) [OF demo_kdf_total _ _ run]
    by (simp add: first_ratchet_def ratchet_forward_head [OF demo_kdf_total] u32_max_def z)
  have "\<exists>k'. fst (secret_for_decryption demo_kdf ?cfg 0 (decryption_ratchet_new ?s)) = Inr k'"
    using ratchet_forward_head [OF demo_kdf_total, of 0 ?s]
    by (simp add: secret_for_decryption_def decryption_ratchet_new_def z sender_ratchet_configuration_default_def head_at_def u32_max_def
        prune_past_secrets_def split: prod.splits)
  then obtain k' where d: "rs' = [(?d, Inr (0, k'))]"
    using run_rel(1) [OF demo_kdf_total _ _ run'] by (auto simp: first_ratchet_def split: prod.splits)
  have "key_at demo_kdf ?s 0 = k'"
    by (rule tree_members_agree [OF demo_kdf_total tol _ _ _ run run', of ?e 0 _ ?d]) (simp_all add: e d)
  then show ?thesis using run run' e d by blast
qed

subsection \<open>Which generations a member can still ask for\<close>

definition current_generation :: "SecretTree \<Rightarrow> LeafNodeIndex \<Rightarrow> SecretType \<Rightarrow> u32" where
  "current_generation t index secret_type =
     (case ratchet_opt t index secret_type of
        Inr (Some (EncryptionRatchet r)) \<Rightarrow> rs_generation r
      | Inr (Some (DecryptionRatchetOf d)) \<Rightarrow> dr_generation d
      | _ \<Rightarrow> 0)"

text \<open>The decryption ratchets of the others are windows over the generations handed out.\<close>

definition windows :: "kdf \<Rightarrow> SenderRatchetConfiguration \<Rightarrow> nat \<Rightarrow> bytes \<Rightarrow> nat
    \<Rightarrow> ((LeafNodeIndex \<times> SecretType) \<times> u32) set \<Rightarrow> table \<Rightarrow> bool" where
  "windows cr cfg h s own U f \<longleftrightarrow> (\<forall>i ty. leaf_usize i \<noteq> own \<longrightarrow> (\<exists>d n. f (leaf_usize i) ty = DecryptionRatchetOf d \<and>
     window_rel cr (leaf_ratchet_secret cr h s (leaf_usize i) ty) (unat (out_of_order_tolerance cfg)) d (n, unat ` {g. ((i, ty), g) \<in> U})))"

abbreviation answered :: "tree_request \<Rightarrow> tree_answer \<Rightarrow> ((LeafNodeIndex \<times> SecretType) \<times> u32) set" where
  "answered q a \<equiv> (case a of Inl _ \<Rightarrow> {} | Inr (g, k) \<Rightarrow> {(target q, g)})"

lemma windows_put:
  assumes "windows cr cfg h s own U f"
    and "leaf_usize i \<noteq> own \<Longrightarrow> \<exists>d n. r = DecryptionRatchetOf d \<and>
      window_rel cr (leaf_ratchet_secret cr h s (leaf_usize i) ty) (unat (out_of_order_tolerance cfg)) d
        (n, unat ` ({g. ((i, ty), g) \<in> U} \<union> G))"
  shows "windows cr cfg h s own (U \<union> {((i, ty), g) | g. g \<in> G}) (table_put (leaf_usize i) ty r f)"
  unfolding windows_def
proof (intro allI impI)
  fix i' ty'
  assume own: "leaf_usize i' \<noteq> own"
  show "\<exists>d n. table_put (leaf_usize i) ty r f (leaf_usize i') ty' = DecryptionRatchetOf d \<and>
    window_rel cr (leaf_ratchet_secret cr h s (leaf_usize i') ty') (unat (out_of_order_tolerance cfg)) d
      (n, unat ` {g. ((i', ty'), g) \<in> U \<union> {((i, ty), g) | g. g \<in> G}})"
  proof (cases "i' = i \<and> ty' = ty")
    case True
    moreover have "{g. ((i, ty), g) \<in> U \<union> {((i, ty), g) | g. g \<in> G}} = {g. ((i, ty), g) \<in> U} \<union> G" by auto
    ultimately show ?thesis using assms(2) own by (simp add: table_put_def)
  next
    case False
    then have "{g. ((i', ty'), g) \<in> U \<union> {((i, ty), g) | g. g \<in> G}} = {g. ((i', ty'), g) \<in> U}" by auto
    moreover have "table_put (leaf_usize i) ty r f (leaf_usize i') ty' = f (leaf_usize i') ty'"
      using False leaf_usize_inj [of i' i] by (auto simp: table_put_def)
    ultimately show ?thesis using assms(1) own unfolding windows_def by simp
  qed
qed

lemma windows_step:
  assumes "kdf_total cr" and tol: "unat (out_of_order_tolerance cfg) < 2 ^ 31"
    and w: "windows cr cfg h s own U f" and "table_request cr cfg n f q = (a, f')"
  shows "windows cr cfg h s own (U \<union> answered q a) f'"
proof (cases q)
  case (Encrypt i ty)
  show ?thesis
  proof (cases "n \<le> leaf_usize i \<or> (\<exists>d. f (leaf_usize i) ty = DecryptionRatchetOf d)")
    case True
    then have "f' = f \<and> (\<exists>e. a = Inl e)" using assms(4) Encrypt by (auto split: if_splits)
    then show ?thesis using w by auto
  next
    case False
    then obtain r where r: "f (leaf_usize i) ty = EncryptionRatchet r" by (cases "f (leaf_usize i) ty") auto
    then have "leaf_usize i = own" using w unfolding windows_def by (metis SenderRatchet.distinct(1))
    moreover obtain r1 where "f' = table_put (leaf_usize i) ty (EncryptionRatchet r1) f"
      using assms(4) Encrypt False r by (auto split: prod.splits)
    moreover have "answered q a = {((i, ty), g) | g. g \<in> (case a of Inl _ \<Rightarrow> {} | Inr (g, k) \<Rightarrow> {g})}"
      using Encrypt by (auto split: sum.splits)
    ultimately show ?thesis
      using windows_put [OF w, of i "EncryptionRatchet r1" ty "case a of Inl _ \<Rightarrow> {} | Inr (g, k) \<Rightarrow> {g}"] by metis
  qed
next
  case (Decrypt i ty g)
  show ?thesis
  proof (cases "n \<le> leaf_usize i \<or> (\<exists>r. f (leaf_usize i) ty = EncryptionRatchet r)")
    case True
    then have "f' = f \<and> (\<exists>e. a = Inl e)" using assms(4) Decrypt by (auto split: if_splits)
    then show ?thesis using w by auto
  next
    case False
    then obtain d where d: "f (leaf_usize i) ty = DecryptionRatchetOf d" by (cases "f (leaf_usize i) ty") auto
    obtain res d1 where d1: "secret_for_decryption cr cfg g d = (res, d1)" by (metis surj_pair)
    let ?G = "case res of Inl _ \<Rightarrow> {} | Inr _ \<Rightarrow> {g}" and ?s = "leaf_ratchet_secret cr h s (leaf_usize i) ty"
    let ?tol = "unat (out_of_order_tolerance cfg)"
    have f': "f' = table_put (leaf_usize i) ty (DecryptionRatchetOf d1) f" "a = map_sum id (Pair g) res"
      using assms(4) Decrypt False d d1 by auto
    have ans: "answered q a = {((i, ty), g') | g'. g' \<in> ?G}" using Decrypt f'(2) by (cases res) auto
    have "\<exists>n. window_rel cr ?s ?tol d1 (n, unat ` ({g. ((i, ty), g) \<in> U} \<union> ?G))" if own: "leaf_usize i \<noteq> own"
    proof -
      let ?U = "unat ` {g. ((i, ty), g) \<in> U}"
      obtain m where rel: "window_rel cr ?s ?tol d (m, ?U)" using w own d unfolding windows_def by (metis SenderRatchet.inject(2))
      obtain x m' U' where req: "window_request ?tol (unat (maximum_forward_distance cfg)) (m, ?U) (unat g) = (x, (m', U'))"
        by (metis surj_pair)
      have r: "answer_rel cr ?s res x" "window_rel cr ?s ?tol d1 (m', U')"
        using request_refines [OF assms(1) tol rel, of g] d1 req by simp_all
      have "U' = unat ` ({g. ((i, ty), g) \<in> U} \<union> ?G)"
        using window_request_cases [OF req] r(1) by (cases res; cases x) auto
      then show ?thesis using r(2) by blast
    qed
    then show ?thesis unfolding f'(1) ans using windows_put [OF w, of i "DecryptionRatchetOf d1" ty ?G] by blast
  qed
qed

lemma windows_run:
  assumes "kdf_total cr" and "unat (out_of_order_tolerance cfg) < 2 ^ 31"
  shows "windows cr cfg h s own U f \<Longrightarrow> serve_all (table_request cr cfg n) f qs = (rs, f') \<Longrightarrow>
    windows cr cfg h s own (U \<union> set (handed_out (served rs))) f'"
proof (induction qs arbitrary: U f rs)
  case Nil
  then show ?case by (simp add: handed_out_def)
next
  case (Cons q qs)
  obtain a f1 where q: "table_request cr cfg n f q = (a, f1)" by (metis surj_pair)
  obtain rs1 where rs1: "serve_all (table_request cr cfg n) f1 qs = (rs1, f')" "rs = (q, a) # rs1"
    using Cons.prems(2) q by (auto simp: apfst_def map_prod_def split: prod.splits)
  have "set (handed_out (served rs)) = answered q a \<union> set (handed_out (served rs1))"
    using rs1(2) by (cases a) (auto simp: handed_out_def)
  then show ?case using Cons.IH [OF windows_step [OF assms Cons.prems(1) q] rs1(1)] by (simp add: Un_assoc)
qed

lemma windows_new: "windows cr cfg h s own {} (first_ratchet cr h s own)"
  using window_rel_new by (fastforce simp: windows_def first_ratchet_def)

text \<open>
  A generation of another member that has not been handed out and that the window of the member's ratchet covers is
  answered with its key.
\<close>

lemma available_in_tree:
  assumes "kdf_total cr" and tol: "unat (out_of_order_tolerance cfg) < 2 ^ 31" and "own < 2 ^ h" and "h \<le> 30"
    and run: "tree_requests cr cfg qs (secret_tree_new s (size_of h) (leafi own)) = Some (rs, t)"
    and l: "l < 2 ^ h" "l \<noteq> own" and "((leafi l, ty), g) \<notin> set (handed_out (served rs))" and "g \<noteq> - 1"
    and "unat (current_generation t (leafi l) ty) \<le> unat g + unat (out_of_order_tolerance cfg)"
    and "unat g \<le> unat (current_generation t (leafi l) ty) + unat (maximum_forward_distance cfg)"
  shows "\<exists>t'. tree_secret_for_decryption cr cfg (leafi l) ty g t = Some (Inr (key_at cr (leaf_ratchet_secret cr h s l ty) (unat g)), t')"
proof -
  let ?s = "leaf_ratchet_secret cr h s l ty" and ?tol = "unat (out_of_order_tolerance cfg)"
  note us = leaf_usize_leafi [OF l(1) assms(4)]
  obtain rs' f where f: "serve_all (table_request cr cfg (2 ^ h)) (first_ratchet cr h s own) qs = (rs', f)" by (metis surj_pair)
  then have rel: "table_rel cr h s own t f" and "rs' = rs"
    using tree_requests_refine [OF assms(1,3,4) new_tree_rel [OF assms(4)], of cfg qs s] run by auto
  with windows_run [OF assms(1,2) windows_new f] have "windows cr cfg h s own (set (handed_out (served rs))) f" by simp
  then obtain d n where d: "f l ty = DecryptionRatchetOf d"
    and w: "window_rel cr ?s ?tol d (n, unat ` {g. ((leafi l, ty), g) \<in> set (handed_out (served rs))})"
    using us l(2) unfolding windows_def by metis
  have n: "n \<le> u32_max" and gen: "dr_generation d = of_nat n" using w by (auto simp: window_rel_def head_at_def)
  have cur: "unat (current_generation t (leafi l) ty) = n"
  proof -
    have "length (ratchets ty t) = 2 ^ h" using rel by (auto simp: table_rel_def tree_ok_def shape_def)
    then have "current_generation t (leafi l) ty = dr_generation d"
      using rel l d by (cases "ratchets ty t ! l")
        (auto simp: current_generation_def ratchet_opt_def get_at_def us table_rel_def first_ratchet_def decryption_ratchet_new_def
          initial_ratchet_secret_def simp del: leaf_usize.simps ratchets.simps)
    then show ?thesis by (simp add: gen u32_max_word [OF n])
  qed
  have "unat g < 2 ^ 32" using unsigned_less [of g] by simp
  then have gm: "unat g < u32_max" using assms(9) u32_max_top [of "unat g"] by (auto simp: u32_max_def)
  have "unat g \<notin> unat ` {g. ((leafi l, ty), g) \<in> set (handed_out (served rs))}"
    using assms(8) by (simp add: inj_image_mem_iff [OF inj_unsigned])
  then have "fst (window_request ?tol (unat (maximum_forward_distance cfg)) (n, unat ` {g. ((leafi l, ty), g) \<in> set (handed_out (served rs))}) (unat g)) =
      Inr (unat g)"
    using assms(10,11) gm unfolding cur by auto
  then have "answer_rel cr ?s (fst (secret_for_decryption cr cfg g d)) (Inr (unat g))"
    using request_refines [OF assms(1) tol w, of g] by simp
  then have "fst (secret_for_decryption cr cfg g d) = Inr (key_at cr ?s (unat g))"
    by (cases "fst (secret_for_decryption cr cfg g d)") auto
  then have "fst (table_request cr cfg (2 ^ h) f (Decrypt (leafi l) ty g)) = Inr (g, key_at cr ?s (unat g))"
    using d l(1) us by (auto simp del: leaf_usize.simps split: prod.splits)
  with answer_request_refines [OF assms(1) rel assms(3,4), of cfg "Decrypt (leafi l) ty g"]
  obtain t' where "map_option (apfst (map_sum id (Pair g))) (tree_secret_for_decryption cr cfg (leafi l) ty g t) = Some (Inr (g, key_at cr ?s (unat g)), t')"
    by auto
  moreover have "x = Inr k" if "map_sum id (Pair g) x = Inr (g, k)" for x :: "SecretTreeError + RatchetKeyMaterial" and k
    using that by (cases x) auto
  ultimately show ?thesis by fastforce
qed

end
