(* ===== verification/Past_Secrets.thy ===== *)
theory Past_Secrets
  imports Secret_Tree
begin

text \<open>
  The message secrets of an epoch (\<^verbatim>\<open>openmls/src/schedule/message_secrets.rs\<close>), the store of the last
  epochs' secrets (\<^verbatim>\<open>openmls/src/group/mls_group/past_secrets.rs\<close>) and how a group looks them up and
  replaces them when a commit is merged (\<^verbatim>\<open>mls_group/mod.rs\<close>, \<^verbatim>\<open>mls_group/staged_commit.rs\<close>). A
  \<^verbatim>\<open>&mut\<close> reference that an accessor returns is used by its caller once: the accessor takes that use, a
  function from the secrets to a result and the secrets it leaves behind. A panic is \<open>None\<close>.
\<close>

section \<open>The store\<close>

record MessageSecrets =
  sender_data_secret :: bytes
  membership_key :: bytes
  confirmation_key :: bytes
  serialized_context :: bytes
  secret_tree :: SecretTree

record Member =
  member_index :: LeafNodeIndex
  member_credential :: "16 word \<times> bytes"
  member_encryption_key :: bytes
  member_signature_key :: bytes

record EpochTree =
  et_epoch :: u64
  et_message_secrets :: MessageSecrets
  et_leaves :: "Member list"

record MessageSecretsStore =
  max_epochs :: nat
  past_epoch_trees :: "EpochTree list"
  current_message_secrets :: MessageSecrets

definition new_with_secret :: "nat \<Rightarrow> MessageSecrets \<Rightarrow> MessageSecretsStore" where
  "new_with_secret n ms = \<lparr>max_epochs = n, past_epoch_trees = [], current_message_secrets = ms\<rparr>"

text \<open>\<^verbatim>\<open>VecDeque::rotate_left\<close>, which panics when asked to rotate by more than the length.\<close>

definition rotate_left :: "nat \<Rightarrow> 'a list \<Rightarrow> 'a list option" where
  "rotate_left k xs = (if k \<le> length xs then Some (drop k xs @ take k xs) else None)"

definition resize :: "nat \<Rightarrow> MessageSecretsStore \<Rightarrow> MessageSecretsStore option" where
  "resize max_past_epochs st =
     (let old_size = max_epochs st; st1 = st\<lparr>max_epochs := max_past_epochs\<rparr>
      in if max_past_epochs < old_size then
           map_option (\<lambda>ts. st1\<lparr>past_epoch_trees := take max_past_epochs ts\<rparr>)
             (rotate_left (old_size - max_past_epochs) (past_epoch_trees st))
         else Some st1)"

definition store_add :: "u64 \<Rightarrow> MessageSecrets \<Rightarrow> Member list \<Rightarrow> MessageSecretsStore \<Rightarrow> MessageSecretsStore option" where
  "store_add group_epoch ms leaves st =
     (if max_epochs st = 0 then Some st
      else map_option
        (\<lambda>ts. st\<lparr>past_epoch_trees := ts @ [\<lparr>et_epoch = group_epoch, et_message_secrets = ms, et_leaves = leaves\<rparr>]\<rparr>)
        (if max_epochs st \<le> length (past_epoch_trees st)
         then map_option (take (max_epochs st - 1)) (rotate_left 1 (past_epoch_trees st))
         else Some (past_epoch_trees st)))"

text \<open>The loops over the stored epochs: the first one with the requested number.\<close>

fun find_epoch :: "u64 \<Rightarrow> EpochTree list \<Rightarrow> EpochTree option" where
  "find_epoch e [] = None"
| "find_epoch e (t # ts) = (if et_epoch t = e then Some t else find_epoch e ts)"

fun use_epoch :: "u64 \<Rightarrow> (MessageSecrets \<Rightarrow> Member list \<Rightarrow> 'a \<times> MessageSecrets) \<Rightarrow> EpochTree list \<Rightarrow> 'a option \<times> EpochTree list" where
  "use_epoch e f [] = (None, [])"
| "use_epoch e f (t # ts) =
     (if et_epoch t = e
      then case f (et_message_secrets t) (et_leaves t) of (a, ms) \<Rightarrow> (Some a, t\<lparr>et_message_secrets := ms\<rparr> # ts)
      else apsnd (Cons t) (use_epoch e f ts))"

definition secrets_for_epoch :: "u64 \<Rightarrow> MessageSecretsStore \<Rightarrow> MessageSecrets option" where
  "secrets_for_epoch e st = map_option et_message_secrets (find_epoch e (past_epoch_trees st))"

definition secrets_and_leaves_for_epoch_mut ::
  "u64 \<Rightarrow> (MessageSecrets \<Rightarrow> Member list \<Rightarrow> 'a \<times> MessageSecrets) \<Rightarrow> MessageSecretsStore \<Rightarrow> 'a option \<times> MessageSecretsStore" where
  "secrets_and_leaves_for_epoch_mut e f st =
     apsnd (\<lambda>ts. st\<lparr>past_epoch_trees := ts\<rparr>) (use_epoch e f (past_epoch_trees st))"

definition secrets_for_epoch_mut ::
  "u64 \<Rightarrow> (MessageSecrets \<Rightarrow> 'a \<times> MessageSecrets) \<Rightarrow> MessageSecretsStore \<Rightarrow> 'a option \<times> MessageSecretsStore" where
  "secrets_for_epoch_mut e f st =
     apsnd (\<lambda>ts. st\<lparr>past_epoch_trees := ts\<rparr>) (use_epoch e (\<lambda>ms _. f ms) (past_epoch_trees st))"

definition leaves_for_epoch :: "u64 \<Rightarrow> MessageSecretsStore \<Rightarrow> (LeafNodeIndex \<rightharpoonup> Member)" where
  "leaves_for_epoch e st =
     (case find_epoch e (past_epoch_trees st) of
        Some t \<Rightarrow> fold (\<lambda>m f. f(member_index m \<mapsto> m)) (et_leaves t) Map.empty
      | None \<Rightarrow> Map.empty)"

definition epoch_has_leaf :: "u64 \<Rightarrow> LeafNodeIndex \<Rightarrow> MessageSecretsStore \<Rightarrow> bool" where
  "epoch_has_leaf e i st =
     list_ex (\<lambda>t. et_epoch t = e \<and> list_ex (\<lambda>m. member_index m = i) (et_leaves t)) (past_epoch_trees st)"

definition store_message_secrets_mut ::
  "(MessageSecrets \<Rightarrow> 'a \<times> MessageSecrets) \<Rightarrow> MessageSecretsStore \<Rightarrow> 'a \<times> MessageSecretsStore" where
  "store_message_secrets_mut f st =
     (case f (current_message_secrets st) of (a, ms) \<Rightarrow> (a, st\<lparr>current_message_secrets := ms\<rparr>))"

section \<open>The group\<close>

text \<open>The part of a group that the message secrets depend on.\<close>

record group_secrets =
  context_epoch :: u64
  message_secrets_store :: MessageSecretsStore

abbreviation with_store :: "group_secrets \<Rightarrow> 'a \<times> MessageSecretsStore \<Rightarrow> 'a \<times> group_secrets" where
  "with_store g \<equiv> apsnd (\<lambda>st. g\<lparr>message_secrets_store := st\<rparr>)"

definition too_distant :: "'a option \<Rightarrow> SecretTreeError + 'a" where
  "too_distant x = (case x of Some a \<Rightarrow> Inr a | None \<Rightarrow> Inl TooDistantInThePast)"

definition message_secrets_mut ::
  "u64 \<Rightarrow> (MessageSecrets \<Rightarrow> 'a \<times> MessageSecrets) \<Rightarrow> group_secrets \<Rightarrow> (SecretTreeError + 'a) \<times> group_secrets" where
  "message_secrets_mut epoch f g =
     (if epoch < context_epoch g
      then with_store g (apfst too_distant (secrets_for_epoch_mut epoch f (message_secrets_store g)))
      else with_store g (apfst Inr (store_message_secrets_mut f (message_secrets_store g))))"

definition message_secrets_for_epoch :: "u64 \<Rightarrow> group_secrets \<Rightarrow> SecretTreeError + MessageSecrets" where
  "message_secrets_for_epoch epoch g =
     (if epoch < context_epoch g then too_distant (secrets_for_epoch epoch (message_secrets_store g))
      else Inr (current_message_secrets (message_secrets_store g)))"

definition message_secrets_and_leaves_mut ::
  "u64 \<Rightarrow> (MessageSecrets \<Rightarrow> Member list \<Rightarrow> 'a \<times> MessageSecrets) \<Rightarrow> group_secrets \<Rightarrow> (SecretTreeError + 'a) \<times> group_secrets" where
  "message_secrets_and_leaves_mut epoch f g =
     (if epoch < context_epoch g
      then with_store g (apfst too_distant (secrets_and_leaves_for_epoch_mut epoch f (message_secrets_store g)))
      else with_store g (apfst Inr (store_message_secrets_mut (\<lambda>ms. f ms []) (message_secrets_store g))))"

text \<open>
  What merging a commit does to the message secrets: the ones of the staged commit become current, the
  previous ones go into the store under the old epoch with the members of that epoch.
\<close>

definition merge_message_secrets :: "MessageSecrets \<Rightarrow> Member list \<Rightarrow> group_secrets \<Rightarrow> group_secrets option" where
  "merge_message_secrets staged leaves g =
     (let past_epoch = context_epoch g;
          (previous, st) = store_message_secrets_mut (\<lambda>ms. (ms, staged)) (message_secrets_store g)
      in map_option (\<lambda>st. \<lparr>context_epoch = past_epoch + 1, message_secrets_store = st\<rparr>) (store_add past_epoch previous leaves st))"

section \<open>The reference: an archive with a window\<close>

text \<open>The archive forgets no epoch; an access is refused outside the window.\<close>

record archive =
  ar_first :: nat
  ar_past :: "(MessageSecrets \<times> Member list) list"
  ar_current :: MessageSecrets

abbreviation ar_epoch :: "archive \<Rightarrow> nat" where
  "ar_epoch a \<equiv> ar_first a + length (ar_past a)"

datatype 'q group_event = MergeCommit MessageSecrets "Member list" | UseSecrets u64 'q

fun group_event_step ::
  "('q \<Rightarrow> MessageSecrets \<Rightarrow> 'r \<times> MessageSecrets) \<Rightarrow> 'q group_event \<Rightarrow> group_secrets \<Rightarrow> ((SecretTreeError + 'r option) \<times> group_secrets) option" where
  "group_event_step ask (MergeCommit staged leaves) g = map_option (Pair (Inr None)) (merge_message_secrets staged leaves g)"
| "group_event_step ask (UseSecrets epoch q) g = Some (apfst (map_sum id Some) (message_secrets_mut epoch (ask q) g))"

abbreviation group_events ::
  "('q \<Rightarrow> MessageSecrets \<Rightarrow> 'r \<times> MessageSecrets) \<Rightarrow> 'q group_event list \<Rightarrow> group_secrets
     \<Rightarrow> (('q group_event \<times> (SecretTreeError + 'r option)) list \<times> group_secrets) option" where
  "group_events ask \<equiv> attempt_all (group_event_step ask)"

fun archive_step ::
  "('q \<Rightarrow> MessageSecrets \<Rightarrow> 'r \<times> MessageSecrets) \<Rightarrow> nat \<Rightarrow> archive \<Rightarrow> 'q group_event \<Rightarrow> (SecretTreeError + 'r option) \<times> archive" where
  "archive_step ask n a (MergeCommit staged leaves) =
     (Inr None, a\<lparr>ar_past := ar_past a @ [(ar_current a, leaves)], ar_current := staged\<rparr>)"
| "archive_step ask n a (UseSecrets epoch q) =
     (if ar_epoch a \<le> unat epoch then
        (case ask q (ar_current a) of (r, ms) \<Rightarrow> (Inr (Some r), a\<lparr>ar_current := ms\<rparr>))
      else if ar_first a \<le> unat epoch \<and> ar_epoch a - unat epoch \<le> n then
        (let i = unat epoch - ar_first a in case ask q (fst (ar_past a ! i)) of
           (r, ms) \<Rightarrow> (Inr (Some r), a\<lparr>ar_past := (ar_past a)[i := (ms, snd (ar_past a ! i))]\<rparr>))
      else (Inl TooDistantInThePast, a))"

definition archived :: "archive \<Rightarrow> nat \<Rightarrow> EpochTree" where
  "archived a i = \<lparr>et_epoch = of_nat (ar_first a + i), et_message_secrets = fst (ar_past a ! i), et_leaves = snd (ar_past a ! i)\<rparr>"

definition archive_rel :: "nat \<Rightarrow> group_secrets \<Rightarrow> archive \<Rightarrow> bool" where
  "archive_rel n g a \<longleftrightarrow> context_epoch g = of_nat (ar_epoch a) \<and> max_epochs (message_secrets_store g) = n \<and>
     current_message_secrets (message_secrets_store g) = ar_current a \<and>
     past_epoch_trees (message_secrets_store g) = map (archived a) [length (ar_past a) - n..<length (ar_past a)]"

lemma epoch_eq: "b + j < 2 ^ 64 \<Longrightarrow> (of_nat (b + j) :: u64) = e \<longleftrightarrow> b + j = unat e"
  by (auto simp: word_unat_eq_iff unat_of_nat take_bit_nat_eq_self simp del: of_nat_add)

lemma use_epoch_upt:
  assumes "\<And>j. et_epoch (t j) = of_nat (b + j)" and "b + hi < 2 ^ 64"
  shows "use_epoch e f (map t [lo..<hi]) =
    (if b + lo \<le> unat e \<and> unat e < b + hi
     then let i = unat e - b; (r, ms) = f (et_message_secrets (t i)) (et_leaves (t i))
          in (Some r, map (t(i := t i\<lparr>et_message_secrets := ms\<rparr>)) [lo..<hi])
     else (None, map t [lo..<hi]))"
proof (induction "hi - lo" arbitrary: lo)
  case 0
  then have "\<not> (b + lo \<le> unat e \<and> unat e < b + hi)" "[lo..<hi] = []" by auto
  then show ?case by (simp only: if_False list.map use_epoch.simps)
next
  case (Suc n)
  then have lo: "lo < hi" "n = hi - Suc lo" by simp_all
  then have cons: "[lo..<hi] = lo # [Suc lo..<hi]" by (simp add: upt_conv_Cons)
  have e: "et_epoch (t lo) = e \<longleftrightarrow> b + lo = unat e" using epoch_eq [of b lo e] lo assms by simp
  show ?case
  proof (cases "b + lo = unat e")
    case True
    then have "unat e - b = lo" by simp
    then show ?thesis using True e lo(1) by (simp add: cons Let_def split: prod.splits)
  next
    case False
    then have "b + lo \<le> unat e \<longleftrightarrow> b + Suc lo \<le> unat e" "unat e - b \<noteq> lo \<or> \<not> b + lo \<le> unat e" by auto
    then show ?thesis using False e Suc.hyps(1) [OF lo(2)] by (auto simp: cons Let_def split: prod.splits)
  qed
qed

lemma use_epoch_find:
  "fst (use_epoch e f ts) = map_option (\<lambda>t. fst (f (et_message_secrets t) (et_leaves t))) (find_epoch e ts)"
  by (induction ts) (auto split: prod.splits)

text \<open>Reading the secrets of an epoch sees what a use of them would be given.\<close>

lemma message_secrets_for_epoch_reads:
  "message_secrets_for_epoch e g = fst (message_secrets_mut e (\<lambda>ms. (ms, ms)) g)"
  by (simp add: message_secrets_for_epoch_def message_secrets_mut_def secrets_for_epoch_def secrets_for_epoch_mut_def
      use_epoch_find store_message_secrets_mut_def)

lemma message_secrets_and_leaves_reads:
  "fst (message_secrets_and_leaves_mut e (\<lambda>ms _. f ms) g) = fst (message_secrets_mut e f g)"
  by (simp add: message_secrets_and_leaves_mut_def message_secrets_mut_def secrets_and_leaves_for_epoch_mut_def
      secrets_for_epoch_mut_def use_epoch_find)

lemma members_of_epoch: "dom (fold (\<lambda>m f. f(member_index m \<mapsto> m)) ms f) = dom f \<union> member_index ` set ms"
  by (induction ms arbitrary: f) auto

lemma epoch_has_leaf_dom:
  assumes "distinct (map et_epoch (past_epoch_trees st))"
  shows "epoch_has_leaf e i st \<longleftrightarrow> i \<in> dom (leaves_for_epoch e st)"
proof -
  have "list_ex (\<lambda>t. et_epoch t = e \<and> list_ex (\<lambda>m. member_index m = i) (et_leaves t)) ts \<longleftrightarrow>
      i \<in> dom (case find_epoch e ts of Some t \<Rightarrow> fold (\<lambda>m f. f(member_index m \<mapsto> m)) (et_leaves t) Map.empty | None \<Rightarrow> Map.empty)"
    if "distinct (map et_epoch ts)" for ts
    using that
  proof (induction ts)
    case (Cons t ts)
    show ?case
    proof (cases "et_epoch t = e")
      case True
      then have "e \<notin> et_epoch ` set ts" using Cons.prems by auto
      then have "\<not> list_ex (\<lambda>t. et_epoch t = e \<and> list_ex (\<lambda>m. member_index m = i) (et_leaves t)) ts"
        by (auto simp: list_ex_iff)
      then show ?thesis using True by (auto simp: members_of_epoch list_ex_iff)
    next
      case False
      then show ?thesis using Cons by simp
    qed
  qed simp
  then show ?thesis using assms by (simp add: epoch_has_leaf_def leaves_for_epoch_def)
qed

lemma take_rotate: "take (length xs - 1) (drop 1 xs @ take 1 xs) = drop 1 xs"
  by (cases xs) simp_all

lemma merge_refines:
  assumes rel: "archive_rel n g a"
  shows "\<exists>g'. merge_message_secrets staged leaves g = Some g' \<and>
    archive_rel n g' (a\<lparr>ar_past := ar_past a @ [(ar_current a, leaves)], ar_current := staged\<rparr>)"
proof -
  let ?a = "a\<lparr>ar_past := ar_past a @ [(ar_current a, leaves)], ar_current := staged\<rparr>" and ?l = "length (ar_past a)"
  let ?st = "(message_secrets_store g)\<lparr>current_message_secrets := staged\<rparr>"
  let ?new = "\<lparr>et_epoch = context_epoch g, et_message_secrets = ar_current a, et_leaves = leaves\<rparr>"
  have st: "max_epochs ?st = n" "past_epoch_trees ?st = map (archived a) [?l - n..<?l]" using rel by (simp_all add: archive_rel_def)
  have new: "archived ?a ?l = ?new" using rel by (simp add: archived_def archive_rel_def)
  have old: "map (archived ?a) [k..<?l] = map (archived a) [k..<?l]" for k by (simp add: archived_def nth_append)
  have "\<exists>st'. store_add (context_epoch g) (ar_current a) leaves ?st = Some st' \<and> max_epochs st' = n \<and>
      current_message_secrets st' = staged \<and> past_epoch_trees st' = map (archived ?a) [Suc ?l - n..<Suc ?l]"
  proof (cases "n = 0")
    case True
    then show ?thesis using st by (simp add: store_add_def)
  next
    case False
    define ts where "ts = map (archived a) [Suc ?l - n..<?l]"
    have trees: "(if n \<le> length (past_epoch_trees ?st) then map_option (take (n - 1)) (rotate_left 1 (past_epoch_trees ?st))
        else Some (past_epoch_trees ?st)) = Some ts"
    proof (cases "n \<le> ?l")
      case True
      have len: "length (map (archived a) [?l - n..<?l]) = n" using True by simp
      have "drop 1 (map (archived a) [?l - n..<?l]) = ts" using True False by (simp add: ts_def drop_map Suc_diff_le)
      then show ?thesis
        using take_rotate [of "map (archived a) [?l - n..<?l]"] False unfolding st rotate_left_def len by simp
    next
      case False
      then show ?thesis using st(2) by (simp add: ts_def)
    qed
    have "map (archived ?a) [Suc ?l - n..<Suc ?l] = ts @ [?new]"
      using False new old [of "Suc ?l - n"] by (simp add: ts_def)
    moreover have "store_add (context_epoch g) (ar_current a) leaves ?st = Some (?st\<lparr>past_epoch_trees := ts @ [?new]\<rparr>)"
      using False trees unfolding store_add_def st(1) by (simp only: if_False option.map)
    ultimately show ?thesis using st(1) by simp
  qed
  then show ?thesis using rel
    by (auto simp: merge_message_secrets_def store_message_secrets_mut_def archive_rel_def Let_def add.commute)
qed

lemma use_refines:
  assumes rel: "archive_rel n g a" and small: "ar_epoch a < 2 ^ 64"
  shows "\<exists>g'. apfst (map_sum id Some) (message_secrets_mut e (ask q) g) = (fst (archive_step ask n a (UseSecrets e q)), g') \<and>
    archive_rel n g' (snd (archive_step ask n a (UseSecrets e q)))"
proof -
  let ?l = "length (ar_past a)"
  have ctx: "e < context_epoch g \<longleftrightarrow> unat e < ar_epoch a"
    using rel small by (simp add: archive_rel_def word_less_nat_alt unat_of_nat take_bit_nat_eq_self del: of_nat_add)
  show ?thesis
  proof (cases "ar_epoch a \<le> unat e")
    case True
    moreover have "archived (a\<lparr>ar_current := ms\<rparr>) = archived a" for ms by (simp add: archived_def fun_eq_iff)
    ultimately show ?thesis using rel ctx
      by (auto simp: message_secrets_mut_def store_message_secrets_mut_def archive_rel_def split: prod.splits)
  next
    case False
    have ep: "et_epoch (archived a j) = of_nat (ar_first a + j)" for j by (simp add: archived_def)
    note use = use_epoch_upt [of "archived a", OF ep small, of e "\<lambda>ms _. ask q ms" "?l - n"]
    have trees: "past_epoch_trees (message_secrets_store g) = map (archived a) [?l - n..<?l]" using rel by (simp add: archive_rel_def)
    show ?thesis
    proof (cases "ar_first a \<le> unat e \<and> ar_epoch a - unat e \<le> n")
      case True
      define i where "i = unat e - ar_first a"
      have i: "i < ?l" "ar_first a + (?l - n) \<le> unat e" "unat e < ar_epoch a" using True False by (auto simp: i_def)
      obtain r ms where r: "ask q (fst (ar_past a ! i)) = (r, ms)" by fastforce
      let ?a = "a\<lparr>ar_past := (ar_past a)[i := (ms, snd (ar_past a ! i))]\<rparr>"
      have "(archived a)(i := archived a i\<lparr>et_message_secrets := ms\<rparr>) = archived ?a"
        using i(1) by (auto simp: archived_def fun_eq_iff)
      then have "use_epoch e (\<lambda>ms _. ask q ms) (map (archived a) [?l - n..<?l]) = (Some r, map (archived ?a) [?l - n..<?l])"
        using use i(2,3) r by (simp add: Let_def i_def [symmetric] archived_def)
      then show ?thesis using rel ctx False True r i
        by (simp add: message_secrets_mut_def secrets_for_epoch_mut_def archive_rel_def too_distant_def Let_def i_def [symmetric])
    next
      case out: False
      then have "\<not> (ar_first a + (?l - n) \<le> unat e \<and> unat e < ar_epoch a)" using False by auto
      then have "use_epoch e (\<lambda>ms _. ask q ms) (map (archived a) [?l - n..<?l]) = (None, map (archived a) [?l - n..<?l])"
        using use by (simp only: if_False)
      moreover have "archive_step ask n a (UseSecrets e q) = (Inl TooDistantInThePast, a)"
        using False out by (simp only: archive_step.simps if_False)
      ultimately show ?thesis using rel ctx False
        by (simp del: archive_step.simps add: message_secrets_mut_def secrets_for_epoch_mut_def archive_rel_def too_distant_def)
    qed
  qed
qed

lemma step_epoch: "ar_epoch (snd (archive_step ask n a ev)) \<le> Suc (ar_epoch a)"
  by (cases ev) (auto simp: Let_def split: prod.splits)

lemma events_refine:
  "archive_rel n g a \<Longrightarrow> ar_epoch a + length evs < 2 ^ 64 \<Longrightarrow>
    \<exists>g'. group_events ask evs g = Some (fst (serve_all (archive_step ask n) a evs), g') \<and>
      archive_rel n g' (snd (serve_all (archive_step ask n) a evs))"
proof (induction evs arbitrary: g a)
  case Nil
  then show ?case by simp
next
  case (Cons ev evs)
  obtain r a1 where a1: "archive_step ask n a ev = (r, a1)" by (metis surj_pair)
  have "\<exists>g1. group_event_step ask ev g = Some (r, g1) \<and> archive_rel n g1 a1"
  proof (cases ev)
    case (MergeCommit staged leaves)
    then show ?thesis using merge_refines [OF Cons.prems(1), of staged leaves] a1 by auto
  next
    case (UseSecrets e q)
    then show ?thesis using use_refines [OF Cons.prems(1), of e ask q] Cons.prems(2) a1 by (simp del: archive_step.simps)
  qed
  then obtain g1 where g1: "group_event_step ask ev g = Some (r, g1)" "archive_rel n g1 a1" by blast
  have "ar_epoch a1 + length evs < 2 ^ 64" using step_epoch [of ask n a ev] a1 Cons.prems(2) by simp
  from Cons.IH [OF g1(2) this] show ?case using g1(1) a1 by auto
qed

definition new_group :: "nat \<Rightarrow> nat \<Rightarrow> MessageSecrets \<Rightarrow> group_secrets" where
  "new_group n e ms = \<lparr>context_epoch = of_nat e, message_secrets_store = new_with_secret n ms\<rparr>"

definition new_archive :: "nat \<Rightarrow> MessageSecrets \<Rightarrow> archive" where
  "new_archive e ms = \<lparr>ar_first = e, ar_past = [], ar_current = ms\<rparr>"

lemma new_archive_rel: "archive_rel n (new_group n e ms) (new_archive e ms)"
  by (simp add: archive_rel_def new_group_def new_archive_def new_with_secret_def)

text \<open>
  (C8) Messages of past epochs: over any sequence of merged commits and uses of the secrets of any epoch, the
  bounded store answers as an archive of all epochs with a window. The secrets of an epoch at most \<open>max_epochs\<close>
  behind are found exactly as its last use left them, older ones are refused as too distant, and no operation
  panics.
\<close>

theorem past_epochs_refine_archive:
  assumes "e + length evs < 2 ^ 64"
  shows "map_option fst (group_events ask evs (new_group n e ms)) = Some (fst (serve_all (archive_step ask n) (new_archive e ms) evs))"
  using events_refine [OF new_archive_rel, of e ms evs ask n] assms by (auto simp: new_archive_def)

definition demo_secrets :: "u8 \<Rightarrow> MessageSecrets" where
  "demo_secrets x = \<lparr>sender_data_secret = [x], membership_key = [], confirmation_key = [], serialized_context = [],
     secret_tree = secret_tree_new [x] (size_of 1) (leafi 0)\<rparr>"

theorem past_epochs_refine_archive_witness:
  "map_option (map snd \<circ> fst) (group_events (\<lambda>x ms. (sender_data_secret ms, ms\<lparr>sender_data_secret := x\<rparr>))
     [UseSecrets 7 [9], MergeCommit (demo_secrets 2) [], MergeCommit (demo_secrets 3) [], UseSecrets 7 [5], UseSecrets 8 [6], UseSecrets 8 [7]]
     (new_group 1 7 (demo_secrets 1))) =
   Some [Inr (Some [1]), Inr None, Inr None, Inl TooDistantInThePast, Inr (Some [2]), Inr (Some [6])]"
proof -
  let ?ask = "\<lambda>x ms. (sender_data_secret ms, ms\<lparr>sender_data_secret := x\<rparr>)"
  let ?evs = "[UseSecrets 7 [9], MergeCommit (demo_secrets 2) [], MergeCommit (demo_secrets 3) [], UseSecrets 7 [5], UseSecrets 8 [6], UseSecrets 8 [7]]"
  have "map_option (map snd \<circ> fst) (group_events ?ask ?evs (new_group 1 7 (demo_secrets 1))) =
      map_option (map snd) (Some (fst (serve_all (archive_step ?ask 1) (new_archive 7 (demo_secrets 1)) ?evs)))"
    by (subst past_epochs_refine_archive [symmetric]) (simp, simp only: option.map_comp)
  also have "\<dots> = Some [Inr (Some [1]), Inr None, Inr None, Inl TooDistantInThePast, Inr (Some [2]), Inr (Some [6])]"
    by (simp add: new_archive_def demo_secrets_def)
  finally show ?thesis .
qed



end
