(* ===== verification/Private_Message.thy ===== *)
theory Private_Message
  imports Past_Secrets
begin

text \<open>
  The encrypted messages of OpenMLS: \<^verbatim>\<open>framing/private_message.rs\<close> (encryption), \<^verbatim>\<open>framing/private_message_in.rs\<close>
  (decryption), \<^verbatim>\<open>framing/codec.rs\<close>, \<^verbatim>\<open>framing/sender.rs\<close>, the sender data keys of \<^verbatim>\<open>schedule/mod.rs\<close>, and the
  path of a received ciphertext through \<^verbatim>\<open>framing/validation.rs\<close> and \<^verbatim>\<open>mls_group/processing.rs\<close>. The AEAD, the
  variable-length encoding of \<^verbatim>\<open>tls_codec\<close> and the encodings of proposals and commits are the fields of a
  record of parameters; the types \<open>'p\<close> and \<open>'c\<close> are the wire forms of proposals and commits. The random bytes of
  the reuse guard are an argument. \<open>None\<close> as a result of an operation is a tree request that does not return.
\<close>

section \<open>Contents\<close>

datatype WireFormat = PublicMessageFormat | PrivateMessageFormat | WelcomeFormat | GroupInfoFormat | KeyPackageFormat

datatype Sender = MemberSender LeafNodeIndex | ExternalSender u32 | NewMemberProposal | NewMemberCommit

fun as_member :: "Sender \<Rightarrow> LeafNodeIndex option" where
  "as_member (MemberSender leaf_index) = Some leaf_index"
| "as_member _ = None"

datatype ('p, 'c) FramedContentBody = ApplicationBody bytes | ProposalBody 'p | CommitBody 'c

fun content_type :: "('p, 'c) FramedContentBody \<Rightarrow> ContentType" where
  "content_type (ApplicationBody _) = Application"
| "content_type (ProposalBody _) = Proposal"
| "content_type (CommitBody _) = Commit"

record FramedContentAuthData =
  auth_signature :: bytes
  auth_confirmation_tag :: "bytes option"

record ('p, 'c) FramedContent =
  fc_group_id :: bytes
  fc_epoch :: u64
  fc_sender :: Sender
  fc_authenticated_data :: bytes
  fc_body :: "('p, 'c) FramedContentBody"

record ('p, 'c) AuthenticatedContent =
  ac_wire_format :: WireFormat
  ac_content :: "('p, 'c) FramedContent"
  ac_auth :: FramedContentAuthData

record ('p, 'c) VerifiableAuthenticatedContent =
  vc_wire_format :: WireFormat
  vc_content :: "('p, 'c) FramedContent"
  vc_serialized_context :: "bytes option"
  vc_auth :: FramedContentAuthData

record PrivateMessage =
  pm_group_id :: bytes
  pm_epoch :: u64
  pm_content_type :: ContentType
  pm_authenticated_data :: bytes
  pm_encrypted_sender_data :: bytes
  pm_ciphertext :: bytes

record MlsSenderData =
  sd_leaf_index :: LeafNodeIndex
  sd_generation :: u32
  sd_reuse_guard :: bytes

section \<open>Parameters and encodings\<close>

record ('p, 'c) suite =
  su_kdf :: kdf
  su_aead_encrypt :: "bytes \<Rightarrow> bytes \<Rightarrow> bytes \<Rightarrow> bytes \<Rightarrow> bytes option"
  su_aead_decrypt :: "bytes \<Rightarrow> bytes \<Rightarrow> bytes \<Rightarrow> bytes \<Rightarrow> bytes option"
  su_mac_length :: nat
  vl_serialize :: "bytes \<Rightarrow> bytes option"
  vl_deserialize :: "bytes \<Rightarrow> (bytes \<times> bytes) option"
  proposal_serialize :: "'p \<Rightarrow> bytes option"
  proposal_deserialize :: "bytes \<Rightarrow> ('p \<times> bytes) option"
  commit_serialize :: "'c \<Rightarrow> bytes option"
  commit_deserialize :: "bytes \<Rightarrow> ('c \<times> bytes) option"

fun seq :: "bytes option list \<Rightarrow> bytes option" where
  "seq [] = Some []"
| "seq (None # _) = None"
| "seq (Some b # bs) = map_option (append b) (seq bs)"

fun content_type_byte :: "ContentType \<Rightarrow> u8" where
  "content_type_byte Application = 1"
| "content_type_byte Proposal = 2"
| "content_type_byte Commit = 3"

definition epoch_bytes :: "u64 \<Rightarrow> bytes" where
  "epoch_bytes e = map (\<lambda>i. ucast (drop_bit (8 * i) e)) (rev [0..<8])"

definition private_content_aad :: "('p, 'c) suite \<Rightarrow> bytes \<Rightarrow> u64 \<Rightarrow> ContentType \<Rightarrow> bytes \<Rightarrow> bytes option" where
  "private_content_aad su group_id epoch ct authenticated_data =
     seq [vl_serialize su group_id, Some (epoch_bytes epoch), Some [content_type_byte ct], vl_serialize su authenticated_data]"

definition sender_data_aad :: "('p, 'c) suite \<Rightarrow> bytes \<Rightarrow> u64 \<Rightarrow> ContentType \<Rightarrow> bytes option" where
  "sender_data_aad su group_id epoch ct = seq [vl_serialize su group_id, Some (epoch_bytes epoch), Some [content_type_byte ct]]"

definition be32 :: "bytes \<Rightarrow> u32" where
  "be32 bs = foldl (\<lambda>w b. push_bit 8 w OR ucast b) 0 bs"

fun serialize_sender_data :: "MlsSenderData \<Rightarrow> bytes" where
  "serialize_sender_data d = to_be_bytes (case sd_leaf_index d of LeafNodeIndex i \<Rightarrow> i) @ to_be_bytes (sd_generation d) @ sd_reuse_guard d"

definition deserialize_sender_data :: "bytes \<Rightarrow> MlsSenderData option" where
  "deserialize_sender_data bs =
     (if length bs < 12 then None
      else Some \<lparr>sd_leaf_index = LeafNodeIndex (be32 (take 4 bs)), sd_generation = be32 (take 4 (drop 4 bs)),
                 sd_reuse_guard = take 4 (drop 8 bs)\<rparr>)"

fun serialize_without_type :: "('p, 'c) suite \<Rightarrow> ('p, 'c) FramedContentBody \<Rightarrow> bytes option" where
  "serialize_without_type su (ApplicationBody a) = vl_serialize su a"
| "serialize_without_type su (ProposalBody p) = proposal_serialize su p"
| "serialize_without_type su (CommitBody c) = commit_serialize su c"

definition deserialize_without_type :: "('p, 'c) suite \<Rightarrow> bytes \<Rightarrow> ContentType \<Rightarrow> (('p, 'c) FramedContentBody \<times> bytes) option" where
  "deserialize_without_type su bs ct =
     (case ct of
        Application \<Rightarrow> map_option (apfst ApplicationBody) (vl_deserialize su bs)
      | Proposal \<Rightarrow> map_option (apfst ProposalBody) (proposal_deserialize su bs)
      | Commit \<Rightarrow> map_option (apfst CommitBody) (commit_deserialize su bs))"

definition serialize_auth :: "('p, 'c) suite \<Rightarrow> FramedContentAuthData \<Rightarrow> bytes option" where
  "serialize_auth su au =
     seq [vl_serialize su (auth_signature au),
          (case auth_confirmation_tag au of Some tag \<Rightarrow> vl_serialize su tag | None \<Rightarrow> Some [])]"

definition deserialize_auth :: "('p, 'c) suite \<Rightarrow> bytes \<Rightarrow> ContentType \<Rightarrow> (FramedContentAuthData \<times> bytes) option" where
  "deserialize_auth su bs ct =
     (case vl_deserialize su bs of
        None \<Rightarrow> None
      | Some (sig, r) \<Rightarrow>
          (if ct = Commit
           then map_option (apfst (\<lambda>tag. \<lparr>auth_signature = sig, auth_confirmation_tag = Some tag\<rparr>)) (vl_deserialize su r)
           else Some (\<lparr>auth_signature = sig, auth_confirmation_tag = None\<rparr>, r)))"

definition padding_length :: "nat \<Rightarrow> nat \<Rightarrow> nat \<Rightarrow> nat" where
  "padding_length plaintext_length padding_size mac_len =
     (if 0 < padding_size
      then (padding_size - (plaintext_length + mac_len) mod padding_size) mod padding_size else 0)"

definition encode_padded_ciphertext_content_detached ::
  "('p, 'c) suite \<Rightarrow> ('p, 'c) AuthenticatedContent \<Rightarrow> nat \<Rightarrow> nat \<Rightarrow> bytes option" where
  "encode_padded_ciphertext_content_detached su ac padding_size mac_len =
     map_option (\<lambda>b. b @ replicate (padding_length (length b) padding_size mac_len) 0)
       (seq [serialize_without_type su (fc_body (ac_content ac)), serialize_auth su (ac_auth ac)])"

definition deserialize_ciphertext_content ::
  "('p, 'c) suite \<Rightarrow> bytes \<Rightarrow> ContentType \<Rightarrow> (('p, 'c) FramedContentBody \<times> FramedContentAuthData) option" where
  "deserialize_ciphertext_content su bs ct =
     (case deserialize_without_type su bs ct of
        None \<Rightarrow> None
      | Some (content, r) \<Rightarrow>
          (case deserialize_auth su r ct of
             None \<Rightarrow> None
           | Some (au, padding) \<Rightarrow> if list_all (\<lambda>b. b = 0) padding then Some (content, au) else None))"

section \<open>Encryption\<close>

datatype MessageEncryptionError = EncryptionLibraryError | EncryptionWrongWireFormat | EncryptionSecretTreeError SecretTreeError

definition xor_with_reuse_guard :: "bytes \<Rightarrow> bytes \<Rightarrow> bytes" where
  "xor_with_reuse_guard nonce guard = map2 (XOR) (take 4 nonce) guard @ drop 4 nonce"

definition ciphertext_sample :: "kdf \<Rightarrow> bytes \<Rightarrow> bytes" where
  "ciphertext_sample cr ciphertext = (if length ciphertext \<le> hash_length cr then ciphertext else take (hash_length cr) ciphertext)"

definition derive_aead_key :: "kdf \<Rightarrow> bytes \<Rightarrow> bytes \<Rightarrow> bytes option" where
  "derive_aead_key cr secret ciphertext =
     (case kdf_expand_label cr secret ''key'' (ciphertext_sample cr ciphertext) (aead_key_length cr) of Inr k \<Rightarrow> Some k | Inl _ \<Rightarrow> None)"

definition derive_aead_nonce :: "kdf \<Rightarrow> bytes \<Rightarrow> bytes \<Rightarrow> bytes option" where
  "derive_aead_nonce cr secret ciphertext =
     (case kdf_expand_label cr secret ''nonce'' (ciphertext_sample cr ciphertext) (aead_nonce_length cr) of Inr k \<Rightarrow> Some k | Inl _ \<Rightarrow> None)"

definition seal_sender_data :: "('p, 'c) suite \<Rightarrow> bytes \<Rightarrow> bytes \<Rightarrow> u64 \<Rightarrow> ContentType \<Rightarrow> bytes \<Rightarrow> MlsSenderData \<Rightarrow> bytes option" where
  "seal_sender_data su secret group_id epoch ct ciphertext data =
     (case derive_aead_key (su_kdf su) secret ciphertext of None \<Rightarrow> None
      | Some key \<Rightarrow>
      case derive_aead_nonce (su_kdf su) secret ciphertext of None \<Rightarrow> None
      | Some nonce \<Rightarrow>
      case sender_data_aad su group_id epoch ct of None \<Rightarrow> None
      | Some aad \<Rightarrow> su_aead_encrypt su key (serialize_sender_data data) aad nonce)"

type_synonym ('e, 'a) secrets_result = "(('e + 'a) \<times> MessageSecrets) option"

definition encrypt_content ::
  "('p, 'c) suite \<Rightarrow> bytes option \<Rightarrow> ('p, 'c) AuthenticatedContent \<Rightarrow> nat \<Rightarrow> MessageSecrets
     \<Rightarrow> (MessageEncryptionError, PrivateMessage \<times> u32) secrets_result" where
  "encrypt_content su rand ac padding_size ms =
     (let content = ac_content ac; ct = content_type (fc_body content);
          failed = (\<lambda>ms. Some (Inl EncryptionLibraryError, ms))
      in case as_member (fc_sender content) of None \<Rightarrow> failed ms
      | Some sender_index \<Rightarrow>
      case private_content_aad su (fc_group_id content) (fc_epoch content) ct (fc_authenticated_data content) of None \<Rightarrow> failed ms
      | Some aad \<Rightarrow>
      case tree_secret_for_encryption (su_kdf su) sender_index (secret_type_from ct) (secret_tree ms) of None \<Rightarrow> None
      | Some (Inl e, t) \<Rightarrow> Some (Inl (EncryptionSecretTreeError e), ms\<lparr>secret_tree := t\<rparr>)
      | Some (Inr (generation, ratchet_key, ratchet_nonce), t) \<Rightarrow>
        (let ms1 = ms\<lparr>secret_tree := t\<rparr>
         in case rand of None \<Rightarrow> failed ms1
         | Some reuse_guard \<Rightarrow>
         case encode_padded_ciphertext_content_detached su ac padding_size (su_mac_length su) of None \<Rightarrow> failed ms1
         | Some padded \<Rightarrow>
         case su_aead_encrypt su ratchet_key padded aad (xor_with_reuse_guard ratchet_nonce reuse_guard) of None \<Rightarrow> failed ms1
         | Some ciphertext \<Rightarrow>
         case seal_sender_data su (sender_data_secret ms1) (fc_group_id content) (fc_epoch content) ct ciphertext
                \<lparr>sd_leaf_index = sender_index, sd_generation = generation, sd_reuse_guard = reuse_guard\<rparr> of None \<Rightarrow> failed ms1
         | Some encrypted_sender_data \<Rightarrow>
             Some (Inr (\<lparr>pm_group_id = fc_group_id content, pm_epoch = fc_epoch content, pm_content_type = ct,
                         pm_authenticated_data = fc_authenticated_data content, pm_encrypted_sender_data = encrypted_sender_data,
                         pm_ciphertext = ciphertext\<rparr>, generation), ms1)))"

definition try_from_authenticated_content ::
  "('p, 'c) suite \<Rightarrow> bytes option \<Rightarrow> ('p, 'c) AuthenticatedContent \<Rightarrow> nat \<Rightarrow> MessageSecrets
     \<Rightarrow> (MessageEncryptionError, PrivateMessage \<times> u32) secrets_result" where
  "try_from_authenticated_content su rand ac padding_size ms =
     (if ac_wire_format ac \<noteq> PrivateMessageFormat then Some (Inl EncryptionWrongWireFormat, ms)
      else encrypt_content su rand ac padding_size ms)"

section \<open>Decryption\<close>

datatype MessageDecryptionError =
    DecryptionLibraryError
  | AeadError
  | MalformedContent
  | DecryptionSecretTreeError SecretTreeError

definition decrypt_sender_data :: "('p, 'c) suite \<Rightarrow> PrivateMessage \<Rightarrow> MessageSecrets \<Rightarrow> MessageDecryptionError + MlsSenderData" where
  "decrypt_sender_data su c ms =
     (case derive_aead_key (su_kdf su) (sender_data_secret ms) (pm_ciphertext c) of None \<Rightarrow> Inl DecryptionLibraryError
      | Some key \<Rightarrow>
      case derive_aead_nonce (su_kdf su) (sender_data_secret ms) (pm_ciphertext c) of None \<Rightarrow> Inl DecryptionLibraryError
      | Some nonce \<Rightarrow>
      case sender_data_aad su (pm_group_id c) (pm_epoch c) (pm_content_type c) of None \<Rightarrow> Inl DecryptionLibraryError
      | Some aad \<Rightarrow>
      case su_aead_decrypt su key (pm_encrypted_sender_data c) aad nonce of None \<Rightarrow> Inl AeadError
      | Some bs \<Rightarrow> (case deserialize_sender_data bs of None \<Rightarrow> Inl MalformedContent | Some d \<Rightarrow> Inr d))"

definition decrypt_private_message ::
  "('p, 'c) suite \<Rightarrow> PrivateMessage \<Rightarrow> bytes \<Rightarrow> bytes \<Rightarrow> MessageDecryptionError + ('p, 'c) FramedContentBody \<times> FramedContentAuthData" where
  "decrypt_private_message su c ratchet_key ratchet_nonce =
     (case private_content_aad su (pm_group_id c) (pm_epoch c) (pm_content_type c) (pm_authenticated_data c) of
        None \<Rightarrow> Inl DecryptionLibraryError
      | Some aad \<Rightarrow>
      case su_aead_decrypt su ratchet_key (pm_ciphertext c) aad ratchet_nonce of None \<Rightarrow> Inl AeadError
      | Some bs \<Rightarrow>
        (case deserialize_ciphertext_content su bs (pm_content_type c) of None \<Rightarrow> Inl MalformedContent | Some x \<Rightarrow> Inr x))"

definition to_verifiable_content ::
  "('p, 'c) suite \<Rightarrow> SenderRatchetConfiguration \<Rightarrow> PrivateMessage \<Rightarrow> MlsSenderData \<Rightarrow> MessageSecrets
     \<Rightarrow> (MessageDecryptionError, ('p, 'c) VerifiableAuthenticatedContent) secrets_result" where
  "to_verifiable_content su cfg c sender_data ms =
     (case tree_secret_for_decryption (su_kdf su) cfg (sd_leaf_index sender_data) (secret_type_from (pm_content_type c))
             (sd_generation sender_data) (secret_tree ms) of None \<Rightarrow> None
      | Some (Inl e, t) \<Rightarrow> Some (Inl (DecryptionSecretTreeError e), ms\<lparr>secret_tree := t\<rparr>)
      | Some (Inr (ratchet_key, ratchet_nonce), t) \<Rightarrow>
          Some (map_sum id
            (\<lambda>(content, au). \<lparr>vc_wire_format = PrivateMessageFormat,
               vc_content = \<lparr>fc_group_id = pm_group_id c, fc_epoch = pm_epoch c, fc_sender = MemberSender (sd_leaf_index sender_data),
                 fc_authenticated_data = pm_authenticated_data c, fc_body = content\<rparr>,
               vc_serialized_context = Some (serialized_context ms), vc_auth = au\<rparr>)
            (decrypt_private_message su c ratchet_key (xor_with_reuse_guard ratchet_nonce (sd_reuse_guard sender_data))),
            ms\<lparr>secret_tree := t\<rparr>))"

datatype ValidationError =
    WrongGroupId
  | WrongEpoch
  | UnencryptedApplicationMessage
  | MissingConfirmationTag
  | ValidationLibraryError
  | CannotDecryptOwnMessage
  | UnableToDecrypt MessageDecryptionError

definition from_verifiable_content :: "('p, 'c) VerifiableAuthenticatedContent \<Rightarrow> ValidationError + ('p, 'c) VerifiableAuthenticatedContent" where
  "from_verifiable_content vc =
     (let ct = content_type (fc_body (vc_content vc))
      in if ct = Commit \<and> auth_confirmation_tag (vc_auth vc) = None then Inl MissingConfirmationTag
         else if ct = Application \<and> vc_wire_format vc \<noteq> PrivateMessageFormat then Inl UnencryptedApplicationMessage
         else if ct = Application \<and> as_member (fc_sender (vc_content vc)) = None then Inl ValidationLibraryError
         else Inr vc)"

definition from_inbound_ciphertext ::
  "('p, 'c) suite \<Rightarrow> SenderRatchetConfiguration \<Rightarrow> LeafNodeIndex \<Rightarrow> PrivateMessage \<Rightarrow> group_secrets
     \<Rightarrow> ((ValidationError + ('p, 'c) VerifiableAuthenticatedContent) \<times> group_secrets) option" where
  "from_inbound_ciphertext su cfg receiver_leaf c g =
     (case message_secrets_and_leaves_mut (pm_epoch c) (\<lambda>ms _. (decrypt_sender_data su c ms, ms)) g of
        (Inl e, g1) \<Rightarrow> Some (Inl (UnableToDecrypt (DecryptionSecretTreeError e)), g1)
      | (Inr (Inl e), g1) \<Rightarrow> Some (Inl (UnableToDecrypt e), g1)
      | (Inr (Inr sender_data), g1) \<Rightarrow>
          if sd_leaf_index sender_data = receiver_leaf then Some (Inl CannotDecryptOwnMessage, g1)
          else case message_secrets_mut (pm_epoch c)
                      (\<lambda>ms. case to_verifiable_content su cfg c sender_data ms of
                              None \<Rightarrow> (None, ms) | Some (r, ms1) \<Rightarrow> (Some r, ms1)) g1 of
            (Inl _, g2) \<Rightarrow> Some (Inl (UnableToDecrypt AeadError), g2)
          | (Inr None, g2) \<Rightarrow> None
          | (Inr (Some (Inl e)), g2) \<Rightarrow> Some (Inl (UnableToDecrypt e), g2)
          | (Inr (Some (Inr vc)), g2) \<Rightarrow> Some (from_verifiable_content vc, g2))"

definition validate_framing :: "bytes \<Rightarrow> u64 \<Rightarrow> PrivateMessage \<Rightarrow> ValidationError + unit" where
  "validate_framing group_id epoch c =
     (if pm_group_id c \<noteq> group_id then Inl WrongGroupId
      else if pm_content_type c = Application
           then (if epoch < pm_epoch c then Inl WrongEpoch else Inr ())
           else (if pm_epoch c \<noteq> epoch then Inl WrongEpoch else Inr ()))"

text \<open>Decrypting a message of a group: the branch of a ciphertext.\<close>

definition decrypt_message ::
  "('p, 'c) suite \<Rightarrow> SenderRatchetConfiguration \<Rightarrow> bytes \<Rightarrow> LeafNodeIndex \<Rightarrow> PrivateMessage \<Rightarrow> group_secrets
     \<Rightarrow> ((ValidationError + ('p, 'c) VerifiableAuthenticatedContent) \<times> group_secrets) option" where
  "decrypt_message su cfg group_id own c g =
     (case validate_framing group_id (context_epoch g) c of
        Inl e \<Rightarrow> Some (Inl e, g)
      | Inr _ \<Rightarrow> from_inbound_ciphertext su cfg own c g)"

section \<open>Round trips\<close>

text \<open>
  What is relied on of the AEAD and of the encodings: opening what was sealed with the same key, nonce and
  associated data gives it back, and decoding an encoded value followed by other bytes gives the value and these bytes.
\<close>

definition suite_ok :: "('p, 'c) suite \<Rightarrow> bool" where
  "suite_ok su \<longleftrightarrow> kdf_total (su_kdf su) \<and>
     (\<forall>k m a n c. su_aead_encrypt su k m a n = Some c \<longrightarrow> su_aead_decrypt su k c a n = Some m) \<and>
     (\<forall>x b r. vl_serialize su x = Some b \<longrightarrow> vl_deserialize su (b @ r) = Some (x, r)) \<and>
     (\<forall>x b r. proposal_serialize su x = Some b \<longrightarrow> proposal_deserialize su (b @ r) = Some (x, r)) \<and>
     (\<forall>x b r. commit_serialize su x = Some b \<longrightarrow> commit_deserialize su (b @ r) = Some (x, r))"

lemma suite_okD:
  assumes "suite_ok su"
  shows "kdf_total (su_kdf su)"
    and "su_aead_encrypt su k m a n = Some c \<Longrightarrow> su_aead_decrypt su k c a n = Some m"
    and "vl_serialize su x = Some b \<Longrightarrow> vl_deserialize su (b @ r) = Some (x, r)"
    and "proposal_serialize su p = Some b \<Longrightarrow> proposal_deserialize su (b @ r) = Some (p, r)"
    and "commit_serialize su y = Some b \<Longrightarrow> commit_deserialize su (b @ r) = Some (y, r)"
  using assms unfolding suite_ok_def by blast+

lemma be32_inverse: "be32 (to_be_bytes w) = w"
proof (rule bit_word_eqI)
  fix n :: nat
  consider "n < 8" | "8 \<le> n" "n < 16" | "16 \<le> n" "n < 24" | "24 \<le> n" by linarith
  then show "bit (be32 (to_be_bytes w)) n = bit w n" if "n < LENGTH(32)"
    using that by cases (auto simp: be32_def to_be_bytes_def bit_simps)
qed

lemma to_be_bytes_length [simp]: "length (to_be_bytes w) = 4"
  by (simp add: to_be_bytes_def)

lemma sender_data_round_trip:
  "length (sd_reuse_guard d) = 4 \<Longrightarrow> deserialize_sender_data (serialize_sender_data d) = Some d"
  by (cases d; cases "sd_leaf_index d") (simp add: deserialize_sender_data_def be32_inverse)

lemma seq_two: "seq [x, y] = Some b \<longleftrightarrow> (\<exists>u v. x = Some u \<and> y = Some v \<and> b = u @ v)"
  by (cases x; cases y) auto

lemma body_round_trip:
  "suite_ok su \<Longrightarrow> serialize_without_type su body = Some b \<Longrightarrow>
     deserialize_without_type su (b @ r) (content_type body) = Some (body, r)"
  by (cases body) (simp_all add: deserialize_without_type_def suite_okD)

lemma auth_round_trip:
  assumes "suite_ok su" and "serialize_auth su au = Some b" and "ct = Commit \<longleftrightarrow> auth_confirmation_tag au \<noteq> None"
  shows "deserialize_auth su (b @ r) ct = Some (au, r)"
proof -
  obtain u v where u: "vl_serialize su (auth_signature au) = Some u" "b = u @ v"
    "(case auth_confirmation_tag au of Some tag \<Rightarrow> vl_serialize su tag | None \<Rightarrow> Some []) = Some v"
    using assms(2) unfolding serialize_auth_def seq_two by blast
  have sig: "vl_deserialize su (u @ v @ r) = Some (auth_signature au, v @ r)" using suite_okD(3) [OF assms(1) u(1)] by simp
  show ?thesis
  proof (cases "auth_confirmation_tag au")
    case None
    then show ?thesis using assms(3) u sig by (cases au) (auto simp: deserialize_auth_def)
  next
    case (Some tag)
    then have "vl_deserialize su (v @ r) = Some (tag, r)" using suite_okD(3) [OF assms(1)] u(3) by simp
    then show ?thesis using Some assms(3) u sig by (cases au) (auto simp: deserialize_auth_def)
  qed
qed

text \<open>Only commits carry a confirmation tag.\<close>

definition content_ok :: "('p, 'c) AuthenticatedContent \<Rightarrow> bool" where
  "content_ok ac \<longleftrightarrow> (content_type (fc_body (ac_content ac)) = Commit \<longleftrightarrow> auth_confirmation_tag (ac_auth ac) \<noteq> None)"

lemma content_round_trip:
  assumes "suite_ok su" and "content_ok ac" and "encode_padded_ciphertext_content_detached su ac padding_size mac_len = Some bs"
  shows "deserialize_ciphertext_content su bs (content_type (fc_body (ac_content ac))) = Some (fc_body (ac_content ac), ac_auth ac)"
proof -
  obtain u v n where u: "serialize_without_type su (fc_body (ac_content ac)) = Some u" "serialize_auth su (ac_auth ac) = Some v"
    "bs = u @ v @ replicate n 0"
    using assms(3) unfolding encode_padded_ciphertext_content_detached_def map_option_eq_Some seq_two by auto
  show ?thesis
    using body_round_trip [OF assms(1) u(1)] auth_round_trip [OF assms(1) u(2)] assms(2)
    by (simp add: deserialize_ciphertext_content_def u(3) content_ok_def list_all_iff)
qed

lemma use_epoch_id: "use_epoch e (\<lambda>ms ls. (f ms ls, ms)) ts = (map_option (\<lambda>t. f (et_message_secrets t) (et_leaves t)) (find_epoch e ts), ts)"
  by (induction ts) auto

lemma read_secrets:
  "message_secrets_and_leaves_mut e (\<lambda>ms _. (f ms, ms)) g = (map_sum id f (message_secrets_for_epoch e g), g)"
  by (auto simp: message_secrets_and_leaves_mut_def message_secrets_for_epoch_def secrets_and_leaves_for_epoch_mut_def
      use_epoch_id store_message_secrets_mut_def secrets_for_epoch_def too_distant_def split: option.splits)

lemma use_secrets: "fst (message_secrets_mut e f g) = map_sum id (fst \<circ> f) (message_secrets_for_epoch e g)"
  by (auto simp: message_secrets_mut_def message_secrets_for_epoch_def secrets_for_epoch_mut_def use_epoch_find
      store_message_secrets_mut_def secrets_for_epoch_def too_distant_def split: option.splits prod.splits)

text \<open>What a successful encryption has done.\<close>

lemma encrypt_contentD:
  assumes "encrypt_content su rand ac padding_size ms = Some (Inr (c, gen), ms')"
  obtains i guard key nonce t aad padded where "fc_sender (ac_content ac) = MemberSender i" "rand = Some guard"
    "tree_secret_for_encryption (su_kdf su) i (secret_type_from (pm_content_type c)) (secret_tree ms) = Some (Inr (gen, key, nonce), t)"
    "encode_padded_ciphertext_content_detached su ac padding_size (su_mac_length su) = Some padded"
    "private_content_aad su (pm_group_id c) (pm_epoch c) (pm_content_type c) (pm_authenticated_data c) = Some aad"
    "su_aead_encrypt su key padded aad (xor_with_reuse_guard nonce guard) = Some (pm_ciphertext c)"
    "seal_sender_data su (sender_data_secret ms) (pm_group_id c) (pm_epoch c) (pm_content_type c) (pm_ciphertext c)
       \<lparr>sd_leaf_index = i, sd_generation = gen, sd_reuse_guard = guard\<rparr> = Some (pm_encrypted_sender_data c)"
    "pm_group_id c = fc_group_id (ac_content ac)" "pm_epoch c = fc_epoch (ac_content ac)"
    "pm_content_type c = content_type (fc_body (ac_content ac))" "pm_authenticated_data c = fc_authenticated_data (ac_content ac)"
    "ms' = ms\<lparr>secret_tree := t\<rparr>"
proof -
  obtain i where i: "fc_sender (ac_content ac) = MemberSender i"
    using assms by (cases "fc_sender (ac_content ac)") (auto simp: encrypt_content_def Let_def)
  show thesis
    using assms that [OF i] by (auto simp: encrypt_content_def Let_def i split: option.splits sum.splits prod.splits)
qed

lemma sender_data_opens:
  assumes "suite_ok su" and "length (sd_reuse_guard d) = 4" and "sender_data_secret ms = secret"
    and "seal_sender_data su secret (pm_group_id c) (pm_epoch c) (pm_content_type c) (pm_ciphertext c) d = Some (pm_encrypted_sender_data c)"
  shows "decrypt_sender_data su c ms = Inr d"
  using assms(3,4) suite_okD(2) [OF assms(1)] sender_data_round_trip [OF assms(2)]
  by (auto simp: seal_sender_data_def decrypt_sender_data_def simp del: serialize_sender_data.simps split: option.splits)

section \<open>Members read what a member sends\<close>

text \<open>The tree of a member of an epoch after some requests.\<close>

abbreviation epoch_run ::
  "kdf \<Rightarrow> SenderRatchetConfiguration \<Rightarrow> nat \<Rightarrow> bytes \<Rightarrow> nat \<Rightarrow> tree_request list \<Rightarrow> (tree_request \<times> tree_answer) list \<Rightarrow> SecretTree \<Rightarrow> bool" where
  "epoch_run cr cfg h s own qs rs t \<equiv> tree_requests cr cfg qs (secret_tree_new s (size_of h) (leafi own)) = Some (rs, t)"

lemma encryption_not_last: "tree_secret_for_encryption cr i ty t = Some (Inr (g, k), t') \<Longrightarrow> g \<noteq> - 1"
  by (auto simp: tree_secret_for_encryption_def ratchet_forward_def split: option.splits sum.splits prod.splits SenderRatchet.splits if_splits)

lemma encryption_key:
  assumes "kdf_total cr" and "unat (out_of_order_tolerance cfg) < 2 ^ 31" and "h \<le> 30" and "a < 2 ^ h"
    and "epoch_run cr cfg h s a qs rs t" and "tree_secret_for_encryption cr (leafi l) ty t = Some (Inr (g, k), t')" and "l < 2 ^ h"
  shows "k = key_at cr (leaf_ratchet_secret cr h s l ty) (unat g)"
proof -
  have "epoch_run cr cfg h s a (qs @ [Encrypt (leafi l) ty]) (rs @ [(Encrypt (leafi l) ty, Inr (g, k))]) t'"
    using attempt_all_snoc [OF assms(5), of "Encrypt (leafi l) ty" "Inr (g, k)" t'] assms(6) by simp
  from run_keys(2) [OF assms(1,2,4,3) this, of "Encrypt (leafi l) ty" g k] leaf_usize_leafi [OF assms(7,3)]
  show ?thesis by (simp add: served_def del: leaf_usize.simps)
qed

text \<open>The content as a receiver with the secrets \<open>ms\<close> gets it.\<close>

definition delivered :: "('p, 'c) AuthenticatedContent \<Rightarrow> MessageSecrets \<Rightarrow> ('p, 'c) VerifiableAuthenticatedContent" where
  "delivered ac ms = \<lparr>vc_wire_format = PrivateMessageFormat, vc_content = ac_content ac,
     vc_serialized_context = Some (serialized_context ms), vc_auth = ac_auth ac\<rparr>"

abbreviation open_with ::
  "('p, 'c) suite \<Rightarrow> SenderRatchetConfiguration \<Rightarrow> PrivateMessage \<Rightarrow> MlsSenderData \<Rightarrow> MessageSecrets
     \<Rightarrow> (MessageDecryptionError + ('p, 'c) VerifiableAuthenticatedContent) option \<times> MessageSecrets" where
  "open_with su cfg c d \<equiv> \<lambda>ms. case to_verifiable_content su cfg c d ms of None \<Rightarrow> (None, ms) | Some (r, ms1) \<Rightarrow> (Some r, ms1)"

lemma inbound_opens:
  assumes "message_secrets_for_epoch (pm_epoch c) g = Inr ms" and "decrypt_sender_data su c ms = Inr d" and "sd_leaf_index d \<noteq> own"
    and "to_verifiable_content su cfg c d ms = Some (r, ms')"
  shows "from_inbound_ciphertext su cfg own c g =
    Some (case r of Inl e \<Rightarrow> Inl (UnableToDecrypt e) | Inr vc \<Rightarrow> from_verifiable_content vc,
          snd (message_secrets_mut (pm_epoch c) (open_with su cfg c d) g))"
proof -
  have "fst (message_secrets_mut (pm_epoch c) (open_with su cfg c d) g) = Inr (Some r)"
    unfolding use_secrets assms(1) using assms(4) by simp
  moreover obtain x g' where x: "message_secrets_mut (pm_epoch c) (open_with su cfg c d) g = (x, g')"
    by (cases "message_secrets_mut (pm_epoch c) (open_with su cfg c d) g")
  ultimately have "x = Inr (Some r)" by simp
  then show ?thesis
    unfolding from_inbound_ciphertext_def read_secrets assms(1) using assms(2,3) x by (cases r) simp_all
qed

lemma inbound_accepts:
  assumes "message_secrets_for_epoch (pm_epoch c) g = Inr ms" and "decrypt_sender_data su c ms = Inr d" and "sd_leaf_index d \<noteq> own"
    and "to_verifiable_content su cfg c d ms = Some (Inr vc, ms')"
  shows "\<exists>g'. from_inbound_ciphertext su cfg own c g = Some (from_verifiable_content vc, g')"
  using inbound_opens [OF assms] by simp

lemma readable:
  assumes "suite_ok su" and "unat (out_of_order_tolerance cfg) < 2 ^ 31" and "h \<le> 30" and "a < 2 ^ h" and "b < 2 ^ h" and "a \<noteq> b"
    and "epoch_run (su_kdf su) cfg h s a qs rs (secret_tree msa)" and "epoch_run (su_kdf su) cfg h s b qs' rs' (secret_tree msb)"
    and "sender_data_secret msb = sender_data_secret msa"
    and "fc_sender (ac_content ac) = MemberSender (leafi a)" and "content_ok ac" and "length guard = 4"
    and "try_from_authenticated_content su (Some guard) ac padding msa = Some (Inr (c, gen), msa')"
    and "message_secrets_for_epoch (fc_epoch (ac_content ac)) g = Inr msb"
    and "if content_type (fc_body (ac_content ac)) = Application then fc_epoch (ac_content ac) \<le> context_epoch g
         else fc_epoch (ac_content ac) = context_epoch g"
    and "let ty = secret_type_from (content_type (fc_body (ac_content ac))); now = current_generation (secret_tree msb) (leafi a) ty
         in ((leafi a, ty), gen) \<notin> set (handed_out (served rs')) \<and>
            unat now \<le> unat gen + unat (out_of_order_tolerance cfg) \<and> unat gen \<le> unat now + unat (maximum_forward_distance cfg)"
  shows "\<exists>g'. decrypt_message su cfg (fc_group_id (ac_content ac)) (leafi b) c g =
    Some (Inr (delivered ac msb), g')"
proof -
  have "encrypt_content su (Some guard) ac padding msa = Some (Inr (c, gen), msa')"
    using assms(13) by (auto simp: try_from_authenticated_content_def split: if_splits)
  from encrypt_contentD [OF this] obtain key nonce t aad padded where
    enc: "tree_secret_for_encryption (su_kdf su) (leafi a) (secret_type_from (pm_content_type c)) (secret_tree msa) = Some (Inr (gen, key, nonce), t)"
      "encode_padded_ciphertext_content_detached su ac padding (su_mac_length su) = Some padded"
      "private_content_aad su (pm_group_id c) (pm_epoch c) (pm_content_type c) (pm_authenticated_data c) = Some aad"
      "su_aead_encrypt su key padded aad (xor_with_reuse_guard nonce guard) = Some (pm_ciphertext c)"
      "seal_sender_data su (sender_data_secret msa) (pm_group_id c) (pm_epoch c) (pm_content_type c) (pm_ciphertext c)
         \<lparr>sd_leaf_index = leafi a, sd_generation = gen, sd_reuse_guard = guard\<rparr> = Some (pm_encrypted_sender_data c)"
    and c: "pm_group_id c = fc_group_id (ac_content ac)" "pm_epoch c = fc_epoch (ac_content ac)"
      "pm_content_type c = content_type (fc_body (ac_content ac))" "pm_authenticated_data c = fc_authenticated_data (ac_content ac)"
    using assms(10) by (metis Sender.inject(1) option.inject)
  let ?ty = "secret_type_from (pm_content_type c)"
  note tot = suite_okD(1) [OF assms(1)]
  have "(key, nonce) = key_at (su_kdf su) (leaf_ratchet_secret (su_kdf su) h s a ?ty) (unat gen)"
    by (rule encryption_key [OF tot assms(2-4) assms(7) enc(1) assms(4)])
  moreover obtain t' where "tree_secret_for_decryption (su_kdf su) cfg (leafi a) ?ty gen (secret_tree msb) =
      Some (Inr (key_at (su_kdf su) (leaf_ratchet_secret (su_kdf su) h s a ?ty) (unat gen)), t')"
    using available_in_tree [OF tot assms(2,5,3,8,4,6) _ encryption_not_last [OF enc(1)]] assms(16) c(3) by (auto simp: Let_def)
  ultimately have key: "tree_secret_for_decryption (su_kdf su) cfg (leafi a) ?ty gen (secret_tree msb) = Some (Inr (key, nonce), t')" by simp
  let ?d = "\<lparr>sd_leaf_index = leafi a, sd_generation = gen, sd_reuse_guard = guard\<rparr>"
  have sd: "decrypt_sender_data su c msb = Inr ?d" using sender_data_opens [OF assms(1) _ assms(9) enc(5)] assms(12) by simp
  have "decrypt_private_message su c key (xor_with_reuse_guard nonce guard) = Inr (fc_body (ac_content ac), ac_auth ac)"
    using enc(3) suite_okD(2) [OF assms(1) enc(4)] content_round_trip [OF assms(1,11) enc(2)] c(3)
    by (simp add: decrypt_private_message_def)
  then have vc: "to_verifiable_content su cfg c ?d msb = Some (Inr (delivered ac msb), msb\<lparr>secret_tree := t'\<rparr>)"
    using key c assms(10) by (simp add: to_verifiable_content_def delivered_def)
  have "from_verifiable_content (delivered ac msb) = Inr (delivered ac msb)"
    using assms(10,11) by (auto simp: from_verifiable_content_def content_ok_def Let_def delivered_def)
  moreover have "sd_leaf_index ?d \<noteq> leafi b" using leafi_eq [OF assms(4,5,3)] assms(6) by simp
  ultimately obtain g' where "from_inbound_ciphertext su cfg (leafi b) c g = Some (Inr (delivered ac msb), g')"
    using inbound_accepts [OF _ sd _ vc, of g "leafi b"] assms(14) c(2) by auto
  moreover have "validate_framing (fc_group_id (ac_content ac)) (context_epoch g) c = Inr ()"
    using assms(15) c by (auto simp: validate_framing_def split: if_splits)
  ultimately show ?thesis by (simp add: decrypt_message_def)
qed

text \<open>
  (C1) End to end in an epoch: what one member encrypts, another decrypts to the same content and authentication data,
  from the right sender. Both have started the epoch with the same encryption secret and sender data
  secret and have then made any requests to their trees; the message may be a late one of a past epoch
  and may overtake others, as long as its key has not been handed out at the receiver and the ratchet's window
  covers it.
\<close>

theorem private_message_readable:
  assumes "suite_ok su" and "unat (out_of_order_tolerance cfg) < 2 ^ 31" and "h \<le> 30" and "a < 2 ^ h" and "b < 2 ^ h" and "a \<noteq> b"
    and "epoch_run (su_kdf su) cfg h s a qs rs (secret_tree msa)" and "epoch_run (su_kdf su) cfg h s b qs' rs' (secret_tree msb)"
    and "sender_data_secret msb = sender_data_secret msa"
    and "fc_sender (ac_content ac) = MemberSender (leafi a)" and "content_ok ac" and "length guard = 4"
    and "try_from_authenticated_content su (Some guard) ac padding msa = Some (Inr (c, gen), msa')"
    and "message_secrets_for_epoch (fc_epoch (ac_content ac)) g = Inr msb"
    and "if content_type (fc_body (ac_content ac)) = Application then fc_epoch (ac_content ac) \<le> context_epoch g
         else fc_epoch (ac_content ac) = context_epoch g"
    and "let ty = secret_type_from (content_type (fc_body (ac_content ac))); now = current_generation (secret_tree msb) (leafi a) ty
         in ((leafi a, ty), gen) \<notin> set (handed_out (served rs')) \<and>
            unat now \<le> unat gen + unat (out_of_order_tolerance cfg) \<and> unat gen \<le> unat now + unat (maximum_forward_distance cfg)"
  shows "\<exists>g'. decrypt_message su cfg (fc_group_id (ac_content ac)) (leafi b) c g =
    Some (Inr (delivered ac msb), g')"
  by (rule readable [OF assms])

text \<open>A concrete suite: lengths in front of byte strings, and a seal that records key, nonce and associated data.\<close>

definition demo_serialize :: "bytes \<Rightarrow> bytes option" where
  "demo_serialize x = (if length x < 64 then Some (of_nat (length x) # x) else None)"

fun demo_deserialize :: "bytes \<Rightarrow> (bytes \<times> bytes) option" where
  "demo_deserialize [] = None"
| "demo_deserialize (n # bs) = (if unat n \<le> length bs then Some (take (unat n) bs, drop (unat n) bs) else None)"

definition demo_suite :: "(bytes, bytes) suite" where
  "demo_suite = \<lparr>su_kdf = demo_kdf, su_aead_encrypt = (\<lambda>k m a n. Some (k @ n @ a @ m)),
     su_aead_decrypt = (\<lambda>k c a n. let p = k @ n @ a in if take (length p) c = p then Some (drop (length p) c) else None),
     su_mac_length = 16, vl_serialize = demo_serialize, vl_deserialize = demo_deserialize,
     proposal_serialize = demo_serialize, proposal_deserialize = demo_deserialize,
     commit_serialize = demo_serialize, commit_deserialize = demo_deserialize\<rparr>"

lemma demo_suite_ok: "suite_ok demo_suite"
proof -
  have "demo_serialize x = Some b \<Longrightarrow> demo_deserialize (b @ r) = Some (x, r)" for x b r
    by (auto simp: demo_serialize_def unat_of_nat take_bit_nat_eq_self split: if_splits)
  then show ?thesis by (auto simp: suite_ok_def demo_suite_def demo_kdf_total Let_def)
qed

definition demo_member :: "nat \<Rightarrow> MessageSecrets" where
  "demo_member own = \<lparr>sender_data_secret = [3], membership_key = [], confirmation_key = [], serialized_context = [5],
     secret_tree = secret_tree_new [7] (size_of 1) (leafi own)\<rparr>"

definition demo_content :: "(bytes, bytes) AuthenticatedContent" where
  "demo_content = \<lparr>ac_wire_format = PrivateMessageFormat,
     ac_content = \<lparr>fc_group_id = [8], fc_epoch = 4, fc_sender = MemberSender (leafi 0), fc_authenticated_data = [], fc_body = ApplicationBody [1, 2, 3]\<rparr>,
     ac_auth = \<lparr>auth_signature = [6, 6], auth_confirmation_tag = None\<rparr>\<rparr>"

lemma demo_tree:
  "\<exists>t. tree_secret_for_encryption demo_kdf (leafi 0) ApplicationSecret (secret_tree (demo_member 0)) =
     Some (Inr (0, key_at demo_kdf (leaf_ratchet_secret demo_kdf 1 [7] 0 ApplicationSecret) 0), t)"
proof -
  have z: "initial_ratchet_secret x = head_at demo_kdf x 0" for x by (simp add: initial_ratchet_secret_def head_at_def)
  have "table_rel demo_kdf 1 [7] 0 (secret_tree (demo_member 0)) (first_ratchet demo_kdf 1 [7] 0)"
    using new_tree_rel [of 1 demo_kdf "[7]" 0] by (simp add: demo_member_def)
  from answer_request_refines [OF demo_kdf_total this, of sender_ratchet_configuration_default "Encrypt (leafi 0) ApplicationSecret"]
  show ?thesis by (auto simp: first_ratchet_def ratchet_forward_head [OF demo_kdf_total] u32_max_def z)
qed

lemma demo_encryption:
  "\<exists>c ms. try_from_authenticated_content demo_suite (Some [1, 1, 1, 1]) demo_content 8 (demo_member 0) = Some (Inr (c, 0), ms)"
proof -
  obtain t k n where t: "tree_secret_for_encryption demo_kdf (leafi 0) ApplicationSecret (secret_tree (demo_member 0)) = Some (Inr (0, k, n), t)"
    using demo_tree by (metis surj_pair)
  have kdf: "su_kdf demo_suite = demo_kdf" by (simp add: demo_suite_def)
  have "\<exists>aad. private_content_aad demo_suite [8] 4 Application [] = Some aad" "\<exists>aad. sender_data_aad demo_suite [8] 4 Application = Some aad"
    "\<exists>p. encode_padded_ciphertext_content_detached demo_suite demo_content 8 (su_mac_length demo_suite) = Some p"
    by (simp_all add: private_content_aad_def sender_data_aad_def encode_padded_ciphertext_content_detached_def demo_suite_def
        demo_serialize_def demo_content_def serialize_auth_def)
  moreover have "derive_aead_key demo_kdf s c = Some (map of_char ''key'' @ ciphertext_sample demo_kdf c @ s)"
    "derive_aead_nonce demo_kdf s c = Some (map of_char ''nonce'' @ ciphertext_sample demo_kdf c @ s)" for s c
    by (simp_all add: derive_aead_key_def derive_aead_nonce_def demo_kdf_def)
  moreover have "su_aead_encrypt demo_suite k' m a n' = Some (k' @ n' @ a @ m)" for k' m a n' by (simp add: demo_suite_def)
  ultimately show ?thesis
    using t by (auto simp: try_from_authenticated_content_def encrypt_content_def demo_content_def kdf seal_sender_data_def Let_def)
qed

lemma demo_setting:
  "epoch_run (su_kdf demo_suite) sender_ratchet_configuration_default 1 [7] own [] [] (secret_tree (demo_member own))"
  "message_secrets_for_epoch (fc_epoch (ac_content demo_content)) (new_group 2 4 (demo_member 1)) = Inr (demo_member 1)"
  "current_generation (secret_tree (demo_member 1)) (leafi 0) ty = 0"
  "sender_data_secret (demo_member own) = [3]"
  using new_frame(3) [of 1 ty "[7]" 1]
  by (simp_all add: demo_member_def demo_content_def new_group_def message_secrets_for_epoch_def new_with_secret_def
      current_generation_def ratchet_opt_def get_at_def del: ratchets.simps)

lemmas demo_defs = sender_ratchet_configuration_default_def demo_content_def content_ok_def new_group_def handed_out_def

theorem private_message_readable_witness:
  "\<exists>c ms g. try_from_authenticated_content demo_suite (Some [1, 1, 1, 1]) demo_content 8 (demo_member 0) = Some (Inr (c, 0), ms) \<and>
     decrypt_message demo_suite sender_ratchet_configuration_default [8] (leafi 1) c (new_group 2 4 (demo_member 1)) =
       Some (Inr (delivered demo_content (demo_member 1)), g)"
proof -
  obtain c ms where enc: "try_from_authenticated_content demo_suite (Some [1, 1, 1, 1]) demo_content 8 (demo_member 0) = Some (Inr (c, 0), ms)"
    using demo_encryption by blast
  have "\<exists>g. decrypt_message demo_suite sender_ratchet_configuration_default (fc_group_id (ac_content demo_content)) (leafi 1) c
      (new_group 2 4 (demo_member 1)) = Some (Inr (delivered demo_content (demo_member 1)), g)"
    by (rule private_message_readable [OF demo_suite_ok _ _ _ _ _ demo_setting(1,1) _ _ _ _ enc demo_setting(2)])
      (use demo_setting(3) [of ApplicationSecret] demo_setting(4) in \<open>simp_all add: demo_defs Let_def\<close>)
  then show ?thesis using enc by (auto simp: demo_content_def)
qed

lemma demo_delivery:
  "\<exists>c g. decrypt_message demo_suite sender_ratchet_configuration_default [8] (leafi 1) c (new_group 2 4 (demo_member 1)) =
     Some (Inr (delivered demo_content (demo_member 1)), g)"
proof -
  obtain c ms where enc: "try_from_authenticated_content demo_suite (Some [1, 1, 1, 1]) demo_content 8 (demo_member 0) = Some (Inr (c, 0), ms)"
    using demo_encryption by blast
  have "\<exists>g. decrypt_message demo_suite sender_ratchet_configuration_default (fc_group_id (ac_content demo_content)) (leafi 1) c
      (new_group 2 4 (demo_member 1)) = Some (Inr (delivered demo_content (demo_member 1)), g)"
    by (rule readable [OF demo_suite_ok _ _ _ _ _ demo_setting(1,1) _ _ _ _ enc demo_setting(2)])
      (use demo_setting(3) [of ApplicationSecret] demo_setting(4) in \<open>simp_all add: demo_defs Let_def\<close>)
  then show ?thesis by (auto simp: demo_content_def)
qed

text \<open>
  Padding hides lengths: with a positive padding size, the plaintext of a message together with the tag the
  AEAD adds is a multiple of the padding size long, and less than one padding size has been added.
\<close>

theorem padded_length_aligned:
  assumes "encode_padded_ciphertext_content_detached su ac padding_size mac_len = Some bs" and "0 < padding_size"
  shows "padding_size dvd length bs + mac_len \<and>
    (\<exists>b. seq [serialize_without_type su (fc_body (ac_content ac)), serialize_auth su (ac_auth ac)] = Some b \<and>
       length b \<le> length bs \<and> length bs < length b + padding_size)"
proof -
  obtain b where b: "seq [serialize_without_type su (fc_body (ac_content ac)), serialize_auth su (ac_auth ac)] = Some b"
    "bs = b @ replicate (padding_length (length b) padding_size mac_len) 0"
    using assms(1) unfolding encode_padded_ciphertext_content_detached_def by auto
  have "padding_size dvd x + (padding_size - x mod padding_size) mod padding_size" for x
  proof (cases "x mod padding_size = 0")
    case True
    then show ?thesis by (simp add: dvd_eq_mod_eq_0)
  next
    case False
    have "x mod padding_size < padding_size" using assms(2) by simp
    then have "x + (padding_size - x mod padding_size) = padding_size * (x div padding_size + 1)"
      by (simp add: minus_mod_eq_mult_div [symmetric])
    moreover have "padding_size - x mod padding_size < padding_size" using False assms(2) by simp
    ultimately show ?thesis by simp
  qed
  from this [of "length b + mac_len"] show ?thesis
    using b assms(2) by (auto simp: padding_length_def ac_simps)
qed

theorem padded_length_aligned_witness:
  "\<exists>bs. encode_padded_ciphertext_content_detached demo_suite demo_content 32 16 = Some bs \<and> 32 dvd length bs + 16 \<and> length bs = 16"
proof -
  obtain bs where bs: "encode_padded_ciphertext_content_detached demo_suite demo_content 32 16 = Some bs"
    by (simp add: encode_padded_ciphertext_content_detached_def demo_suite_def demo_serialize_def demo_content_def serialize_auth_def)
  moreover have "length bs = 16" using bs
    by (auto simp: encode_padded_ciphertext_content_detached_def demo_suite_def demo_serialize_def demo_content_def serialize_auth_def
        padding_length_def)
  ultimately show ?thesis using padded_length_aligned [OF bs] by simp
qed

end
