(* ===== verification/Group_Life.thy ===== *)
theory Group_Life
  imports Private_Message
begin

text \<open>
  A member of an MLS group over time: commits are merged (\<^verbatim>\<open>mls_group/staged_commit.rs\<close>) and ciphertexts are received
  (\<^verbatim>\<open>mls_group/processing.rs\<close>), in any order. The store of past epochs, the secret trees and the decryption
  of messages are put together here; the invariant relates every epoch still known to the requests its tree has answered.
\<close>

section \<open>The life of a group at a receiver\<close>

datatype life_event = Merge MessageSecrets "Member list" | Receive PrivateMessage

fun life_step ::
  "('p, 'c) suite \<Rightarrow> SenderRatchetConfiguration \<Rightarrow> bytes \<Rightarrow> LeafNodeIndex \<Rightarrow> life_event \<Rightarrow> group_secrets
     \<Rightarrow> ((ValidationError + ('p, 'c) VerifiableAuthenticatedContent option) \<times> group_secrets) option" where
  "life_step su cfg gid own (Merge staged leaves) g = map_option (Pair (Inr None)) (merge_message_secrets staged leaves g)"
| "life_step su cfg gid own (Receive c) g = map_option (apfst (map_sum id Some)) (decrypt_message su cfg gid own c g)"

definition accepted_ciphertexts :: "(life_event \<times> ('e + 'a)) list \<Rightarrow> PrivateMessage list" where
  "accepted_ciphertexts rs = concat (map (\<lambda>(ev, r). case ev of Receive c \<Rightarrow> (case r of Inr _ \<Rightarrow> [c] | Inl _ \<Rightarrow> []) | _ \<Rightarrow> []) rs)"

text \<open>Message secrets at the start of an epoch.\<close>

definition fresh_secrets :: "MessageSecrets \<Rightarrow> bool" where
  "fresh_secrets ms \<longleftrightarrow> (\<exists>h s own. h \<le> 30 \<and> own < 2 ^ h \<and> secret_tree ms = secret_tree_new s (size_of h) (leafi own))"

text \<open>
  The invariant: the tree of every archived epoch is the result of requests, and the keys of the
  ciphertexts accepted so far are among those it has handed out.
\<close>

abbreviation slot_of :: "PrivateMessage \<Rightarrow> MlsSenderData \<Rightarrow> (LeafNodeIndex \<times> SecretType) \<times> u32" where
  "slot_of c d \<equiv> ((sd_leaf_index d, secret_type_from (pm_content_type c)), sd_generation d)"

definition epoch_ok ::
  "('p, 'c) suite \<Rightarrow> SenderRatchetConfiguration \<Rightarrow> nat \<Rightarrow> PrivateMessage set \<Rightarrow> MessageSecrets \<Rightarrow> bool" where
  "epoch_ok su cfg e A ms \<longleftrightarrow> (\<exists>h s own qs rs. h \<le> 30 \<and> own < 2 ^ h \<and> epoch_run (su_kdf su) cfg h s own qs rs (secret_tree ms) \<and>
     (\<forall>c \<in> A. unat (pm_epoch c) = e \<longrightarrow> (\<exists>d. decrypt_sender_data su c ms = Inr d \<and> slot_of c d \<in> set (handed_out (served rs)))))"

definition entry :: "archive \<Rightarrow> nat \<Rightarrow> MessageSecrets" where
  "entry a i = (if i < length (ar_past a) then fst (ar_past a ! i) else ar_current a)"

definition life_ok :: "('p, 'c) suite \<Rightarrow> SenderRatchetConfiguration \<Rightarrow> PrivateMessage set \<Rightarrow> archive \<Rightarrow> bool" where
  "life_ok su cfg A a \<longleftrightarrow> (\<forall>i \<le> length (ar_past a). epoch_ok su cfg (ar_first a + i) A (entry a i)) \<and>
     (\<forall>c \<in> A. unat (pm_epoch c) \<le> ar_epoch a)"

lemma epoch_okI:
  assumes "h \<le> 30" and "own < 2 ^ h" and "epoch_run (su_kdf su) cfg h s own qs rs (secret_tree ms)"
    and "\<And>c. c \<in> A \<Longrightarrow> unat (pm_epoch c) = e \<Longrightarrow> \<exists>d. decrypt_sender_data su c ms = Inr d \<and> slot_of c d \<in> set (handed_out (served rs))"
  shows "epoch_ok su cfg e A ms"
  using assms unfolding epoch_ok_def by blast

lemma fresh_epoch_ok: "fresh_secrets ms \<Longrightarrow> \<forall>c \<in> A. unat (pm_epoch c) \<noteq> e \<Longrightarrow> epoch_ok su cfg e A ms"
  unfolding fresh_secrets_def epoch_ok_def by (metis attempt_all.simps(1))

lemma sender_data_tree [simp]: "decrypt_sender_data su c (ms\<lparr>secret_tree := t\<rparr>) = decrypt_sender_data su c ms"
proof -
  have "sender_data_secret (ms\<lparr>secret_tree := t\<rparr>) = sender_data_secret ms" by simp
  then show ?thesis unfolding decrypt_sender_data_def by (simp only:)
qed

lemma decrypt_returns:
  assumes "kdf_total cr" and "h \<le> 30" and "own < 2 ^ h" and "epoch_run cr cfg h s own qs rs t"
  shows "\<exists>res t'. tree_secret_for_decryption cr cfg i ty g t = Some (res, t') \<and>
    epoch_run cr cfg h s own (qs @ [Decrypt i ty g]) (rs @ [(Decrypt i ty g, map_sum id (Pair g) res)]) t'"
proof -
  obtain f where "table_rel cr h s own t f"
    using tree_requests_refine [OF assms(1,3,2) new_tree_rel [OF assms(2)], of cfg qs s] assms(4) by auto
  from answer_request_refines [OF assms(1) this assms(3,2), of cfg "Decrypt i ty g"]
  obtain a t' where "answer_request cr cfg (Decrypt i ty g) t = Some (a, t')" by blast
  moreover from this obtain res where "tree_secret_for_decryption cr cfg i ty g t = Some (res, t')" "a = map_sum id (Pair g) res" by auto
  ultimately show ?thesis using attempt_all_snoc [OF assms(4)] by blast
qed

lemma decrypt_open_step:
  assumes "suite_ok su" and tol: "unat (out_of_order_tolerance cfg) < 2 ^ 31" and ok: "epoch_ok su cfg e A ms"
    and d: "decrypt_sender_data su c ms = Inr d" and e: "unat (pm_epoch c) = e"
  shows "\<exists>r ms'. to_verifiable_content su cfg c d ms = Some (r, ms') \<and>
    (case r of Inl _ \<Rightarrow> epoch_ok su cfg e A ms' | Inr _ \<Rightarrow> c \<notin> A \<and> epoch_ok su cfg e A ms' \<and> epoch_ok su cfg e (insert c A) ms')"
proof -
  note tot = suite_okD(1) [OF assms(1)]
  obtain h s own qs rs where run: "h \<le> 30" "own < 2 ^ h" "epoch_run (su_kdf su) cfg h s own qs rs (secret_tree ms)"
    and A: "\<And>c. c \<in> A \<Longrightarrow> unat (pm_epoch c) = e \<Longrightarrow> \<exists>d. decrypt_sender_data su c ms = Inr d \<and> slot_of c d \<in> set (handed_out (served rs))"
    using ok unfolding epoch_ok_def by blast
  let ?q = "Decrypt (sd_leaf_index d) (secret_type_from (pm_content_type c)) (sd_generation d)"
  obtain res t' where res: "tree_secret_for_decryption (su_kdf su) cfg (sd_leaf_index d) (secret_type_from (pm_content_type c)) (sd_generation d)
        (secret_tree ms) = Some (res, t')"
    and run': "epoch_run (su_kdf su) cfg h s own (qs @ [?q]) (rs @ [(?q, map_sum id (Pair (sd_generation d)) res)]) t'"
    using decrypt_returns [OF tot run] by blast
  let ?rs = "rs @ [(?q, map_sum id (Pair (sd_generation d)) res)]"
  have out: "handed_out (served ?rs) = handed_out (served rs) @ (case res of Inl _ \<Rightarrow> [] | Inr _ \<Rightarrow> [slot_of c d])"
    by (cases res) (simp_all add: handed_out_def served_def)
  have keep: "epoch_ok su cfg e A (ms\<lparr>secret_tree := t'\<rparr>)"
  proof (rule epoch_okI [OF run(1,2)])
    show "epoch_run (su_kdf su) cfg h s own (qs @ [?q]) ?rs (secret_tree (ms\<lparr>secret_tree := t'\<rparr>))" using run' by simp
    fix c'
    assume "c' \<in> A" "unat (pm_epoch c') = e"
    from A [OF this] show "\<exists>d. decrypt_sender_data su c' (ms\<lparr>secret_tree := t'\<rparr>) = Inr d \<and> slot_of c' d \<in> set (handed_out (served ?rs))"
      unfolding sender_data_tree out by auto
  qed
  show ?thesis
  proof (cases res)
    case (Inl x)
    then show ?thesis using res keep by (simp add: to_verifiable_content_def)
  next
    case (Inr k)
    have "distinct (handed_out (served ?rs))" by (rule run_keys(1) [OF tot tol run(2,1) run'])
    then have "slot_of c d \<notin> set (handed_out (served rs))" unfolding out by (simp add: Inr)
    then have new: "c \<notin> A" using A e d by fastforce
    have "epoch_ok su cfg e (insert c A) (ms\<lparr>secret_tree := t'\<rparr>)"
    proof (rule epoch_okI [OF run(1,2)])
      show "epoch_run (su_kdf su) cfg h s own (qs @ [?q]) ?rs (secret_tree (ms\<lparr>secret_tree := t'\<rparr>))" using run' by simp
      fix c'
      assume "c' \<in> insert c A" "unat (pm_epoch c') = e"
      then show "\<exists>d. decrypt_sender_data su c' (ms\<lparr>secret_tree := t'\<rparr>) = Inr d \<and> slot_of c' d \<in> set (handed_out (served ?rs))"
        unfolding sender_data_tree out using A [of c'] d Inr by auto
    qed
    then show ?thesis using res keep new Inr by (cases k) (auto simp: to_verifiable_content_def split: sum.splits)
  qed
qed

lemma lookup_archive:
  assumes "archive_rel n g a" and "ar_epoch a < 2 ^ 64" and "E \<le> context_epoch g" and "message_secrets_for_epoch E g = Inr ms"
    and i: "i = unat E - ar_first a" and a': "a' = snd (archive_step (\<lambda>_. f) n a (UseSecrets E ()))"
  shows "i \<le> length (ar_past a) \<and> unat E = ar_first a + i \<and> ms = entry a i" and "ar_first a' = ar_first a"
    and "length (ar_past a') = length (ar_past a)"
    and "j \<le> length (ar_past a) \<Longrightarrow> entry a' j = (if j = i then snd (f ms) else entry a j)"
proof -
  have ctx: "unat E \<le> ar_epoch a"
    using assms(1-3) by (simp add: archive_rel_def word_le_nat_alt unat_of_nat take_bit_nat_eq_self del: of_nat_add)
  obtain g' where "apfst (map_sum id Some) (message_secrets_mut E (\<lambda>ms. (ms, ms)) g) =
      (fst (archive_step (\<lambda>_ ms. (ms, ms)) n a (UseSecrets E ())), g')"
    using use_refines [OF assms(1,2), of E "\<lambda>_ ms. (ms, ms)" "()"] by blast
  from arg_cong [OF this, of fst]
  have st: "fst (archive_step (\<lambda>_ ms. (ms, ms)) n a (UseSecrets E ())) = Inr (Some ms)"
    using assms(4) unfolding message_secrets_for_epoch_reads by (simp del: archive_step.simps)
  have "(i \<le> length (ar_past a) \<and> unat E = ar_first a + i \<and> ms = entry a i) \<and> ar_first a' = ar_first a \<and>
    length (ar_past a') = length (ar_past a) \<and> (\<forall>j \<le> length (ar_past a). entry a' j = (if j = i then snd (f ms) else entry a j))"
  proof (cases "ar_epoch a \<le> unat E")
    case True
    then have "unat E = ar_first a + length (ar_past a)" "i = length (ar_past a)" using ctx i by simp_all
    then show ?thesis using st by (auto simp: entry_def a' split: prod.splits)
  next
    case False
    then have w: "ar_first a \<le> unat E \<and> ar_epoch a - unat E \<le> n" using st by (auto split: if_splits)
    then have il: "i < length (ar_past a)" "unat E = ar_first a + i" using False i by auto
    have step: "archive_step (\<lambda>_. f) n a (UseSecrets E ()) =
        (case f (fst (ar_past a ! i)) of (r, ms) \<Rightarrow> (Inr (Some r), a\<lparr>ar_past := (ar_past a)[i := (ms, snd (ar_past a ! i))]\<rparr>))"
      using False w by (simp add: i Let_def)
    have "ms = entry a i" using st False w il by (simp add: Let_def i [symmetric] entry_def)
    then show ?thesis using il unfolding a' step by (auto simp: entry_def split: prod.splits)
  qed
  then show "i \<le> length (ar_past a) \<and> unat E = ar_first a + i \<and> ms = entry a i" "ar_first a' = ar_first a"
    "length (ar_past a') = length (ar_past a)"
    "j \<le> length (ar_past a) \<Longrightarrow> entry a' j = (if j = i then snd (f ms) else entry a j)" by blast+
qed

definition receive_law ::
  "('p, 'c) suite \<Rightarrow> SenderRatchetConfiguration \<Rightarrow> nat \<Rightarrow> PrivateMessage set \<Rightarrow> archive \<Rightarrow> PrivateMessage
     \<Rightarrow> ValidationError + 'r \<Rightarrow> group_secrets \<Rightarrow> archive \<Rightarrow> bool" where
  "receive_law su cfg n A a c r g' a' \<longleftrightarrow> archive_rel n g' a' \<and> ar_epoch a' = ar_epoch a \<and>
     (case r of Inl _ \<Rightarrow> life_ok su cfg A a' | Inr _ \<Rightarrow> c \<notin> A \<and> life_ok su cfg (insert c A) a')"

lemma use_archive:
  assumes "archive_rel n g a" and "ar_epoch a < 2 ^ 64"
  shows "archive_rel n (snd (message_secrets_mut e f g)) (snd (archive_step (\<lambda>_. f) n a (UseSecrets e ())))"
proof -
  obtain g' where "apfst (map_sum id Some) (message_secrets_mut e f g) = (fst (archive_step (\<lambda>_. f) n a (UseSecrets e ())), g')"
    and rel: "archive_rel n g' (snd (archive_step (\<lambda>_. f) n a (UseSecrets e ())))"
    using use_refines [OF assms, of e "\<lambda>_. f" "()"] by blast
  from arg_cong [OF this(1), of snd] have "snd (message_secrets_mut e f g) = g'" by simp
  with rel show ?thesis by (simp only:)
qed

lemma life_ok_update:
  assumes "life_ok su cfg A a" and "ar_first a' = ar_first a" and "length (ar_past a') = length (ar_past a)"
    and "\<And>j. j \<le> length (ar_past a) \<Longrightarrow> entry a' j = (if j = i then ms else entry a j)"
    and "epoch_ok su cfg (ar_first a + i) B ms" and "A \<subseteq> B" and "B \<subseteq> insert c A" and "unat (pm_epoch c) = ar_first a + i"
    and "i \<le> length (ar_past a)"
  shows "life_ok su cfg B a'"
proof -
  have "epoch_ok su cfg (ar_first a + j) B (entry a' j)" if "j \<le> length (ar_past a)" for j
  proof (cases "j = i")
    case True
    then show ?thesis using assms(4,5) that by simp
  next
    case False
    then have "epoch_ok su cfg (ar_first a + j) A (entry a j)" "entry a' j = entry a j"
      using assms(1,4) that by (simp_all add: life_ok_def)
    moreover have "c' \<in> A" if "c' \<in> B" "unat (pm_epoch c') = ar_first a + j" for c'
      using that assms(7,8) False by auto
    ultimately show ?thesis unfolding epoch_ok_def by metis
  qed
  moreover have "unat (pm_epoch c') \<le> ar_epoch a" if "c' \<in> B" for c'
    using that assms(1,7,8,9) by (auto simp: life_ok_def)
  ultimately show ?thesis using assms(2,3) by (simp add: life_ok_def)
qed

lemma receive_ok:
  assumes su: "suite_ok su" and tol: "unat (out_of_order_tolerance cfg) < 2 ^ 31"
    and rel: "archive_rel n g a" and small: "ar_epoch a < 2 ^ 64" and ok: "life_ok su cfg A a"
  shows "\<exists>r g' a'. decrypt_message su cfg gid own c g = Some (r, g') \<and> receive_law su cfg n A a c r g' a'"
proof -
  show ?thesis
  proof (cases "\<exists>d ms. validate_framing gid (context_epoch g) c = Inr () \<and> message_secrets_for_epoch (pm_epoch c) g = Inr ms \<and>
      decrypt_sender_data su c ms = Inr d \<and> sd_leaf_index d \<noteq> own")
    case False
    then have "\<exists>e. decrypt_message su cfg gid own c g = Some (Inl e, g)"
      by (cases "message_secrets_for_epoch (pm_epoch c) g")
        (auto simp: decrypt_message_def from_inbound_ciphertext_def read_secrets split: sum.splits)
    then show ?thesis using rel ok by (elim exE) (auto simp: receive_law_def)
  next
    case True
    then obtain d ms where fr: "validate_framing gid (context_epoch g) c = Inr ()"
      and ms: "message_secrets_for_epoch (pm_epoch c) g = Inr ms" and d: "decrypt_sender_data su c ms = Inr d" "sd_leaf_index d \<noteq> own"
      by blast
    have "pm_epoch c \<le> context_epoch g" using fr by (auto simp: validate_framing_def split: if_splits)
    note look = lookup_archive [OF rel small this ms refl refl]
    define i where "i = unat (pm_epoch c) - ar_first a"
    have i: "i \<le> length (ar_past a)" "unat (pm_epoch c) = ar_first a + i" "ms = entry a i" using look(1) unfolding i_def by blast+
    have "epoch_ok su cfg (ar_first a + i) A ms" using ok i by (simp add: life_ok_def)
    from decrypt_open_step [OF su tol this d(1) i(2)] obtain r ms' where
      r: "to_verifiable_content su cfg c d ms = Some (r, ms')"
        "case r of Inl _ \<Rightarrow> epoch_ok su cfg (ar_first a + i) A ms'
         | Inr _ \<Rightarrow> c \<notin> A \<and> epoch_ok su cfg (ar_first a + i) A ms' \<and> epoch_ok su cfg (ar_first a + i) (insert c A) ms'" by blast
    define a' where "a' = snd (archive_step (\<lambda>_. open_with su cfg c d) n a (UseSecrets (pm_epoch c) ()))"
    define g' where "g' = snd (message_secrets_mut (pm_epoch c) (open_with su cfg c d) g)"
    have a': "ar_first a' = ar_first a" "length (ar_past a') = length (ar_past a)"
      "\<And>j. j \<le> length (ar_past a) \<Longrightarrow> entry a' j = (if j = i then ms' else entry a j)"
      using look(2-4) [where f = "open_with su cfg c d"] r(1) unfolding a'_def i_def [symmetric] by simp_all
    have rel': "archive_rel n g' a'"
      unfolding a'_def g'_def by (rule use_archive [OF rel small])
    define res where "res = (case r of Inl e \<Rightarrow> Inl (UnableToDecrypt e) | Inr vc \<Rightarrow> from_verifiable_content vc)"
    have run: "decrypt_message su cfg gid own c g = Some (res, g')"
      using inbound_opens [OF ms d r(1)] fr by (simp add: decrypt_message_def res_def g'_def)
    have "epoch_ok su cfg (ar_first a + i) A ms'" using r(2) by (cases r) auto
    from life_ok_update [OF ok a' this _ _ i(2,1)] have keep: "life_ok su cfg A a'" by auto
    have "receive_law su cfg n A a c res g' a'"
    proof (cases res)
      case (Inl e)
      then show ?thesis using rel' keep a' by (simp add: receive_law_def)
    next
      case (Inr vc)
      then obtain vc' where "r = Inr vc'" by (cases r) (auto simp: res_def)
      then have "c \<notin> A" "epoch_ok su cfg (ar_first a + i) (insert c A) ms'" using r(2) by auto
      with life_ok_update [OF ok a' this(2) _ _ i(2,1)] show ?thesis using Inr rel' a' by (auto simp: receive_law_def)
    qed
    then show ?thesis using run by blast
  qed
qed

lemma merge_ok:
  assumes "fresh_secrets staged" and ok: "life_ok su cfg A a"
  shows "life_ok su cfg A (a\<lparr>ar_past := ar_past a @ [(ar_current a, leaves)], ar_current := staged\<rparr>)"
proof -
  let ?a = "a\<lparr>ar_past := ar_past a @ [(ar_current a, leaves)], ar_current := staged\<rparr>"
  have "epoch_ok su cfg (ar_first a + i) A (entry ?a i)" if "i \<le> Suc (length (ar_past a))" for i
  proof (cases "i \<le> length (ar_past a)")
    case True
    then have "entry ?a i = entry a i" by (auto simp: entry_def nth_append)
    then show ?thesis using ok True by (simp add: life_ok_def)
  next
    case False
    then have i: "i = Suc (length (ar_past a))" using that by simp
    then have "entry ?a i = staged" by (simp add: entry_def)
    moreover have "\<forall>c \<in> A. unat (pm_epoch c) \<noteq> ar_first a + i" using ok i by (auto simp: life_ok_def)
    ultimately show ?thesis using fresh_epoch_ok [OF assms(1)] by simp
  qed
  moreover have "unat (pm_epoch c) \<le> Suc (ar_epoch a)" if "c \<in> A" for c using ok that by (auto simp: life_ok_def)
  ultimately show ?thesis by (simp add: life_ok_def)
qed

fun fresh_event :: "life_event \<Rightarrow> bool" where
  "fresh_event (Merge staged leaves) \<longleftrightarrow> fresh_secrets staged"
| "fresh_event (Receive c) \<longleftrightarrow> True"

lemma life_runs:
  assumes su: "suite_ok su" and tol: "unat (out_of_order_tolerance cfg) < 2 ^ 31"
  shows "archive_rel n g a \<Longrightarrow> ar_epoch a + length evs < 2 ^ 64 \<Longrightarrow> life_ok su cfg A a \<Longrightarrow> list_all fresh_event evs \<Longrightarrow>
    \<exists>rs g'. attempt_all (life_step su cfg gid own) evs g = Some (rs, g') \<and>
      distinct (accepted_ciphertexts rs) \<and> set (accepted_ciphertexts rs) \<inter> A = {}"
proof (induction evs arbitrary: g a A)
  case Nil
  then show ?case by (simp add: accepted_ciphertexts_def)
next
  case (Cons ev evs)
  show ?case
  proof (cases ev)
    case (Merge staged leaves)
    let ?a = "a\<lparr>ar_past := ar_past a @ [(ar_current a, leaves)], ar_current := staged\<rparr>"
    obtain g1 where g1: "merge_message_secrets staged leaves g = Some g1" "archive_rel n g1 ?a"
      using merge_refines [OF Cons.prems(1)] by blast
    have "fresh_secrets staged" using Cons.prems(4) Merge by simp
    then have "life_ok su cfg A ?a" by (rule merge_ok [OF _ Cons.prems(3)])
    from Cons.IH [OF g1(2) _ this] obtain rs g' where
      "attempt_all (life_step su cfg gid own) evs g1 = Some (rs, g')" "distinct (accepted_ciphertexts rs)" "set (accepted_ciphertexts rs) \<inter> A = {}"
      using Cons.prems(2,4) by auto
    then show ?thesis using Merge g1(1) by (simp add: accepted_ciphertexts_def)
  next
    case (Receive c)
    have small: "ar_epoch a < 2 ^ 64" using Cons.prems(2) by simp
    obtain r g1 a1 where r: "decrypt_message su cfg gid own c g = Some (r, g1)" "receive_law su cfg n A a c r g1 a1"
      using receive_ok [OF su tol Cons.prems(1) small Cons.prems(3)] by blast
    let ?A = "case r of Inl _ \<Rightarrow> A | Inr _ \<Rightarrow> insert c A"
    have "archive_rel n g1 a1" "ar_epoch a1 + length evs < 2 ^ 64" "life_ok su cfg ?A a1"
      using r(2) Cons.prems(2) by (auto simp: receive_law_def split: sum.splits)
    from Cons.IH [OF this] obtain rs g' where
      "attempt_all (life_step su cfg gid own) evs g1 = Some (rs, g')" "distinct (accepted_ciphertexts rs)" "set (accepted_ciphertexts rs) \<inter> ?A = {}"
      using Cons.prems(4) by auto
    then show ?thesis using Receive r by (cases r) (auto simp: accepted_ciphertexts_def receive_law_def)
  qed
qed

text \<open>
  (C3) No ciphertext is accepted twice: over the whole life of a group at a member, with any ciphertexts received, in
  any order and at any time, and commits merged in between that start new epochs from fresh secrets, every step
  returns and the ciphertexts that were accepted are pairwise different. A replayed ciphertext is refused, whether its
  epoch is the current one, a stored one or a forgotten one.
\<close>

theorem no_ciphertext_accepted_twice:
  assumes "suite_ok su" and "unat (out_of_order_tolerance cfg) < 2 ^ 31" and "fresh_secrets ms" and "e + length evs < 2 ^ 64"
    and "list_all fresh_event evs"
  shows "\<exists>rs g. attempt_all (life_step su cfg gid own) evs (new_group n e ms) = Some (rs, g) \<and> distinct (accepted_ciphertexts rs)"
proof -
  have "life_ok su cfg {} (new_archive e ms)"
    using fresh_epoch_ok [OF assms(3), of "{}" e su cfg] by (simp add: life_ok_def new_archive_def entry_def)
  from life_runs [OF assms(1,2) new_archive_rel _ this assms(5)] assms(4) show ?thesis by (fastforce simp: new_archive_def)
qed

theorem no_ciphertext_accepted_twice_witness:
  "\<exists>c rs g. attempt_all (life_step demo_suite sender_ratchet_configuration_default [8] (leafi 1))
       [Receive c, Receive c, Merge (demo_member 1) [], Receive c] (new_group 2 4 (demo_member 1)) = Some (rs, g) \<and>
     accepted_ciphertexts rs = [c]"
proof -
  let ?step = "life_step demo_suite sender_ratchet_configuration_default [8] (leafi 1)" and ?g = "new_group 2 4 (demo_member 1)"
  obtain c g1 where c: "decrypt_message demo_suite sender_ratchet_configuration_default [8] (leafi 1) c ?g =
      Some (Inr (delivered demo_content (demo_member 1)), g1)"
    using demo_delivery by blast
  let ?evs = "[Receive c, Receive c, Merge (demo_member 1) [], Receive c]"
  have fresh: "fresh_secrets (demo_member 1)"
    unfolding fresh_secrets_def demo_member_def by (intro exI [of _ 1] exI [of _ "[7]"]) simp
  obtain rs g where run: "attempt_all ?step ?evs ?g = Some (rs, g)" and dist: "distinct (accepted_ciphertexts rs)"
    using no_ciphertext_accepted_twice [OF demo_suite_ok _ fresh, of sender_ratchet_configuration_default 4 ?evs "[8]" "leafi 1" 2] fresh
    by (auto simp: sender_ratchet_configuration_default_def simp del: attempt_all.simps)
  obtain rs1 where rs: "rs = (Receive c, Inr (Some (delivered demo_content (demo_member 1)))) # rs1"
    and rs1: "map fst rs1 = [Receive c, Merge (demo_member 1) [], Receive c]"
  proof -
    obtain rs1 where "attempt_all ?step [Receive c, Merge (demo_member 1) [], Receive c] g1 = Some (rs1, g)"
      "rs = (Receive c, Inr (Some (delivered demo_content (demo_member 1)))) # rs1"
      using run c unfolding attempt_all.simps(2) [of ?step "Receive c" "[Receive c, Merge (demo_member 1) [], Receive c]"]
      by (auto simp del: attempt_all.simps)
    from that [OF this(2) attempt_all_requests [OF this(1)]] show thesis .
  qed
  have "set (accepted_ciphertexts rs1) \<subseteq> {c}"
    using rs1 by (auto simp: accepted_ciphertexts_def map_eq_Cons_conv split: sum.splits)
  moreover have "accepted_ciphertexts rs = c # accepted_ciphertexts rs1" by (simp add: rs accepted_ciphertexts_def)
  ultimately have "accepted_ciphertexts rs = [c]" using dist by (cases "accepted_ciphertexts rs1") auto
  then show ?thesis using run by blast
qed

end
