(* ===== verification/Staircase_Config.thy ===== *)
theory Staircase_Config
  imports Prelude
begin

text \<open>
  The settings of the benchmark runner as they arrive on its command line
  (\<^verbatim>\<open>src/OpenMLS_containerized/src/staircase_runner.rs\<close>): step sizes, payload sizes, the order of the plateaus, the
  policy for failed profiled workers, worker specifications and run identifiers, with the checks made on them before a
  run. The random generator of the \<^verbatim>\<open>rand\<close> crate is a record of parameters.
\<close>

section \<open>The random generator\<close>

text \<open>\<^verbatim>\<open>gen_range(lo..=hi)\<close> and the order \<^verbatim>\<open>shuffle\<close> gives a slice, which depends on its length only.\<close>

record 'r rng_api =
  seed_from_u64 :: "u64 \<Rightarrow> 'r"
  gen_range :: "nat \<Rightarrow> nat \<Rightarrow> 'r \<Rightarrow> nat \<times> 'r"
  shuffle_order :: "nat \<Rightarrow> 'r \<Rightarrow> nat list \<times> 'r"

definition rng_ok :: "'r rng_api \<Rightarrow> bool" where
  "rng_ok R = ((\<forall>lo hi s. lo \<le> hi \<longrightarrow> lo \<le> fst (gen_range R lo hi s) \<and> fst (gen_range R lo hi s) \<le> hi) \<and>
               (\<forall>n s. mset (fst (shuffle_order R n s)) = mset [0..<n]))"

definition shuffle :: "'r rng_api \<Rightarrow> 'a list \<Rightarrow> 'r \<Rightarrow> 'a list \<times> 'r" where
  "shuffle R xs s = (case shuffle_order R (length xs) s of (order, s') \<Rightarrow> (map ((!) xs) order, s'))"

text \<open>A generator without randomness: the least value of a range, and no change of order.\<close>

definition plain_rng :: "unit rng_api" where
  "plain_rng = \<lparr>seed_from_u64 = (\<lambda>_. ()), gen_range = (\<lambda>lo _ s. (lo, s)), shuffle_order = (\<lambda>n s. ([0..<n], s))\<rparr>"

lemma plain_rng_ok: "rng_ok plain_rng"
  by (simp add: rng_ok_def plain_rng_def)

lemma gen_range_bounds:
  "rng_ok R \<Longrightarrow> lo \<le> hi \<Longrightarrow> gen_range R lo hi s = (v, s') \<Longrightarrow> lo \<le> v \<and> v \<le> hi"
  unfolding rng_ok_def by (metis fst_conv)

lemma shuffle_mset: "rng_ok R \<Longrightarrow> mset (fst (shuffle R xs s)) = mset xs"
proof -
  assume "rng_ok R"
  then have o: "mset (fst (shuffle_order R (length xs) s)) = mset [0..<length xs]" by (simp add: rng_ok_def)
  have "mset (map ((!) xs) (fst (shuffle_order R (length xs) s))) = mset (map ((!) xs) [0..<length xs])"
    unfolding mset_map o ..
  then show ?thesis by (simp add: shuffle_def map_nth case_prod_beta)
qed

section \<open>Numbers and ranges\<close>

definition quoted :: "string \<Rightarrow> string" where
  "quoted s = [CHR 0x27] @ s @ [CHR 0x27]"

definition parse_usize :: "string \<Rightarrow> string \<Rightarrow> nat result" where
  "parse_usize raw flag =
     (let value = trim raw
      in if value = [] then Inl (flag @ '' contains an empty integer'')
         else case parse_uint usize_max value of
                None \<Rightarrow> Inl (flag @ '' expected an integer, got '' @ quoted value)
              | Some n \<Rightarrow> Inr n)"

definition parse_uniform_range :: "string \<Rightarrow> string \<Rightarrow> (nat \<times> nat) option result" where
  "parse_uniform_range raw flag =
     (let value = trim raw
      in if CHR ''['' \<notin> set value \<and> CHR '']'' \<notin> set value then Inr None
         else if \<not> (prefix ''['' value \<and> suffix '']'' value) then
           Inl (flag @ '' range must use [min,max], got '' @ quoted value)
         else case split_on CHR '','' (butlast (tl value)) of
           [a, b] \<Rightarrow>
             (case parse_usize a flag of Inl e \<Rightarrow> Inl e
              | Inr lo \<Rightarrow> case parse_usize b flag of Inl e \<Rightarrow> Inl e
              | Inr hi \<Rightarrow>
                  if hi < lo then Inl (flag @ '' range minimum '' @ show_nat lo @ '' exceeds maximum '' @ show_nat hi)
                  else Inr (Some (lo, hi)))
         | _ \<Rightarrow> Inl (flag @ '' range must contain exactly two integers, got '' @ quoted value))"

section \<open>Step sizes\<close>

datatype StepSize = FixedStep nat | UniformStep nat nat

text \<open>An empty range makes \<^verbatim>\<open>gen_range\<close> panic: \<open>None\<close>.\<close>

fun sample_step :: "'r rng_api \<Rightarrow> StepSize \<Rightarrow> 'r \<Rightarrow> (nat \<times> 'r) option" where
  "sample_step R (FixedStep n) s = Some (n, s)"
| "sample_step R (UniformStep lo hi) s = (if lo \<le> hi then Some (gen_range R lo hi s) else None)"

fun step_is_valid :: "StepSize \<Rightarrow> bool" where
  "step_is_valid (FixedStep n) = (0 < n)"
| "step_is_valid (UniformStep lo hi) = (0 < lo)"

definition step_size_from_str :: "string \<Rightarrow> StepSize result" where
  "step_size_from_str value =
     (case parse_uniform_range value ''--step-size'' of
        Inl e \<Rightarrow> Inl e
      | Inr (Some (lo, hi)) \<Rightarrow>
          if lo = 0 then Inl ''--step-size range minimum must be at least 1'' else Inr (UniformStep lo hi)
      | Inr None \<Rightarrow>
          (case parse_usize value ''--step-size'' of
             Inl e \<Rightarrow> Inl e
           | Inr n \<Rightarrow> if n = 0 then Inl ''--step-size must be at least 1'' else Inr (FixedStep n)))"

definition show_range :: "nat \<Rightarrow> nat \<Rightarrow> string" where
  "show_range lo hi = ''['' @ show_nat lo @ '','' @ show_nat hi @ '']''"

fun show_step_size :: "StepSize \<Rightarrow> string" where
  "show_step_size (FixedStep n) = show_nat n"
| "show_step_size (UniformStep lo hi) = show_range lo hi"

section \<open>Payload sizes\<close>

datatype PayloadSizes = FixedSizes "nat list" | UniformSizes nat nat

datatype PayloadSizeSource = FixedSize nat | UniformSize nat nat

fun payload_is_empty :: "PayloadSizes \<Rightarrow> bool" where
  "payload_is_empty (FixedSizes sizes) = (sizes = [])"
| "payload_is_empty (UniformSizes lo hi) = False"

fun source_count :: "PayloadSizes \<Rightarrow> nat" where
  "source_count (FixedSizes sizes) = length sizes"
| "source_count (UniformSizes lo hi) = 1"

fun shuffled_sources :: "'r rng_api \<Rightarrow> PayloadSizes \<Rightarrow> 'r \<Rightarrow> PayloadSizeSource list \<times> 'r" where
  "shuffled_sources R (FixedSizes sizes) s = apfst (map FixedSize) (shuffle R sizes s)"
| "shuffled_sources R (UniformSizes lo hi) s = ([UniformSize lo hi], s)"

fun sample_payload :: "'r rng_api \<Rightarrow> PayloadSizeSource \<Rightarrow> 'r \<Rightarrow> (nat \<times> 'r) option" where
  "sample_payload R (FixedSize n) s = Some (n, s)"
| "sample_payload R (UniformSize lo hi) s = (if lo \<le> hi then Some (gen_range R lo hi s) else None)"

fun phase_label :: "PayloadSizeSource \<Rightarrow> string" where
  "phase_label (FixedSize n) = ''payload '' @ show_nat n @ '' B''"
| "phase_label (UniformSize lo hi) = ''payload range '' @ show_range lo hi @ '' B''"

fun collect_results :: "'a result list \<Rightarrow> 'a list result" where
  "collect_results [] = Inr []"
| "collect_results (Inl e # rs) = Inl e"
| "collect_results (Inr x # rs) = map_sum id ((#) x) (collect_results rs)"

definition payload_sizes_from_str :: "string \<Rightarrow> PayloadSizes result" where
  "payload_sizes_from_str value =
     (case parse_uniform_range value ''--payload-sizes'' of
        Inl e \<Rightarrow> Inl e
      | Inr (Some (lo, hi)) \<Rightarrow> Inr (UniformSizes lo hi)
      | Inr None \<Rightarrow>
          (case collect_results (map (\<lambda>size. parse_usize size ''--payload-sizes'') (split_on CHR '','' value)) of
             Inl e \<Rightarrow> Inl e
           | Inr sizes \<Rightarrow>
               if sizes = [] then Inl ''--payload-sizes requires at least one size'' else Inr (FixedSizes sizes)))"

fun show_payload_sizes :: "PayloadSizes \<Rightarrow> string" where
  "show_payload_sizes (FixedSizes sizes) = join '','' (map show_nat sizes)"
| "show_payload_sizes (UniformSizes lo hi) = show_range lo hi"

section \<open>Order of the plateaus and failure policy\<close>

datatype PlateauOrder = Staircase | Ascending | Randomized

definition plateau_order_from_str :: "string \<Rightarrow> PlateauOrder result" where
  "plateau_order_from_str value =
     (let v = to_ascii_lowercase (trim value)
      in if v = ''staircase'' then Inr Staircase
         else if v = ''ascending'' \<or> v = ''asc'' then Inr Ascending
         else if v = ''randomized'' \<or> v = ''random'' then Inr Randomized
         else Inl (''--plateau-order expected '' @ quoted ''staircase'' @ '', '' @ quoted ''ascending'' @ '', or '' @
                   quoted ''randomized'' @ '', got '' @ quoted v))"

fun show_plateau_order :: "PlateauOrder \<Rightarrow> string" where
  "show_plateau_order Staircase = ''staircase''"
| "show_plateau_order Ascending = ''ascending''"
| "show_plateau_order Randomized = ''randomized''"

datatype ProfiledFailurePolicy = StopOnProfiledFailure | RemoveAndContinue

definition failure_policy_from_str :: "string \<Rightarrow> ProfiledFailurePolicy result" where
  "failure_policy_from_str value =
     (if value = ''stop-on-profiled-failure'' then Inr StopOnProfiledFailure
      else if value = ''remove-and-continue'' then Inr RemoveAndContinue
      else Inl (''invalid profiled failure policy '' @ quoted value @
                ''; expected stop-on-profiled-failure or remove-and-continue''))"

text \<open>The policy is kept in a byte-sized atomic: 1 is \<open>RemoveAndContinue\<close>, everything else the default.\<close>

fun store_profiled_failure_policy :: "ProfiledFailurePolicy \<Rightarrow> u8" where
  "store_profiled_failure_policy StopOnProfiledFailure = 0"
| "store_profiled_failure_policy RemoveAndContinue = 1"

definition profiled_failure_policy :: "u8 \<Rightarrow> ProfiledFailurePolicy" where
  "profiled_failure_policy stored = (if stored = 1 then RemoveAndContinue else StopOnProfiledFailure)"

definition should_continue_after_profiled_failure :: "bool \<Rightarrow> u8 \<Rightarrow> bool" where
  "should_continue_after_profiled_failure failure_experiment_mode stored =
     (failure_experiment_mode \<or> profiled_failure_policy stored = RemoveAndContinue)"

section \<open>Workers\<close>

datatype ContainerMode = Singleton | Packed

record WorkerSpec =
  ws_id :: string
  ws_url :: string
  ws_command_url :: string
  ws_health_url :: string
  ws_physical_worker_id :: string
  ws_container_mode :: ContainerMode
  ws_profile_enabled :: bool
  ws_device_kind :: string

definition worker_spec_legacy :: "string \<Rightarrow> string \<Rightarrow> WorkerSpec" where
  "worker_spec_legacy worker url =
     \<lparr>ws_id = worker, ws_url = url, ws_command_url = trim_end_with (\<lambda>c. c = CHR ''/'') url @ ''/command'',
      ws_health_url = trim_end_with (\<lambda>c. c = CHR ''/'') url @ ''/health'', ws_physical_worker_id = worker,
      ws_container_mode = Singleton, ws_profile_enabled = True, ws_device_kind = ''''\<rparr>"

definition parse_worker_spec :: "string \<Rightarrow> WorkerSpec result" where
  "parse_worker_spec raw =
     (case split_once ''='' raw of
        None \<Rightarrow> Inl (''Invalid worker '' @ quoted raw @ '', expected ID=URL'')
      | Some (id_part, url_part) \<Rightarrow>
          let worker = trim id_part; url = trim_end_with (\<lambda>c. c = CHR ''/'') (trim url_part)
          in if worker = [] then Inl (''Worker id cannot be empty in '' @ quoted raw)
             else if url = [] then Inl (''Worker url cannot be empty in '' @ quoted raw)
             else Inr (worker_spec_legacy worker url))"

fun parse_worker_specs_loop :: "string list \<Rightarrow> WorkerSpec list \<Rightarrow> WorkerSpec list result" where
  "parse_worker_specs_loop [] workers = Inr workers"
| "parse_worker_specs_loop (raw # raws) workers =
     (case parse_worker_spec raw of
        Inl e \<Rightarrow> Inl e
      | Inr spec \<Rightarrow>
          if list_ex (\<lambda>w. ws_id w = ws_id spec) workers then Inl (''Duplicate worker id '' @ quoted (ws_id spec))
          else parse_worker_specs_loop raws (workers @ [spec]))"

definition parse_worker_specs :: "string list \<Rightarrow> WorkerSpec list result" where
  "parse_worker_specs raw_specs =
     (case parse_worker_specs_loop raw_specs [] of
        Inl e \<Rightarrow> Inl e
      | Inr workers \<Rightarrow> if workers = [] then Inl ''At least one worker must be provided'' else Inr workers)"

definition is_external_device :: "WorkerSpec \<Rightarrow> bool" where
  "is_external_device w = (ws_device_kind w \<noteq> [] \<and> ws_device_kind w \<noteq> ''scratch_container'')"

section \<open>Checks before a run\<close>

definition validate_run_id :: "string \<Rightarrow> unit result" where
  "validate_run_id run_id =
     (if run_id = [] then Inl ''Run ID must not be empty''
      else if run_id = ''/'' \<or> run_id = ''.'' \<or> run_id = ''..'' then Inl (''Run ID must not be '' @ quoted run_id)
      else if CHR ''/'' \<in> set run_id then Inl (''Run ID must not contain '' @ quoted ''/'')
      else if \<not> list_all (\<lambda>c. is_ascii_alphanumeric c \<or> c = CHR ''.'' \<or> c = CHR ''_'' \<or> c = CHR ''-'') run_id then
        Inl (''Run ID must only contain [A-Za-z0-9._-], got '' @ quoted run_id)
      else Inr ())"

text \<open>The fields of the configuration that the checks and the planning of the group sizes read.\<close>

record StaircaseConfig =
  sc_workers :: "WorkerSpec list"
  sc_min_size :: nat
  sc_max_size :: "nat option"
  sc_step_size :: StepSize
  sc_roundtrips :: nat
  sc_payload_sizes :: PayloadSizes
  sc_plateau_order :: PlateauOrder
  sc_plateau_sizes :: "nat list"
  sc_external_coverage_lane :: bool
  sc_min_profiled_samples_per_operation :: nat
  sc_profile_only_singletons :: bool
  sc_scenario_seed :: u64
  sc_remove_rejoin :: bool
  sc_fill_tree_before_measure :: bool

definition show_sizes :: "nat list \<Rightarrow> string" where
  "show_sizes sizes = ''['' @ join '', '' (map show_nat sizes) @ '']''"

definition validate_plateau_sizes :: "StaircaseConfig \<Rightarrow> nat \<Rightarrow> nat result" where
  "validate_plateau_sizes config max_size =
     (let sizes = sc_plateau_sizes config
      in if sizes = [] then Inr max_size
         else if sc_plateau_order config \<noteq> Ascending then Inl ''--plateau-sizes requires --plateau-order ascending''
         else if list_ex (\<lambda>size. size = 0) sizes then Inl ''--plateau-sizes values must be at least 1''
         else if list_ex (\<lambda>(a, b). b \<le> a) (zip sizes (tl sizes)) then
           Inl (''--plateau-sizes must be strictly increasing; got '' @ show_sizes sizes)
         else if hd sizes < sc_min_size config \<or> max_size < last sizes then
           Inl (''--plateau-sizes '' @ show_sizes sizes @ '' must stay within --min-size '' @ show_nat (sc_min_size config) @
                '' and --max-size '' @ show_nat max_size)
         else Inr max_size)"

definition validate_config :: "StaircaseConfig \<Rightarrow> nat \<Rightarrow> nat result" where
  "validate_config config worker_count =
     (if sc_min_size config = 0 then Inl ''--min-size must be at least 1''
      else if \<not> step_is_valid (sc_step_size config) then Inl ''--step-size must be at least 1''
      else if sc_roundtrips config = 0 then Inl ''--roundtrips must be at least 1''
      else if payload_is_empty (sc_payload_sizes config) then Inl ''At least one payload size is required''
      else if 0 < sc_min_profiled_samples_per_operation config \<and>
              (\<not> sc_external_coverage_lane config \<or>
               \<not> list_ex (\<lambda>w. ws_profile_enabled w \<and> is_external_device w) (sc_workers config)) then
        Inl (''--min-external-samples-per-operation requires --external-coverage-lane and at least one '' @
             ''profile-enabled external device'')
      else if sc_fill_tree_before_measure config \<and> sc_remove_rejoin config then
        Inl ''--fill-tree-before-measure cannot be combined with --remove-rejoin (no update phase)''
      else if sc_fill_tree_before_measure config \<and> list_ex is_external_device (sc_workers config) then
        Inl ''--fill-tree-before-measure is not supported with external devices''
      else
        (let max_size = (case sc_max_size config of Some m \<Rightarrow> m | None \<Rightarrow> worker_count)
         in if max_size = 0 then Inl ''--max-size must be at least 1''
            else if worker_count < max_size then
              Inl (''--max-size '' @ show_nat max_size @ '' exceeds number of supplied workers '' @ show_nat worker_count)
            else if max_size < sc_min_size config then
              Inl (''--min-size '' @ show_nat (sc_min_size config) @ '' cannot exceed --max-size '' @ show_nat max_size)
            else validate_plateau_sizes config max_size))"


section \<open>What is printed is read back\<close>

lemma parse_usize_show: "n \<le> usize_max \<Longrightarrow> parse_usize (show_nat n) flag = Inr n"
  by (simp add: parse_usize_def parse_uint_show_nat)

lemma not_digits: "\<not> is_ascii_digit CHR ''[''" "\<not> is_ascii_digit CHR '']''" "\<not> is_ascii_digit CHR '',''"
  by (simp_all add: is_ascii_digit_def)

lemmas show_nat_plain = not_digits [THEN show_nat_no_char]

lemma parse_uniform_range_show:
  assumes "lo \<le> hi" and "hi \<le> usize_max"
  shows "parse_uniform_range (show_range lo hi) flag = Inr (Some (lo, hi))"
proof -
  have t: "trim (show_range lo hi) = show_range lo hi"
    by (rule trim_id) (simp_all add: show_range_def is_ws_def)
  have "butlast (tl (show_range lo hi)) = show_nat lo @ CHR '','' # show_nat hi"
    by (simp add: show_range_def butlast_append)
  then have "split_on CHR '','' (butlast (tl (show_range lo hi))) = [show_nat lo, show_nat hi]"
    by (simp add: split_on_append split_on_no_sep show_nat_plain)
  moreover have "prefix ''['' (show_range lo hi)" "suffix '']'' (show_range lo hi)"
    by (auto simp: show_range_def suffix_def)
  ultimately show ?thesis using assms
    by (simp add: parse_uniform_range_def Let_def t parse_usize_show) (simp add: show_range_def)
qed

lemma parse_uniform_range_plain:
  assumes "CHR ''['' \<notin> set s" and "CHR '']'' \<notin> set s"
  shows "parse_uniform_range s flag = Inr None"
proof -
  have "set (trim s) \<subseteq> set s"
    by (auto simp: trim_def trim_end_with_def trim_start_def dest!: set_dropWhileD)
  then show ?thesis using assms by (auto simp: parse_uniform_range_def Let_def)
qed

text \<open>A step size that can be sampled: positive, and a range is not empty.\<close>

fun step_ok :: "StepSize \<Rightarrow> bool" where
  "step_ok (FixedStep n) = (0 < n \<and> n \<le> usize_max)"
| "step_ok (UniformStep lo hi) = (0 < lo \<and> lo \<le> hi \<and> hi \<le> usize_max)"

fun sizes_ok :: "PayloadSizes \<Rightarrow> bool" where
  "sizes_ok (FixedSizes sizes) = (sizes \<noteq> [] \<and> list_all (\<lambda>n. n \<le> usize_max) sizes)"
| "sizes_ok (UniformSizes lo hi) = (lo \<le> hi \<and> hi \<le> usize_max)"

lemma step_size_round_trip: "step_ok st \<Longrightarrow> step_size_from_str (show_step_size st) = Inr st"
  by (cases st) (simp_all add: step_size_from_str_def parse_uniform_range_show parse_uniform_range_plain show_nat_plain parse_usize_show)

lemma parse_usize_le: "parse_usize s flag = Inr n \<Longrightarrow> n \<le> usize_max"
  by (auto simp: parse_usize_def Let_def parse_uint_le split: if_splits option.splits)

lemma parse_uniform_range_ok:
  assumes "parse_uniform_range s flag = Inr (Some (lo, hi))"
  shows "lo \<le> hi" and "hi \<le> usize_max"
  using assms by (auto simp: parse_uniform_range_def Let_def parse_usize_le split: if_splits list.splits sum.splits)

lemma step_size_from_str_ok: "step_size_from_str s = Inr st \<Longrightarrow> step_ok st"
  by (auto simp: step_size_from_str_def parse_usize_le parse_uniform_range_ok split: if_splits option.splits sum.splits)

lemma collect_results_cong: "(\<And>x. x \<in> set xs \<Longrightarrow> g x = Inr (f x)) \<Longrightarrow> collect_results (map g xs) = Inr (map f xs)"
  by (induction xs) auto

lemma collect_results_set: "collect_results rs = Inr xs \<Longrightarrow> x \<in> set xs \<Longrightarrow> Inr x \<in> set rs"
proof (induction rs arbitrary: xs rule: collect_results.induct)
  case (3 y rs)
  then show ?case by (cases "collect_results rs") auto
qed auto

lemma collected_usize:
  assumes "collect_results (map (\<lambda>w. parse_usize w flag) ws) = Inr xs" and "n \<in> set xs"
  shows "n \<le> usize_max"
  using collect_results_set [OF assms] parse_usize_le by (metis (no_types, lifting) imageE list.set_map)

lemma payload_sizes_from_str_ok: "payload_sizes_from_str s = Inr ps \<Longrightarrow> sizes_ok ps"
  by (auto simp: payload_sizes_from_str_def list_all_iff parse_uniform_range_ok
      dest: collected_usize split: if_splits option.splits sum.splits)

lemma join_chars: "c \<in> set (join sep ws) \<Longrightarrow> c \<in> set sep \<or> (\<exists>w \<in> set ws. c \<in> set w)"
  by (induction sep ws rule: join.induct) auto

lemma payload_sizes_round_trip: "sizes_ok ps \<Longrightarrow> payload_sizes_from_str (show_payload_sizes ps) = Inr ps"
proof (cases ps)
  case (FixedSizes sizes)
  assume ok: "sizes_ok ps"
  let ?s = "join '','' (map show_nat sizes)"
  have plain: "CHR ''['' \<notin> set ?s" "CHR '']'' \<notin> set ?s"
    using show_nat_plain by (auto dest!: join_chars)
  have split: "split_on CHR '','' ?s = map show_nat sizes"
    by (rule split_on_join) (use ok FixedSizes show_nat_plain in auto)
  have "collect_results (map (\<lambda>size. parse_usize size ''--payload-sizes'') (map show_nat sizes)) = Inr sizes"
    unfolding map_map by (rule trans [OF collect_results_cong [where f = id]])
      (use ok FixedSizes in \<open>auto simp: parse_usize_show list_all_iff\<close>)
  then show ?thesis using ok FixedSizes
    by (simp add: payload_sizes_from_str_def parse_uniform_range_plain [OF plain] split)
next
  case (UniformSizes lo hi)
  assume "sizes_ok ps"
  then show ?thesis using UniformSizes by (simp add: payload_sizes_from_str_def parse_uniform_range_show)
qed

text \<open>
  Every step size and every choice of payload sizes the command line accepts can be sampled, and its printed form is
  read back as the same setting.
\<close>

theorem settings_round_trip:
  assumes "step_size_from_str a = Inr st" and "payload_sizes_from_str b = Inr ps"
  shows "step_is_valid st \<and> sample_step R st s \<noteq> None \<and> step_size_from_str (show_step_size st) = Inr st \<and>
         \<not> payload_is_empty ps \<and> payload_sizes_from_str (show_payload_sizes ps) = Inr ps"
proof -
  have st: "step_ok st" and ps: "sizes_ok ps"
    using assms by (auto intro: step_size_from_str_ok payload_sizes_from_str_ok)
  have "step_is_valid st" "sample_step R st s \<noteq> None" using st by (cases st; simp)+
  moreover have "\<not> payload_is_empty ps" using ps by (cases ps) auto
  ultimately show ?thesis using st ps by (simp add: step_size_round_trip payload_sizes_round_trip)
qed

theorem settings_round_trip_witness:
  "sample_step plain_rng (UniformStep 2 15) () \<noteq> None \<and>
   step_size_from_str ''[2,15]'' = Inr (UniformStep 2 15) \<and>
   payload_sizes_from_str ''32,1024'' = Inr (FixedSizes [32, 1024])"
proof -
  have shown: "show_step_size (UniformStep 2 15) = ''[2,15]''" "show_payload_sizes (FixedSizes [32, 1024]) = ''32,1024''"
    by (simp_all add: show_range_def show_nat.simps digit_char_def char_of_def bit_Suc_0_iff)
  have a: "step_size_from_str ''[2,15]'' = Inr (UniformStep 2 15)"
    unfolding shown(1) [symmetric] by (rule step_size_round_trip) (simp add: usize_max_def)
  have b: "payload_sizes_from_str ''32,1024'' = Inr (FixedSizes [32, 1024])"
    unfolding shown(2) [symmetric] by (rule payload_sizes_round_trip) (simp add: usize_max_def)
  show ?thesis using settings_round_trip [OF a b, of plain_rng "()"] a b by blast
qed

text \<open>What a validated configuration guarantees.\<close>

lemma increasing_pairs: "\<not> list_ex (\<lambda>(a, b). b \<le> (a :: nat)) (zip xs (tl xs)) \<Longrightarrow> sorted_wrt (<) xs"
proof (induction xs)
  case (Cons x xs)
  then show ?case by (cases xs) auto
qed simp

lemma sorted_between: "sorted_wrt (<) (xs :: nat list) \<Longrightarrow> x \<in> set xs \<Longrightarrow> hd xs \<le> x \<and> x \<le> last xs"
  by (induction xs) (auto split: if_splits intro: less_imp_le)

lemma validate_config_ok:
  assumes "validate_config config worker_count = Inr max_size"
  shows "0 < sc_min_size config" "sc_min_size config \<le> max_size" "max_size \<le> worker_count" "0 < sc_roundtrips config"
    and "\<not> payload_is_empty (sc_payload_sizes config)" "step_is_valid (sc_step_size config)"
    and "sorted_wrt (<) (sc_plateau_sizes config)"
    and "set (sc_plateau_sizes config) \<subseteq> {sc_min_size config .. max_size}"
proof -
  show "0 < sc_min_size config" "sc_min_size config \<le> max_size" "max_size \<le> worker_count" "0 < sc_roundtrips config"
    "\<not> payload_is_empty (sc_payload_sizes config)" "step_is_valid (sc_step_size config)"
    using assms by (auto simp: validate_config_def validate_plateau_sizes_def Let_def split: if_splits option.splits)
  have v: "validate_plateau_sizes config max_size = Inr max_size"
    using assms by (auto simp: validate_config_def validate_plateau_sizes_def Let_def split: if_splits option.splits)
  show sorted: "sorted_wrt (<) (sc_plateau_sizes config)"
    using v increasing_pairs by (cases "sc_plateau_sizes config = []") (auto simp: validate_plateau_sizes_def Let_def split: if_splits)
  show "set (sc_plateau_sizes config) \<subseteq> {sc_min_size config .. max_size}"
  proof (cases "sc_plateau_sizes config = []")
    case False
    then have b: "sc_min_size config \<le> hd (sc_plateau_sizes config)" "last (sc_plateau_sizes config) \<le> max_size"
      using v by (auto simp: validate_plateau_sizes_def Let_def split: if_splits)
    then show ?thesis using sorted_between [OF sorted] by force
  qed simp
qed

end
