(* ===== verification/Staircase_Plan.thy ===== *)
theory Staircase_Plan
  imports Staircase_Config
begin

text \<open>
  How the benchmark runner plans a run (\<^verbatim>\<open>src/OpenMLS_containerized/src/staircase_runner.rs\<close>): the sequence of group
  sizes it visits. A loop that may
  run forever is a partial function: \<open>None\<close> is a loop that does not end or a panic.
\<close>

section \<open>The sequence of group sizes\<close>

text \<open>\<^verbatim>\<open>if sizes.last().copied() != Some(size) { sizes.push(size) }\<close>\<close>

definition push_changed :: "'a list \<Rightarrow> 'a \<Rightarrow> 'a list" where
  "push_changed xs x = (if xs \<noteq> [] \<and> last xs = x then xs else xs @ [x])"

partial_function (option) stepped_loop :: "nat \<Rightarrow> nat \<Rightarrow> nat \<Rightarrow> nat list \<Rightarrow> nat list option" where
  "stepped_loop max_size step_size current sizes =
     (if current < max_size then
        (let next_size = min (usize_saturating_add current step_size) max_size
         in stepped_loop max_size step_size next_size (push_changed sizes next_size))
      else Some sizes)"

definition stepped_sizes :: "nat \<Rightarrow> nat \<Rightarrow> nat \<Rightarrow> nat list option" where
  "stepped_sizes min_size max_size step_size = stepped_loop max_size step_size min_size [min_size]"

definition push_all_changed :: "'a list \<Rightarrow> 'a list \<Rightarrow> 'a list" where
  "push_all_changed = foldl push_changed"

definition build_plateau_sequence :: "nat \<Rightarrow> nat \<Rightarrow> nat \<Rightarrow> nat \<Rightarrow> nat list option" where
  "build_plateau_sequence min_size max_size step_size roundtrips =
     map_option
       (\<lambda>ascent. ((\<lambda>sequence. push_all_changed (push_all_changed sequence ascent) (tl (rev ascent))) ^^ roundtrips) [])
       (stepped_sizes min_size max_size step_size)"

partial_function (option) ascend_loop ::
  "'r rng_api \<Rightarrow> nat \<Rightarrow> StepSize \<Rightarrow> nat \<Rightarrow> nat list \<Rightarrow> 'r \<Rightarrow> (nat \<times> nat list \<times> 'r) option" where
  "ascend_loop R max_size step_size current sequence s =
     (if current < max_size then
        (case sample_step R step_size s of
           None \<Rightarrow> None
         | Some (d, s1) \<Rightarrow>
             (let current = min (usize_saturating_add current d) max_size
              in ascend_loop R max_size step_size current (push_changed sequence current) s1))
      else Some (current, sequence, s))"

partial_function (option) descend_loop ::
  "'r rng_api \<Rightarrow> nat \<Rightarrow> StepSize \<Rightarrow> nat \<Rightarrow> nat list \<Rightarrow> 'r \<Rightarrow> (nat \<times> nat list \<times> 'r) option" where
  "descend_loop R min_size step_size current sequence s =
     (if min_size < current then
        (case sample_step R step_size s of
           None \<Rightarrow> None
         | Some (d, s1) \<Rightarrow>
             (let current = max (current - d) min_size
              in descend_loop R min_size step_size current (push_changed sequence current) s1))
      else Some (current, sequence, s))"

declare stepped_loop.simps [simp del] ascend_loop.simps [simp del] descend_loop.simps [simp del]

fun roundtrip_loop ::
  "'r rng_api \<Rightarrow> nat \<Rightarrow> nat \<Rightarrow> StepSize \<Rightarrow> nat \<Rightarrow> nat \<Rightarrow> nat list \<Rightarrow> 'r \<Rightarrow> (nat list \<times> 'r) option" where
  "roundtrip_loop R min_size max_size step_size 0 current sequence s = Some (sequence, s)"
| "roundtrip_loop R min_size max_size step_size (Suc n) current sequence s =
     (case ascend_loop R max_size step_size current (push_changed sequence current) s of
        None \<Rightarrow> None
      | Some (highest, up, s1) \<Rightarrow>
          (case descend_loop R min_size step_size highest up s1 of
             None \<Rightarrow> None
           | Some (lowest, down, s2) \<Rightarrow> roundtrip_loop R min_size max_size step_size n lowest down s2))"

definition build_plateau_sequence_for_step_size ::
  "'r rng_api \<Rightarrow> nat \<Rightarrow> nat \<Rightarrow> StepSize \<Rightarrow> nat \<Rightarrow> 'r \<Rightarrow> (nat list \<times> 'r) option" where
  "build_plateau_sequence_for_step_size R min_size max_size step_size roundtrips s =
     (case step_size of
        FixedStep n \<Rightarrow> map_option (\<lambda>sequence. (sequence, s)) (build_plateau_sequence min_size max_size n roundtrips)
      | UniformStep _ _ \<Rightarrow> roundtrip_loop R min_size max_size step_size roundtrips min_size [] s)"

definition build_ascending_plateau_sequence_for_step_size ::
  "'r rng_api \<Rightarrow> nat \<Rightarrow> nat \<Rightarrow> StepSize \<Rightarrow> 'r \<Rightarrow> (nat list \<times> 'r) option" where
  "build_ascending_plateau_sequence_for_step_size R min_size max_size step_size s =
     (case step_size of
        FixedStep n \<Rightarrow> map_option (\<lambda>sequence. (sequence, s)) (stepped_sizes min_size max_size n)
      | UniformStep _ _ \<Rightarrow> map_option snd (ascend_loop R max_size step_size min_size (push_changed [] min_size) s))"

fun randomized_rounds :: "'r rng_api \<Rightarrow> nat list \<Rightarrow> nat \<Rightarrow> nat list \<Rightarrow> 'r \<Rightarrow> nat list \<times> 'r" where
  "randomized_rounds R candidates 0 sequence s = (sequence, s)"
| "randomized_rounds R candidates (Suc n) sequence s =
     (case shuffle R candidates s of
        (randomized, s1) \<Rightarrow>
          (let rotated = (if 1 < length randomized \<and> sequence \<noteq> [] \<and> last sequence = hd randomized
                          then rotate1 randomized else randomized)
           in randomized_rounds R candidates n (push_all_changed sequence rotated) s1))"

definition build_plateau_sequence_for_order ::
  "'r rng_api \<Rightarrow> nat \<Rightarrow> nat \<Rightarrow> StepSize \<Rightarrow> nat \<Rightarrow> PlateauOrder \<Rightarrow> 'r \<Rightarrow> (nat list \<times> 'r) option" where
  "build_plateau_sequence_for_order R min_size max_size step_size roundtrips plateau_order s =
     (case plateau_order of
        Staircase \<Rightarrow> build_plateau_sequence_for_step_size R min_size max_size step_size roundtrips s
      | Ascending \<Rightarrow> build_ascending_plateau_sequence_for_step_size R min_size max_size step_size s
      | Randomized \<Rightarrow>
          (case ascend_loop R max_size step_size min_size [min_size] s of
             None \<Rightarrow> None
           | Some (_, candidates, s1) \<Rightarrow> Some (randomized_rounds R candidates roundtrips [] s1)))"


definition protected_member_floor :: "WorkerSpec list \<Rightarrow> bool \<Rightarrow> bool \<Rightarrow> nat" where
  "protected_member_floor workers protect_profile_enabled_members protect_external_members =
     length (remdups
       ((if protect_profile_enabled_members then map ws_id (filter ws_profile_enabled workers) else []) @
        (if protect_external_members then map ws_id (filter is_external_device workers) else [])))"

definition effective_min_size :: "StaircaseConfig \<Rightarrow> nat" where
  "effective_min_size config =
     max (sc_min_size config)
       (protected_member_floor (sc_workers config) (sc_profile_only_singletons config) (sc_external_coverage_lane config))"

text \<open>The part of \<^verbatim>\<open>run_staircase_benchmark_async\<close> that fixes the sizes to visit.\<close>

definition plan_plateaus :: "'r rng_api \<Rightarrow> StaircaseConfig \<Rightarrow> (nat list \<times> 'r) result option" where
  "plan_plateaus R config =
     (case validate_config config (length (sc_workers config)) of
        Inl e \<Rightarrow> Some (Inl e)
      | Inr max_size \<Rightarrow>
          (let s = seed_from_u64 R (sc_scenario_seed config); min_size = effective_min_size config
           in if max_size < min_size then
                Some (Inl (''protected calibration members require min-size '' @ show_nat min_size @
                           '', but max-size is '' @ show_nat max_size))
              else if sc_plateau_sizes config \<noteq> [] \<and> hd (sc_plateau_sizes config) < min_size then
                Some (Inl (''explicit --plateau-sizes starts below protected minimum '' @ show_nat min_size @ ''; got '' @
                           show_sizes (sc_plateau_sizes config)))
              else if sc_plateau_sizes config = [] then
                map_option Inr (build_plateau_sequence_for_order R min_size max_size (sc_step_size config)
                  (sc_roundtrips config) (sc_plateau_order config) s)
              else Some (Inr (sc_plateau_sizes config, s))))"

section \<open>What the sequences look like\<close>

fun step_max :: "StepSize \<Rightarrow> nat" where
  "step_max (FixedStep n) = n"
| "step_max (UniformStep lo hi) = hi"

fun rises :: "nat \<Rightarrow> nat \<Rightarrow> nat list \<Rightarrow> bool" where
  "rises m a [] = True"
| "rises m a (b # bs) = (a < b \<and> b \<le> a + m \<and> rises m b bs)"

fun falls :: "nat \<Rightarrow> nat \<Rightarrow> nat list \<Rightarrow> bool" where
  "falls m a [] = True"
| "falls m a (b # bs) = (b < a \<and> a \<le> b + m \<and> falls m b bs)"

text \<open>After \<open>a\<close> the sizes of \<open>u\<close> rise (fall) in steps of at most \<open>m\<close> and end at \<open>b\<close>.\<close>

definition climb :: "nat \<Rightarrow> nat \<Rightarrow> nat \<Rightarrow> nat list \<Rightarrow> bool" where
  "climb m a b u = (rises m a u \<and> last (a # u) = b)"

definition descent :: "nat \<Rightarrow> nat \<Rightarrow> nat \<Rightarrow> nat list \<Rightarrow> bool" where
  "descent m a b u = (falls m a u \<and> last (a # u) = b)"

definition staircase :: "nat \<Rightarrow> nat \<Rightarrow> nat \<Rightarrow> nat \<Rightarrow> nat list \<Rightarrow> bool" where
  "staircase m lo hi n sequence =
     (\<exists>legs. length legs = n \<and> sequence = lo # concat (map (\<lambda>(u, d). u @ d) legs) \<and>
             (\<forall>(u, d) \<in> set legs. climb m lo hi u \<and> descent m hi lo d))"

definition random_rounds :: "nat \<Rightarrow> nat \<Rightarrow> nat \<Rightarrow> nat \<Rightarrow> nat list \<Rightarrow> bool" where
  "random_rounds m lo hi n sequence =
     (\<exists>u rounds. climb m lo hi u \<and> length rounds = n \<and> (\<forall>r \<in> set rounds. mset r = mset (lo # u)) \<and>
                 distinct_adj sequence \<and> sequence = (if lo = hi then [lo] else concat rounds))"

fun plateaus_ok :: "PlateauOrder \<Rightarrow> nat \<Rightarrow> nat \<Rightarrow> nat \<Rightarrow> nat \<Rightarrow> nat list \<Rightarrow> bool" where
  "plateaus_ok Staircase m lo hi n sequence = staircase m lo hi n sequence"
| "plateaus_ok Ascending m lo hi n sequence = (\<exists>u. sequence = lo # u \<and> climb m lo hi u)"
| "plateaus_ok Randomized m lo hi n sequence = random_rounds m lo hi n sequence"

lemma rises_distinct: "rises m a u \<Longrightarrow> distinct_adj (a # u)"
  by (induction m a u rule: rises.induct) auto

lemma falls_distinct: "falls m a u \<Longrightarrow> distinct_adj (a # u)"
  by (induction m a u rule: falls.induct) auto

lemma push_changed_new: "last xs \<noteq> x \<Longrightarrow> push_changed xs x = xs @ [x]"
  by (simp add: push_changed_def)

lemma push_all_distinct: "xs \<noteq> [] \<Longrightarrow> distinct_adj (last xs # ys) \<Longrightarrow> push_all_changed xs ys = xs @ ys"
  by (induction ys arbitrary: xs) (auto simp: push_all_changed_def push_changed_def)

lemma next_size:
  assumes "cur < hi" and "hi \<le> usize_max" and "0 < d"
  shows "cur < min (usize_saturating_add cur d) hi" "min (usize_saturating_add cur d) hi \<le> cur + d"
    and "min (usize_saturating_add cur d) hi \<le> hi"
  using assms by (auto simp: usize_saturating_add_def)

lemma sample_step_bounds:
  assumes "rng_ok R" and "step_ok st"
  obtains d s' where "sample_step R st s = Some (d, s')" "0 < d" "d \<le> step_max st"
proof (cases st)
  case (UniformStep lo hi)
  obtain v s' where g: "gen_range R lo hi s = (v, s')" by (cases "gen_range R lo hi s")
  have "lo \<le> v \<and> v \<le> hi" using gen_range_bounds [OF assms(1) _ g] assms(2) UniformStep by simp
  then show ?thesis using that [of v s'] g assms(2) UniformStep by simp
qed (use that assms(2) in auto)

lemma ascend_loop_climbs:
  assumes "rng_ok R" and "step_ok st" and "hi \<le> usize_max" and "cur \<le> hi" and "sequence \<noteq> []" and "last sequence = cur"
  shows "\<exists>u s'. ascend_loop R hi st cur sequence s = Some (hi, sequence @ u, s') \<and> climb (step_max st) cur hi u"
  using assms(4-)
proof (induction "hi - cur" arbitrary: cur sequence s rule: less_induct)
  case less
  show ?case
  proof (cases "cur < hi")
    case False
    then show ?thesis using less.prems by (subst ascend_loop.simps) (simp add: climb_def)
  next
    case True
    obtain d s1 where d: "sample_step R st s = Some (d, s1)" "0 < d" "d \<le> step_max st"
      using sample_step_bounds [OF assms(1,2)] by blast
    let ?c = "min (usize_saturating_add cur d) hi"
    note c = next_size [OF True assms(3) d(2)]
    have p: "push_changed sequence ?c = sequence @ [?c]" by (rule push_changed_new) (use c(1) less.prems(3) in linarith)
    have "hi - ?c < hi - cur" using c(1) True by linarith
    from less.hyps [OF this c(3), of "sequence @ [?c]" s1] obtain u s' where
      u: "ascend_loop R hi st ?c (sequence @ [?c]) s1 = Some (hi, (sequence @ [?c]) @ u, s')" "climb (step_max st) ?c hi u" by auto
    have "climb (step_max st) cur hi (?c # u)" using u(2) c(1,2) d(3) by (simp add: climb_def)
    moreover have "ascend_loop R hi st cur sequence s = Some (hi, sequence @ ?c # u, s')"
      by (subst ascend_loop.simps) (simp add: True d(1) Let_def p u(1) del: min_less_iff_conj)
    ultimately show ?thesis by blast
  qed
qed

lemma descend_loop_falls:
  assumes "rng_ok R" and "step_ok st" and "lo \<le> cur" and "sequence \<noteq> []" and "last sequence = cur"
  shows "\<exists>u s'. descend_loop R lo st cur sequence s = Some (lo, sequence @ u, s') \<and> descent (step_max st) cur lo u"
  using assms(3-)
proof (induction "cur - lo" arbitrary: cur sequence s rule: less_induct)
  case less
  show ?case
  proof (cases "lo < cur")
    case False
    then show ?thesis using less.prems by (subst descend_loop.simps) (simp add: descent_def)
  next
    case True
    obtain d s1 where d: "sample_step R st s = Some (d, s1)" "0 < d" "d \<le> step_max st"
      using sample_step_bounds [OF assms(1,2)] by blast
    let ?c = "max (cur - d) lo"
    have c: "?c < cur" "cur \<le> ?c + d" "lo \<le> ?c" using True d(2) by auto
    have p: "push_changed sequence ?c = sequence @ [?c]" by (rule push_changed_new) (use c(1) less.prems(3) in linarith)
    have "?c - lo < cur - lo" using c(1) True by linarith
    from less.hyps [OF this c(3), of "sequence @ [?c]" s1] obtain u s' where
      u: "descend_loop R lo st ?c (sequence @ [?c]) s1 = Some (lo, (sequence @ [?c]) @ u, s')" "descent (step_max st) ?c lo u" by auto
    have "descent (step_max st) cur lo (?c # u)" using u(2) c(1,2) d(3) by (simp add: descent_def)
    moreover have "descend_loop R lo st cur sequence s = Some (lo, sequence @ ?c # u, s')"
      by (subst descend_loop.simps) (simp add: True d(1) Let_def p u(1) del: max_less_iff_conj)
    ultimately show ?thesis by blast
  qed
qed

lemma stepped_loop_ascends:
  assumes "0 < n" and "hi \<le> usize_max" and "cur \<le> hi" and "sequence \<noteq> []" and "last sequence = cur"
  shows "\<exists>u. stepped_loop hi n cur sequence = Some (sequence @ u) \<and> climb n cur hi u"
  using assms(3-)
proof (induction "hi - cur" arbitrary: cur sequence rule: less_induct)
  case less
  show ?case
  proof (cases "cur < hi")
    case False
    then show ?thesis using less.prems by (subst stepped_loop.simps) (simp add: climb_def)
  next
    case True
    let ?c = "min (usize_saturating_add cur n) hi"
    note c = next_size [OF True assms(2,1)]
    have p: "push_changed sequence ?c = sequence @ [?c]" by (rule push_changed_new) (use c(1) less.prems(3) in linarith)
    have "hi - ?c < hi - cur" using c(1) True by linarith
    from less.hyps [OF this c(3), of "sequence @ [?c]"] obtain u where
      u: "stepped_loop hi n ?c (sequence @ [?c]) = Some ((sequence @ [?c]) @ u)" "climb n ?c hi u" by auto
    have "climb n cur hi (?c # u)" using u(2) c(1,2) by (simp add: climb_def)
    moreover have "stepped_loop hi n cur sequence = Some (sequence @ ?c # u)"
      by (subst stepped_loop.simps) (simp add: True Let_def p u(1) del: min_less_iff_conj)
    ultimately show ?thesis by blast
  qed
qed


lemma staircase_more:
  assumes "climb m lo hi u" and "descent m hi lo d" and "staircase m lo hi n sequence"
  shows "staircase m lo hi (Suc n) (sequence @ u @ d)"
proof -
  obtain legs where "length legs = n" "sequence = lo # concat (map (\<lambda>(u, d). u @ d) legs)"
    "\<forall>(u, d) \<in> set legs. climb m lo hi u \<and> descent m hi lo d" using assms(3) by (auto simp: staircase_def)
  then show ?thesis using assms(1,2) unfolding staircase_def by (intro exI [of _ "legs @ [(u, d)]"]) auto
qed

lemma staircase_zero: "staircase m lo hi 0 [lo]"
  by (simp add: staircase_def)

lemma concat_last: "(\<And>x. x \<in> set xs \<Longrightarrow> last (a # x) = a) \<Longrightarrow> last (a # concat xs) = a"
proof (induction xs rule: rev_induct)
  case (snoc x xs)
  then have "last (a # concat xs) = a" "last (a # x) = a" by auto
  then show ?case by (cases "x = []") (auto simp: last_append)
qed simp

lemma staircase_end:
  assumes "staircase m lo hi n sequence"
  shows "sequence \<noteq> []" and "last sequence = lo"
proof -
  obtain legs where l: "sequence = lo # concat (map (\<lambda>(u, d). u @ d) legs)"
    "\<forall>(u, d) \<in> set legs. climb m lo hi u \<and> descent m hi lo d" using assms by (auto simp: staircase_def)
  show "sequence \<noteq> []" using l by simp
  have leg: "last (lo # x) = lo" if x: "x \<in> set (map (\<lambda>(u, d). u @ d) legs)" for x
  proof -
    obtain u d where ud: "x = u @ d" "climb m lo hi u" "descent m hi lo d" using x l(2) by fastforce
    show ?thesis
    proof (cases "d = []")
      case True
      then show ?thesis using ud by (simp add: climb_def descent_def)
    next
      case False
      then show ?thesis using ud by (simp add: descent_def)
    qed
  qed
  show "last sequence = lo" unfolding l(1) by (rule concat_last) (rule leg)
qed

lemma roundtrip_loop_staircase:
  assumes "rng_ok R" and "step_ok st" and "hi \<le> usize_max" and "lo \<le> hi" and "staircase (step_max st) lo hi k sequence"
  shows "\<exists>sequence' s'. roundtrip_loop R lo hi st n lo sequence s = Some (sequence', s') \<and>
           staircase (step_max st) lo hi (k + n) sequence'"
  using assms(5)
proof (induction n arbitrary: k sequence s)
  case (Suc n)
  note e = staircase_end [OF Suc.prems]
  have p: "push_changed sequence lo = sequence" using e by (simp add: push_changed_def)
  obtain u s1 where u: "ascend_loop R hi st lo sequence s = Some (hi, sequence @ u, s1)" "climb (step_max st) lo hi u"
    using ascend_loop_climbs [OF assms(1-4) e] by blast
  have "last (sequence @ u) = hi" using u(2) e by (cases u) (auto simp: climb_def)
  then obtain d s2 where d: "descend_loop R lo st hi (sequence @ u) s1 = Some (lo, (sequence @ u) @ d, s2)"
    "descent (step_max st) hi lo d"
    using descend_loop_falls [where sequence = "sequence @ u" and s = s1, OF assms(1,2,4)] e by blast
  from Suc.IH [OF staircase_more [OF u(2) d(2) Suc.prems]] show ?case by (simp add: p u(1) d(1))
qed simp

lemma roundtrip_loop_first:
  "roundtrip_loop R lo hi st (Suc n) lo [] s = roundtrip_loop R lo hi st (Suc n) lo [lo] s"
  by (simp add: push_changed_def)

lemma falls_snoc: "falls m x (xs @ [y]) \<longleftrightarrow> falls m x xs \<and> y < last (x # xs) \<and> last (x # xs) \<le> y + m"
  by (induction m x xs rule: falls.induct) auto

lemma climb_rev: "climb m a b u \<Longrightarrow> descent m b a (tl (rev (a # u)))"
proof (induction u arbitrary: a)
  case Nil
  then show ?case by (simp add: climb_def descent_def)
next
  case (Cons c u)
  have "tl (rev (a # c # u)) = tl (rev (c # u)) @ [a]" by (cases "rev u") auto
  moreover have "descent m b c (tl (rev (c # u)))" using Cons by (simp add: climb_def)
  ultimately show ?case using Cons.prems by (simp add: climb_def descent_def falls_snoc)
qed

lemma fixed_round:
  assumes "climb m lo hi u" and "descent m hi lo d" and "sequence \<noteq> []" and "last sequence = lo"
  shows "push_all_changed (push_all_changed sequence (lo # u)) d = sequence @ u @ d"
proof -
  have "push_all_changed sequence (lo # u) = push_all_changed sequence u"
    using assms(3,4) by (simp add: push_all_changed_def push_changed_def)
  also have "\<dots> = sequence @ u"
    using assms(1,3,4) by (intro push_all_distinct) (auto simp: climb_def dest: rises_distinct)
  finally have "push_all_changed sequence (lo # u) = sequence @ u" .
  moreover have "last (sequence @ u) = hi" using assms(1,3,4) by (cases u) (auto simp: climb_def)
  then have "push_all_changed (sequence @ u) d = (sequence @ u) @ d"
    using assms(2,3) by (intro push_all_distinct) (auto simp: descent_def dest: falls_distinct)
  ultimately show ?thesis by simp
qed

lemma fixed_rounds:
  assumes "climb m lo hi u" and "descent m hi lo d"
  shows "staircase m lo hi n (((\<lambda>sequence. push_all_changed (push_all_changed sequence (lo # u)) d) ^^ n) [lo])"
    (is "staircase m lo hi n ((?f ^^ n) [lo])")
proof (induction n)
  case (Suc n)
  have "?f ((?f ^^ n) [lo]) = (?f ^^ n) [lo] @ u @ d"
    by (rule fixed_round [OF assms staircase_end [OF Suc]])
  then show ?case using staircase_more [OF assms Suc] by simp
qed (simp add: staircase_zero)

lemma build_plateau_sequence_staircase:
  assumes "0 < n" and "hi \<le> usize_max" and "lo \<le> hi" and "0 < roundtrips"
  shows "\<exists>sequence. build_plateau_sequence lo hi n roundtrips = Some sequence \<and> staircase n lo hi roundtrips sequence"
proof -
  obtain u where u: "stepped_loop hi n lo [lo] = Some (lo # u)" "climb n lo hi u"
    using stepped_loop_ascends [OF assms(1-3), of "[lo]"] by auto
  let ?f = "\<lambda>sequence. push_all_changed (push_all_changed sequence (lo # u)) (tl (rev (lo # u)))"
  obtain k where k: "roundtrips = Suc k" using assms(4) gr0_implies_Suc by blast
  have first: "?f [] = ?f [lo]" by (simp add: push_all_changed_def push_changed_def)
  have "(?f ^^ roundtrips) [] = (?f ^^ roundtrips) [lo]" unfolding k funpow_Suc_right comp_def first ..
  then have "staircase n lo hi roundtrips ((?f ^^ roundtrips) [])"
    using fixed_rounds [OF u(2) climb_rev [OF u(2)], of roundtrips] by (simp only:)
  then show ?thesis unfolding build_plateau_sequence_def stepped_sizes_def u(1) option.map by blast
qed


lemma rises_last: "rises m a u \<Longrightarrow> u \<noteq> [] \<Longrightarrow> a < last u"
proof (induction u arbitrary: a)
  case (Cons c u)
  then show ?case by (cases "u = []") (auto dest: order.strict_trans)
qed simp

lemma climb_ends: "climb m a b u \<Longrightarrow> u = [] \<longleftrightarrow> a = b"
  using rises_last [of m a u] by (cases "u = []") (auto simp: climb_def)

lemma rises_sorted: "rises m a u \<Longrightarrow> sorted_wrt (<) (a # u)"
proof (induction m a u rule: rises.induct)
  case (2 m a b bs)
  then show ?case by (auto intro: order.strict_trans)
qed simp

lemma distinct_distinct_adj: "distinct xs \<Longrightarrow> distinct_adj xs"
  by (induction xs rule: induct_list012) auto

lemma rotated_apart:
  assumes "distinct r" and "1 < length r" and "sequence \<noteq> []"
    and "r' = (if 1 < length r \<and> sequence \<noteq> [] \<and> last sequence = hd r then rotate1 r else r)"
  shows "distinct_adj (last sequence # r')"
proof -
  obtain x y zs where r: "r = x # y # zs" using assms(2) by (cases r; cases "tl r") auto
  show ?thesis
  proof (cases "last sequence = x")
    case True
    then have r': "r' = y # zs @ [x]" using assms(3,4) r by simp
    have "distinct (y # zs @ [x])" using assms(1) r by auto
    from distinct_distinct_adj [OF this] show ?thesis using True assms(1) r unfolding r' by simp
  next
    case False
    then have "r' = r" using assms(4) r by simp
    then show ?thesis using distinct_distinct_adj [OF assms(1)] False r by simp
  qed
qed

lemma randomized_rounds_several:
  assumes "rng_ok R" and "distinct candidates" and "1 < length candidates"
    and "distinct_adj sequence"
  shows "\<exists>rounds. fst (randomized_rounds R candidates n sequence s) = sequence @ concat rounds \<and> length rounds = n \<and>
           (\<forall>r \<in> set rounds. mset r = mset candidates) \<and> distinct_adj (sequence @ concat rounds)"
  using assms(4)
proof (induction n arbitrary: sequence s)
  case (Suc n)
  obtain r s1 where sh: "shuffle R candidates s = (r, s1)" by (cases "shuffle R candidates s")
  have r: "mset r = mset candidates" using shuffle_mset [OF assms(1), of candidates s] sh by simp
  have dr: "distinct r" "1 < length r" using assms(2,3) r mset_eq_imp_distinct_iff mset_eq_length by metis+
  define r' where "r' = (if 1 < length r \<and> sequence \<noteq> [] \<and> last sequence = hd r then rotate1 r else r)"
  have r': "mset r' = mset candidates" using r by (cases r) (auto simp: r'_def)
  have step: "push_all_changed sequence r' = sequence @ r' \<and> distinct_adj (sequence @ r')"
  proof (cases "sequence = []")
    case True
    then have eq: "r' = r" by (simp add: r'_def)
    obtain x xs where x: "r = x # xs" using dr(2) by (cases r) auto
    have "push_all_changed [] (x # xs) = push_all_changed [x] xs" by (simp add: push_all_changed_def push_changed_def)
    also have "\<dots> = [x] @ xs" using distinct_distinct_adj [OF dr(1)] x by (intro push_all_distinct) auto
    finally show ?thesis using True eq x distinct_distinct_adj [OF dr(1)] by simp
  next
    case False
    have a: "distinct_adj (last sequence # r')" by (rule rotated_apart [OF dr False r'_def])
    moreover have "r' \<noteq> []" using dr(2) by (auto simp: r'_def)
    ultimately show ?thesis using push_all_distinct [OF False a] Suc.prems False
      by (auto simp: distinct_adj_append_iff distinct_adj_Cons)
  qed
  obtain rounds where "fst (randomized_rounds R candidates n (sequence @ r') s1) = (sequence @ r') @ concat rounds"
    "length rounds = n" "\<forall>r \<in> set rounds. mset r = mset candidates" "distinct_adj ((sequence @ r') @ concat rounds)"
    using Suc.IH [of "sequence @ r'" s1] step by blast
  moreover have "randomized_rounds R candidates (Suc n) sequence s = randomized_rounds R candidates n (sequence @ r') s1"
    using step unfolding randomized_rounds.simps sh prod.case Let_def r'_def by (simp only:)
  ultimately show ?case using r' by (intro exI [of _ "r' # rounds"]) simp
qed simp

lemma randomized_rounds_single:
  assumes "rng_ok R"
  shows "fst (randomized_rounds R [x] n [x] s) = [x]"
proof (induction n arbitrary: s)
  case (Suc n)
  obtain r s1 where sh: "shuffle R [x] s = (r, s1)" by (cases "shuffle R [x] s")
  have "r = [x]" using shuffle_mset [OF assms, of "[x]" s] sh by simp
  then show ?case using Suc by (simp add: sh push_all_changed_def push_changed_def)
qed simp

lemma randomized_rounds_ok:
  assumes "rng_ok R" and "climb m lo hi u" and "0 < n"
  shows "random_rounds m lo hi n (fst (randomized_rounds R (lo # u) n [] s))"
proof (cases "lo = hi")
  case True
  then have u: "u = []" using climb_ends [OF assms(2)] by simp
  obtain k where k: "n = Suc k" using assms(3) gr0_implies_Suc by blast
  obtain r s1 where sh: "shuffle R [lo] s = (r, s1)" by (cases "shuffle R [lo] s")
  have "r = [lo]" using shuffle_mset [OF assms(1), of "[lo]" s] sh by simp
  then have "fst (randomized_rounds R [lo] n [] s) = [lo]"
    using randomized_rounds_single [OF assms(1)] by (simp add: k sh push_all_changed_def push_changed_def)
  then show ?thesis using assms(2) True u unfolding random_rounds_def
    by (intro exI [of _ u] exI [of _ "replicate n [lo]"]) auto
next
  case False
  have "distinct (lo # u)" using assms(2) rises_sorted strict_sorted_iff climb_def by metis
  moreover have "1 < length (lo # u)" using climb_ends [OF assms(2)] False by simp
  ultimately obtain rounds where "fst (randomized_rounds R (lo # u) n [] s) = concat rounds" "length rounds = n"
    "\<forall>r \<in> set rounds. mset r = mset (lo # u)" "distinct_adj (concat rounds)"
    using randomized_rounds_several [OF assms(1), of "lo # u" "[]" n s] by auto
  then show ?thesis using assms(2) False unfolding random_rounds_def by (intro exI [of _ u] exI [of _ rounds]) simp
qed

lemma plateaus_for_order:
  assumes "rng_ok R" and "step_ok st" and "hi \<le> usize_max" and "lo \<le> hi" and "0 < n"
  shows "\<exists>sequence s'. build_plateau_sequence_for_order R lo hi st n plateau_order s = Some (sequence, s') \<and>
           plateaus_ok plateau_order (step_max st) lo hi n sequence"
proof -
  obtain u s1 where u: "ascend_loop R hi st lo [lo] s = Some (hi, lo # u, s1)" "climb (step_max st) lo hi u"
    using ascend_loop_climbs [OF assms(1-4), of "[lo]" s] by auto
  obtain k where k: "n = Suc k" using assms(5) gr0_implies_Suc by blast
  show ?thesis
  proof (cases plateau_order)
    case Staircase
    show ?thesis
    proof (cases st)
      case (FixedStep d)
      then show ?thesis using build_plateau_sequence_staircase [of d hi lo n] assms Staircase
        by (auto simp: build_plateau_sequence_for_order_def build_plateau_sequence_for_step_size_def)
    next
      case (UniformStep a b)
      then show ?thesis using roundtrip_loop_staircase [OF assms(1-4) staircase_zero, of n s] Staircase
        by (auto simp: build_plateau_sequence_for_order_def build_plateau_sequence_for_step_size_def k roundtrip_loop_first
            simp del: roundtrip_loop.simps)
    qed
  next
    case Ascending
    show ?thesis
    proof (cases st)
      case (FixedStep d)
      then show ?thesis using stepped_loop_ascends [of d hi lo "[lo]"] assms Ascending
        by (auto simp: build_plateau_sequence_for_order_def build_ascending_plateau_sequence_for_step_size_def stepped_sizes_def)
    next
      case (UniformStep a b)
      then show ?thesis using u Ascending
        by (simp add: build_plateau_sequence_for_order_def build_ascending_plateau_sequence_for_step_size_def push_changed_def)
    qed
  next
    case Randomized
    then show ?thesis using randomized_rounds_ok [OF assms(1) u(2) assms(5), of s1] u(1)
      by (cases "randomized_rounds R (lo # u) n [] s1") (simp add: build_plateau_sequence_for_order_def)
  qed
qed


text \<open>
  (C23) For every configuration whose step size was read from the command line, planning the sizes returns. It refuses the
  configuration, or keeps the explicit sizes, strictly increasing and within the bounds, or builds a sequence in the
  requested order between the effective minimum and the maximum: as many round trips as asked for, each rising to the
  maximum and falling back to the minimum; one rise; or as many rounds, each visiting every size of a rise exactly
  once, no size twice in a row. No step is larger than the largest step size, and no group is larger than the number
  of workers.
\<close>

theorem plateaus_as_configured:
  assumes "rng_ok R" and "step_size_from_str arg = Inr (sc_step_size config)" and "length (sc_workers config) \<le> usize_max"
  shows "\<exists>r. plan_plateaus R config = Some r \<and>
    (case r of
       Inl e \<Rightarrow> e \<noteq> []
     | Inr (sequence, s) \<Rightarrow>
         (\<exists>max_size. validate_config config (length (sc_workers config)) = Inr max_size \<and>
            0 < effective_min_size config \<and> effective_min_size config \<le> max_size \<and> max_size \<le> length (sc_workers config) \<and>
            (if sc_plateau_sizes config = [] then
               plateaus_ok (sc_plateau_order config) (step_max (sc_step_size config)) (effective_min_size config) max_size
                 (sc_roundtrips config) sequence
             else sequence = sc_plateau_sizes config \<and> sorted_wrt (<) sequence \<and>
                  set sequence \<subseteq> {effective_min_size config .. max_size})))"
proof (cases "validate_config config (length (sc_workers config))")
  case (Inl e)
  have "e \<noteq> []" using Inl by (auto simp: validate_config_def validate_plateau_sizes_def Let_def split: if_splits option.splits)
  then show ?thesis using Inl by (simp add: plan_plateaus_def)
next
  case (Inr max_size)
  note v = validate_config_ok [OF Inr]
  have pos: "0 < effective_min_size config" using v(1) by (simp add: effective_min_size_def)
  let ?s = "seed_from_u64 R (sc_scenario_seed config)"
  consider (small) "max_size < effective_min_size config"
    | (below) "effective_min_size config \<le> max_size" "sc_plateau_sizes config \<noteq> []" "hd (sc_plateau_sizes config) < effective_min_size config"
    | (explicit) "effective_min_size config \<le> max_size" "sc_plateau_sizes config \<noteq> []" "effective_min_size config \<le> hd (sc_plateau_sizes config)"
    | (built) "effective_min_size config \<le> max_size" "sc_plateau_sizes config = []" by linarith
  then show ?thesis
  proof cases
    case explicit
    have "set (sc_plateau_sizes config) \<subseteq> {effective_min_size config .. max_size}"
      using sorted_between [OF v(7)] explicit(3) v(8) by fastforce
    then show ?thesis using explicit Inr v pos by (simp add: plan_plateaus_def Let_def)
  next
    case built
    have "max_size \<le> usize_max" using v(3) assms(3) by simp
    from plateaus_for_order [OF assms(1) step_size_from_str_ok [OF assms(2)] this built(1) v(4), of "sc_plateau_order config" ?s]
    obtain sequence s' where
      "build_plateau_sequence_for_order R (effective_min_size config) max_size (sc_step_size config) (sc_roundtrips config)
         (sc_plateau_order config) ?s = Some (sequence, s')"
      "plateaus_ok (sc_plateau_order config) (step_max (sc_step_size config)) (effective_min_size config) max_size
         (sc_roundtrips config) sequence" by blast
    then show ?thesis using built Inr v(3) pos by (simp add: plan_plateaus_def Let_def)
  qed (use Inr in \<open>simp_all add: plan_plateaus_def Let_def\<close>)
qed

definition demo_config :: StaircaseConfig where
  "demo_config =
     \<lparr>sc_workers = map (\<lambda>i. worker_spec_legacy (show_nat i) ''http://w'') [0..<9], sc_min_size = 2, sc_max_size = None,
      sc_step_size = UniformStep 3 4, sc_roundtrips = 2, sc_payload_sizes = FixedSizes [32], sc_plateau_order = Staircase,
      sc_plateau_sizes = [], sc_external_coverage_lane = False, sc_min_profiled_samples_per_operation = 0,
      sc_profile_only_singletons = False, sc_scenario_seed = 7, sc_remove_rejoin = False, sc_fill_tree_before_measure = False\<rparr>"

lemma demo_validated: "validate_config demo_config (length (sc_workers demo_config)) = Inr 9"
  by (simp add: demo_config_def validate_config_def validate_plateau_sizes_def)

lemma demo_effective: "effective_min_size demo_config = 2"
  by (simp add: demo_config_def effective_min_size_def protected_member_floor_def)

lemma plain_ascend:
  "cur < hi \<Longrightarrow> a \<le> b \<Longrightarrow> ascend_loop plain_rng hi (UniformStep a b) cur xs () =
     ascend_loop plain_rng hi (UniformStep a b) (min (usize_saturating_add cur a) hi) (push_changed xs (min (usize_saturating_add cur a) hi)) ()"
  "hi \<le> cur \<Longrightarrow> ascend_loop plain_rng hi (UniformStep a b) cur xs () = Some (cur, xs, ())"
  by (subst ascend_loop.simps, simp add: plain_rng_def Let_def) (subst ascend_loop.simps, simp)

lemma plain_descend:
  "lo < cur \<Longrightarrow> a \<le> b \<Longrightarrow> descend_loop plain_rng lo (UniformStep a b) cur xs () =
     descend_loop plain_rng lo (UniformStep a b) (max (cur - a) lo) (push_changed xs (max (cur - a) lo)) ()"
  "cur \<le> lo \<Longrightarrow> descend_loop plain_rng lo (UniformStep a b) cur xs () = Some (cur, xs, ())"
  by (subst descend_loop.simps, simp add: plain_rng_def Let_def) (subst descend_loop.simps, simp)

lemma demo_plan: "plan_plateaus plain_rng demo_config = Some (Inr ([2, 5, 8, 9, 6, 3, 2, 5, 8, 9, 6, 3, 2], ()))"
proof -
  have u: "ascend_loop plain_rng 9 (UniformStep 3 4) 2 xs () = Some (9, push_changed (push_changed (push_changed xs 5) 8) 9, ())" for xs
    by (simp add: plain_ascend usize_saturating_add_def usize_max_def)
  have d: "descend_loop plain_rng 2 (UniformStep 3 4) 9 xs () = Some (2, push_changed (push_changed (push_changed xs 6) 3) 2, ())" for xs
    by (simp add: plain_descend)
  have two: "2 = Suc (Suc 0)" by simp
  have "roundtrip_loop plain_rng 2 9 (UniformStep 3 4) (Suc (Suc 0)) 2 [] () = Some ([2, 5, 8, 9, 6, 3, 2, 5, 8, 9, 6, 3, 2], ())"
    unfolding roundtrip_loop.simps u d option.case prod.case by (simp add: push_changed_def)
  then show ?thesis unfolding plan_plateaus_def demo_validated demo_effective Let_def
    by (simp add: demo_config_def build_plateau_sequence_for_order_def build_plateau_sequence_for_step_size_def plain_rng_def two)
qed


theorem plateaus_as_configured_witness:
  "step_size_from_str ''[3,4]'' = Inr (sc_step_size demo_config) \<and>
   plan_plateaus plain_rng demo_config = Some (Inr ([2, 5, 8, 9, 6, 3, 2, 5, 8, 9, 6, 3, 2], ())) \<and>
   plateaus_ok Staircase 4 2 9 2 [2, 5, 8, 9, 6, 3, 2, 5, 8, 9, 6, 3, 2]"
proof -
  have fields: "sc_step_size demo_config = UniformStep 3 4" "sc_plateau_sizes demo_config = []" "sc_plateau_order demo_config = Staircase"
    "sc_roundtrips demo_config = 2" "length (sc_workers demo_config) = 9" by (simp_all add: demo_config_def)
  have "show_step_size (UniformStep 3 4) = ''[3,4]''"
    by (simp add: show_range_def show_nat.simps digit_char_def char_of_def bit_Suc_0_iff)
  then have a: "step_size_from_str ''[3,4]'' = Inr (sc_step_size demo_config)"
    using step_size_round_trip [of "UniformStep 3 4"] by (simp add: usize_max_def fields)
  show ?thesis using plateaus_as_configured [OF plain_rng_ok a] demo_plan demo_validated
    by (simp add: a fields demo_effective usize_max_def)
qed

end
