(* ===== verification/Commit_Sampling.thy ===== *)
theory Commit_Sampling
  imports Staircase_Config
begin

text \<open>
  Which recipients of a commit the runner samples (\<^verbatim>\<open>deterministic_commit_receive_sample_indices\<close> and
  \<^verbatim>\<open>build_commit_receive_sampling_map\<close> of \<^verbatim>\<open>src/OpenMLS_containerized/src/staircase_runner.rs\<close>). The indices are drawn by a
  linear congruential generator on 64-bit words until enough distinct ones have been drawn; that this ends rests on the
  full period of the generator.
\<close>

unbundle bit_operations_syntax

section \<open>Which recipients of a commit are sampled\<close>

definition lcg_multiplier :: u64 where
  "lcg_multiplier = 6364136223846793005"

definition lcg_increment :: u64 where
  "lcg_increment = 1442695040888963407"

definition lcg :: "u64 \<Rightarrow> u64" where
  "lcg state = state * lcg_multiplier + lcg_increment"

partial_function (option) choose_loop :: "nat \<Rightarrow> nat \<Rightarrow> u64 \<Rightarrow> nat list \<Rightarrow> nat list option" where
  "choose_loop recipient_count max_samples state chosen =
     (if length chosen < max_samples then
        (let state = lcg state; idx = unat state mod recipient_count
         in choose_loop recipient_count max_samples state (if idx \<in> set chosen then chosen else chosen @ [idx]))
      else Some chosen)"

declare choose_loop.simps [simp del]

definition deterministic_commit_receive_sample_indices ::
  "nat \<Rightarrow> nat \<Rightarrow> u64 \<Rightarrow> nat \<Rightarrow> u64 \<Rightarrow> nat \<Rightarrow> nat list option" where
  "deterministic_commit_receive_sample_indices recipient_count max_samples seed plateau_size epoch seq_no =
     (if recipient_count = 0 \<or> max_samples = 0 then Some []
      else if recipient_count \<le> max_samples then Some [0..<recipient_count]
      else map_option sort (choose_loop recipient_count max_samples
             (seed XOR push_bit 32 (of_nat plateau_size) XOR epoch XOR (of_nat seq_no * 0x9E3779B97F4A7C15))
             ([0] @ (if 1 < recipient_count then [recipient_count - 1] else []) @
              (if 2 < recipient_count then [recipient_count div 2] else []))))"

subsection \<open>The generator visits every state\<close>

primrec geometric :: "int \<Rightarrow> nat \<Rightarrow> int" where
  "geometric a 0 = 0"
| "geometric a (Suc d) = 1 + a * geometric a d"

lemma geometric_add: "geometric a (m + n) = geometric a m + a ^ m * geometric a n"
  by (induction m) (simp_all add: algebra_simps)

lemma geometric_parity: "odd a \<Longrightarrow> even (geometric a d) \<longleftrightarrow> even d"
  by (induction d) auto

lemma geometric_divisible:
  assumes "a mod 4 = 1"
  shows "2 ^ k dvd geometric a d \<Longrightarrow> 2 ^ k dvd d"
proof (induction k arbitrary: d)
  case (Suc k)
  have odd: "odd a" using assms by presburger
  have "even (geometric a d)" using Suc.prems by (metis dvd_trans dvd_triv_left power_Suc)
  then obtain e where e: "d = e + e" using geometric_parity [OF odd] by (auto elim!: evenE simp: mult_2)
  have "a ^ e mod 4 = 1" using assms by (metis power_mod power_one mod_pos_pos_trivial one_less_numeral_iff semiring_norm(76) zero_le_one)
  then obtain q where q: "1 + a ^ e = 2 * q" "odd q"
    by (intro that [of "(1 + a ^ e) div 2"]) presburger+
  have "geometric a d = 2 * (geometric a e * q)" proof -
    have "geometric a d = (1 + a ^ e) * geometric a e" using geometric_add [of a e e] by (simp add: e algebra_simps)
    then show ?thesis unfolding q(1) by simp
  qed
  then have "2 ^ k dvd geometric a e * q" using Suc.prems by simp
  then have "2 ^ k dvd geometric a e" using q(2) by (simp add: coprime_dvd_mult_left_iff)
  from Suc.IH [OF this] show ?case by (simp add: e flip: mult_2)
qed simp

lemma lcg_iterate: "(lcg ^^ d) x - x = of_int (geometric (uint lcg_multiplier) d) * ((lcg_multiplier - 1) * x + lcg_increment)"
proof (induction d)
  case (Suc d)
  have "(lcg ^^ Suc d) x - x = (x + ((lcg ^^ d) x - x)) * lcg_multiplier + lcg_increment - x" by (simp add: lcg_def)
  also have "\<dots> = of_int (geometric (uint lcg_multiplier) (Suc d)) * ((lcg_multiplier - 1) * x + lcg_increment)"
    unfolding Suc by (simp add: algebra_simps)
  finally show ?case .
qed simp

lemma lcg_returns: "(lcg ^^ d) x = x \<Longrightarrow> 2 ^ 64 dvd d"
proof -
  let ?g = "geometric (uint lcg_multiplier) d"
  let ?w = "(lcg_multiplier - 1) * x + lcg_increment"
  assume "(lcg ^^ d) x = x"
  then have "of_int ?g * ?w = 0" using lcg_iterate [of d x] by simp
  then have "of_int (?g * uint ?w) = (0 :: u64)" by simp
  then have dvd: "2 ^ 64 dvd ?g * uint ?w" using word_of_int_eq_0_iff [where ?'a = 64, of "?g * uint ?w"] by simp
  have "odd ?w" by (simp add: lcg_multiplier_def lcg_increment_def)
  then have "odd (uint ?w)" using bit_uint_iff [of ?w 0] by (simp only: bit_0) simp
  then have "coprime (2 ^ 64) (uint ?w)" by (simp only: coprime_power_left_iff coprime_left_2_iff_odd) simp
  then have "2 ^ 64 dvd ?g" using dvd by (simp only: coprime_dvd_mult_left_iff)
  then show ?thesis by (rule geometric_divisible [rotated]) (simp add: lcg_multiplier_def)
qed

lemma lcg_visits: "\<exists>k < 2 ^ 64. (lcg ^^ k) x = y"
proof -
  have "inj_on (\<lambda>k. (lcg ^^ k) x) {..<2 ^ 64}"
  proof (rule linorder_inj_onI)
    fix i j :: nat
    assume ij: "i < j" "i \<in> {..<2 ^ 64}" "j \<in> {..<2 ^ 64}"
    have "(lcg ^^ (j - i)) ((lcg ^^ i) x) = (lcg ^^ j) x" using ij(1) by (simp flip: funpow_add [THEN fun_cong, unfolded comp_def])
    then show "(lcg ^^ i) x \<noteq> (lcg ^^ j) x" using lcg_returns [of "j - i" "(lcg ^^ i) x"] ij
      by (auto dest!: dvd_imp_le)
  qed auto
  then have "card ((\<lambda>k. (lcg ^^ k) x) ` {..<2 ^ 64}) = CARD(u64)" by (simp add: card_image card_word)
  then have "(\<lambda>k. (lcg ^^ k) x) ` {..<2 ^ 64} = UNIV" by (intro card_subset_eq) auto
  then have "y \<in> (\<lambda>k. (lcg ^^ k) x) ` {..<2 ^ 64}" by (simp only: UNIV_I)
  then obtain k where "y = (lcg ^^ k) x" "k \<in> {..<2 ^ 64}" by (rule imageE)
  then show ?thesis by (intro exI [of _ k]) (simp only: lessThan_iff)
qed


subsection \<open>The samples\<close>

lemma choose_loop_new:
  assumes "0 < recipient_count" and "length chosen < max_samples" and "unat (lcg state) mod recipient_count \<notin> set chosen"
  shows "\<exists>state' idx. idx < recipient_count \<and> idx \<notin> set chosen \<and>
    choose_loop recipient_count max_samples state chosen = choose_loop recipient_count max_samples state' (chosen @ [idx])"
proof -
  have "choose_loop recipient_count max_samples state chosen =
      choose_loop recipient_count max_samples (lcg state) (chosen @ [unat (lcg state) mod recipient_count])"
    using assms(2,3) by (subst choose_loop.simps) (simp add: Let_def)
  then show ?thesis using assms(1,3) mod_less_divisor by blast
qed

lemma choose_loop_next:
  assumes "0 < recipient_count" and "length chosen < max_samples"
    and "unat ((lcg ^^ Suc k) state) mod recipient_count \<notin> set chosen"
  shows "\<exists>state' idx. idx < recipient_count \<and> idx \<notin> set chosen \<and>
    choose_loop recipient_count max_samples state chosen = choose_loop recipient_count max_samples state' (chosen @ [idx])"
  using assms(3)
proof (induction k arbitrary: state)
  case 0
  then show ?case using choose_loop_new [OF assms(1,2)] by simp
next
  case (Suc k)
  let ?idx = "unat (lcg state) mod recipient_count"
  show ?case
  proof (cases "?idx \<in> set chosen")
    case True
    then have "choose_loop recipient_count max_samples state chosen = choose_loop recipient_count max_samples (lcg state) chosen"
      using assms(2) by (subst choose_loop.simps) (simp add: Let_def)
    moreover have "unat ((lcg ^^ Suc k) (lcg state)) mod recipient_count \<notin> set chosen"
      using Suc.prems by (simp add: funpow_swap1)
    ultimately show ?thesis using Suc.IH by metis
  next
    case False
    then show ?thesis by (rule choose_loop_new [OF assms(1,2)])
  qed
qed

lemma index_drawn:
  assumes "i < recipient_count" and "recipient_count \<le> usize_max"
  obtains k where "unat ((lcg ^^ Suc k) state) mod recipient_count = i"
proof -
  obtain k where k: "(lcg ^^ k) (lcg state) = of_nat i" using lcg_visits by blast
  have "unat (of_nat i :: u64) = i"
    using assms by (simp add: unat_of_nat take_bit_nat_eq_self usize_max_def)
  then have "unat ((lcg ^^ Suc k) state) mod recipient_count = i" using k assms(1) by (simp add: funpow_swap1)
  then show ?thesis by (rule that)
qed

lemma choose_loop_ends:
  assumes "max_samples \<le> recipient_count" and "recipient_count \<le> usize_max"
    and "distinct chosen" and "set chosen \<subseteq> {..<recipient_count}"
  shows "\<exists>xs. choose_loop recipient_count max_samples state chosen = Some xs \<and> distinct xs \<and> set chosen \<subseteq> set xs \<and>
           set xs \<subseteq> {..<recipient_count} \<and> length xs = max (length chosen) max_samples"
  using assms(3,4)
proof (induction "max_samples - length chosen" arbitrary: chosen state rule: less_induct)
  case less
  show ?case
  proof (cases "length chosen < max_samples")
    case False
    then show ?thesis using less.prems by (subst choose_loop.simps) simp
  next
    case True
    have "card (set chosen) < card {..<recipient_count}" using True assms(1) distinct_card [OF less.prems(1)] by simp
    then obtain i where i: "i < recipient_count" "i \<notin> set chosen" using less.prems(2) by (metis card_mono finite_set lessThan_iff linorder_not_le subsetI)
    obtain k where "unat ((lcg ^^ Suc k) state) mod recipient_count = i" using index_drawn [OF i(1) assms(2)] by blast
    then obtain state' idx where n: "idx < recipient_count" "idx \<notin> set chosen"
      "choose_loop recipient_count max_samples state chosen = choose_loop recipient_count max_samples state' (chosen @ [idx])"
      using choose_loop_next [of recipient_count chosen max_samples k state] i True by auto
    have "max_samples - length (chosen @ [idx]) < max_samples - length chosen" using True by simp
    from less.hyps [OF this, of state'] show ?thesis using n less.prems True by auto
  qed
qed

lemma commit_samples_exist:
  assumes "recipient_count \<le> usize_max"
  shows "\<exists>xs. deterministic_commit_receive_sample_indices recipient_count max_samples seed plateau_size epoch seq_no = Some xs \<and>
    sorted_wrt (<) xs \<and> set xs \<subseteq> {..<recipient_count} \<and>
    length xs = (if max_samples = 0 then 0 else min recipient_count (max max_samples 3)) \<and>
    (0 < max_samples \<and> 0 < recipient_count \<longrightarrow> {0, recipient_count div 2, recipient_count - 1} \<subseteq> set xs)"
proof (cases "max_samples < recipient_count \<and> 0 < max_samples")
  case False
  then show ?thesis by (auto simp: deterministic_commit_receive_sample_indices_def)
next
  case True
  let ?first = "[0] @ (if 1 < recipient_count then [recipient_count - 1] else []) @
                (if 2 < recipient_count then [recipient_count div 2] else [])"
  let ?state = "seed XOR push_bit 32 (of_nat plateau_size) XOR epoch XOR (of_nat seq_no * 0x9E3779B97F4A7C15) :: u64"
  have first: "distinct ?first" "set ?first \<subseteq> {..<recipient_count}" "length ?first = min recipient_count 3"
    "{0, recipient_count div 2, recipient_count - 1} \<subseteq> set ?first"
    using True by auto
  obtain xs where xs: "choose_loop recipient_count max_samples ?state ?first = Some xs" "distinct xs" "set ?first \<subseteq> set xs"
    "set xs \<subseteq> {..<recipient_count}" "length xs = max (length ?first) max_samples"
    using choose_loop_ends [OF _ assms first(1,2), of max_samples ?state] True by auto
  have "deterministic_commit_receive_sample_indices recipient_count max_samples seed plateau_size epoch seq_no = Some (sort xs)"
    using True xs(1) by (simp add: deterministic_commit_receive_sample_indices_def)
  moreover have "sorted_wrt (<) (sort xs)" using xs(2) by (simp add: strict_sorted_iff)
  moreover have "length (sort xs) = min recipient_count (max max_samples 3)" using True first(3) xs(5) by auto
  ultimately show ?thesis using xs(3,4) first(4) True by auto
qed


text \<open>
  (C24) Sampling the recipients of a commit always ends, although it draws from a linear congruential generator until enough
  distinct indices have been drawn. The indices are in order, distinct and within range; the first, the last and the
  middle recipient are among them. Their number is the requested maximum or the number of recipients if that is less,
  except that a maximum of one or two is exceeded: three recipients are sampled then.
\<close>

theorem commit_samples_drawn:
  assumes "recipient_count \<le> usize_max"
  shows "\<exists>xs. deterministic_commit_receive_sample_indices recipient_count max_samples seed plateau_size epoch seq_no = Some xs \<and>
    sorted_wrt (<) xs \<and> set xs \<subseteq> {..<recipient_count} \<and>
    length xs = (if max_samples = 0 then 0 else min recipient_count (max max_samples 3)) \<and>
    (0 < max_samples \<and> 0 < recipient_count \<longrightarrow> {0, recipient_count div 2, recipient_count - 1} \<subseteq> set xs)"
  using assms by (rule commit_samples_exist)

theorem commit_samples_drawn_witness:
  "\<exists>xs. deterministic_commit_receive_sample_indices 100 2 42 8 5 1 = Some xs \<and> length xs = 3 \<and> {0, 50, 99} \<subseteq> set xs"
  using commit_samples_drawn [of 100 2 42 8 5 1] by (auto simp: usize_max_def)

definition build_commit_receive_sampling_map ::
  "WorkerSpec list \<Rightarrow> nat \<Rightarrow> u64 \<Rightarrow> nat \<Rightarrow> u64 \<Rightarrow> nat \<Rightarrow> (string set \<times> (string \<rightharpoonup> nat) \<times> nat) option" where
  "build_commit_receive_sampling_map recipients max_samples seed plateau_size epoch seq_no =
     map_option
       (\<lambda>drawn.
          let external = filter (\<lambda>idx. ws_profile_enabled (recipients ! idx) \<and> is_external_device (recipients ! idx) \<and> idx \<notin> set drawn)
                                [0..<length recipients];
              sample_indices = sort (drawn @ external);
              sampled = filter (\<lambda>(_, idx). idx < length recipients) (zip [0..<length sample_indices] sample_indices);
              ids = map (\<lambda>(_, idx). ws_id (recipients ! idx)) sampled
          in (set ids, fold (\<lambda>(sample_index, idx) m. m(ws_id (recipients ! idx) \<mapsto> sample_index)) sampled Map.empty, card (set ids)))
       (deterministic_commit_receive_sample_indices (length recipients) max_samples seed plateau_size epoch seq_no)"

lemma fold_updates_other: "y \<notin> f ` set ps \<Longrightarrow> fold (\<lambda>p m. m(f p \<mapsto> g p)) ps m y = m y"
  by (induction ps arbitrary: m) auto

lemma fold_updates_at:
  "distinct (map f ps) \<Longrightarrow> p \<in> set ps \<Longrightarrow> fold (\<lambda>p m. m(f p \<mapsto> g p)) ps m (f p) = Some (g p)"
  by (induction ps arbitrary: m) (auto simp: fold_updates_other)

lemma fold_updates_dom: "dom (fold (\<lambda>p m. m(f p \<mapsto> g p)) ps m) = f ` set ps \<union> dom m"
  by (induction ps arbitrary: m) auto

lemma numbering_bij:
  assumes "distinct (map f ps)" and "map fst ps = [0..<length ps]"
  shows "bij_betw (\<lambda>i. the (fold (\<lambda>p m. m(f p \<mapsto> fst p)) ps Map.empty i)) (f ` set ps) {..<length ps}"
proof -
  have at: "the (fold (\<lambda>p m. m(f p \<mapsto> fst p)) ps Map.empty (f p)) = fst p" if "p \<in> set ps" for p
    using fold_updates_at [OF assms(1) that, of fst Map.empty] by simp
  have "inj_on fst (set ps)" using assms(2) by (metis distinct_map distinct_upt)
  then have "inj_on (\<lambda>i. the (fold (\<lambda>p m. m(f p \<mapsto> fst p)) ps Map.empty i)) (f ` set ps)"
    by (auto simp: inj_on_def at)
  moreover have "(\<lambda>i. the (fold (\<lambda>p m. m(f p \<mapsto> fst p)) ps Map.empty i)) ` f ` set ps = fst ` set ps"
    unfolding image_image by (rule image_cong) (simp_all add: at)
  moreover have "fst ` set ps = {..<length ps}" unfolding set_map [symmetric] assms(2) by auto
  ultimately show ?thesis by (simp add: bij_betw_def)
qed

text \<open>
  The map of sampled recipients always exists. It covers every profiled external device, it numbers the sampled
  recipients consecutively, and its count is the number of sampled recipients.
\<close>

theorem sampling_map_complete:
  assumes "distinct (map ws_id recipients)" and "length recipients \<le> usize_max"
  shows "\<exists>ids index count.
    build_commit_receive_sampling_map recipients max_samples seed plateau_size epoch seq_no = Some (ids, index, count) \<and>
    ws_id ` {w \<in> set recipients. ws_profile_enabled w \<and> is_external_device w} \<subseteq> ids \<and> ids \<subseteq> ws_id ` set recipients \<and>
    dom index = ids \<and> bij_betw (\<lambda>i. the (index i)) ids {..<count} \<and> count = card ids"
proof -
  obtain drawn where d: "deterministic_commit_receive_sample_indices (length recipients) max_samples seed plateau_size epoch seq_no = Some drawn"
    "sorted_wrt (<) drawn" "set drawn \<subseteq> {..<length recipients}"
    using commit_samples_exist [OF assms(2)] by blast
  define external where "external = filter (\<lambda>idx. ws_profile_enabled (recipients ! idx) \<and> is_external_device (recipients ! idx) \<and> idx \<notin> set drawn)
                                [0..<length recipients]"
  define xs where "xs = sort (drawn @ external)"
  have xs: "distinct xs" "set xs \<subseteq> {..<length recipients}"
    using d(2,3) by (auto simp: xs_def external_def strict_sorted_iff)
  define ps where "ps = zip [0..<length xs] xs"
  have ps: "map snd ps = xs" "map fst ps = [0..<length xs]" by (simp_all add: ps_def)
  have all: "filter (\<lambda>(_, idx). idx < length recipients) ps = ps"
    using xs(2) set_zip_rightD unfolding ps_def by (intro filter_True) fastforce
  let ?f = "\<lambda>p. ws_id (recipients ! snd p)"
  have inj: "inj_on (\<lambda>i. ws_id (recipients ! i)) {..<length recipients}"
    using assms(1) by (auto simp: inj_on_def distinct_conv_nth)
  have f: "distinct (map ?f ps)"
  proof -
    have "map ?f ps = map (\<lambda>i. ws_id (recipients ! i)) xs" unfolding ps(1) [symmetric] map_map comp_def ..
    then show ?thesis using xs inj by (simp add: distinct_map inj_on_subset)
  qed
  let ?index = "fold (\<lambda>p m. m(?f p \<mapsto> fst p)) ps Map.empty"
  have r: "build_commit_receive_sampling_map recipients max_samples seed plateau_size epoch seq_no =
      Some (?f ` set ps, ?index, card (?f ` set ps))"
    unfolding build_commit_receive_sampling_map_def d(1) option.map Let_def external_def [symmetric] xs_def [symmetric]
      ps_def [symmetric] all by (simp add: case_prod_beta')
  have len: "length ps = length xs" by (simp add: ps_def)
  have "card (?f ` set ps) = length ps" using distinct_card [OF f] by simp
  then have "bij_betw (\<lambda>i. the (?index i)) (?f ` set ps) {..<card (?f ` set ps)}"
    using numbering_bij [OF f] ps(2) len by simp
  moreover have ids: "?f ` set ps = (\<lambda>i. ws_id (recipients ! i)) ` set xs" unfolding ps(1) [symmetric] set_map image_image ..
  moreover have "ws_id w \<in> ?f ` set ps" if w: "w \<in> set recipients" "ws_profile_enabled w" "is_external_device w" for w
  proof -
    obtain i where "i < length recipients" "recipients ! i = w" using w(1) unfolding in_set_conv_nth by blast
    then have "i \<in> set xs" using w by (simp add: xs_def external_def)
    then show ?thesis using \<open>recipients ! i = w\<close> unfolding ids by blast
  qed
  moreover have "?f ` set ps \<subseteq> ws_id ` set recipients" unfolding ids using xs(2) by auto
  ultimately show ?thesis using r fold_updates_dom [of ?f fst ps Map.empty] by auto
qed


definition demo_recipients :: "WorkerSpec list" where
  "demo_recipients =
     [worker_spec_legacy ''a'' ''u'', (worker_spec_legacy ''b'' ''u'')\<lparr>ws_device_kind := ''phone''\<rparr>, worker_spec_legacy ''c'' ''u'']"

theorem sampling_map_complete_witness:
  "\<exists>ids index count. build_commit_receive_sampling_map demo_recipients 0 42 3 1 0 = Some (ids, index, count) \<and> ''b'' \<in> ids \<and>
     bij_betw (\<lambda>i. the (index i)) ids {..<count}"
proof -
  have b: "''b'' \<in> ws_id ` {w \<in> set demo_recipients. ws_profile_enabled w \<and> is_external_device w}"
    by (rule image_eqI [of _ _ "demo_recipients ! 1"]) (simp_all add: demo_recipients_def worker_spec_legacy_def is_external_device_def)
  have d: "distinct (map ws_id demo_recipients)" "length demo_recipients \<le> usize_max"
    by (simp_all add: demo_recipients_def worker_spec_legacy_def usize_max_def)
  show ?thesis using sampling_map_complete [OF d, of 0 42 3 1 0] b by blast
qed

end
