(* ===== verification/Membership_Batches.thy ===== *)
theory Membership_Batches
  imports Staircase_Config Interfaces
begin

text \<open>
  How many members the runner adds or removes at once (\<^verbatim>\<open>MembershipBatchPlanner\<close> and \<^verbatim>\<open>MembershipBatchPlans\<close> of
  \<^verbatim>\<open>src/OpenMLS_containerized/src/staircase_runner.rs\<close>). A planner hands out batch sizes from a shuffled cycle of all
  feasible sizes; regular members share one planner and every external device has its own, seeded by its name.
\<close>

unbundle bit_operations_syntax

definition MAX_RANDOM_MEMBERSHIP_BATCH_SIZE :: nat where
  "MAX_RANDOM_MEMBERSHIP_BATCH_SIZE = 8"

definition EXTERNAL_BATCH_SEED_DOMAIN :: u64 where
  "EXTERNAL_BATCH_SEED_DOMAIN = 0x4558544241544348"

record MembershipBatchDecision =
  mbd_requested :: nat
  mbd_effective :: nat
  mbd_group_cap :: nat
  mbd_transition_cap :: nat
  mbd_source :: string

record 'r MembershipBatchPlanner =
  mbp_rng :: 'r
  mbp_cycle :: "nat list"
  mbp_cycle_cap :: nat
  mbp_extremes_only :: bool

definition planner_new :: "'r rng_api \<Rightarrow> u64 \<Rightarrow> bool \<Rightarrow> 'r MembershipBatchPlanner" where
  "planner_new R seed extremes_only =
     \<lparr>mbp_rng = seed_from_u64 R seed, mbp_cycle = [], mbp_cycle_cap = 0, mbp_extremes_only = extremes_only\<rparr>"

definition membership_batch_group_cap :: "nat \<Rightarrow> nat" where
  "membership_batch_group_cap current_group_size = MAX_RANDOM_MEMBERSHIP_BATCH_SIZE"

definition position_or_zero :: "'a \<Rightarrow> 'a list \<Rightarrow> nat" where
  "position_or_zero x xs = (if x \<in> set xs then length (takeWhile (\<lambda>y. y \<noteq> x) xs) else 0)"

definition list_swap :: "nat \<Rightarrow> nat \<Rightarrow> 'a list \<Rightarrow> 'a list" where
  "list_swap i j xs = xs[i := xs ! j, j := xs ! i]"

definition refill_cycle :: "'r rng_api \<Rightarrow> nat \<Rightarrow> 'r MembershipBatchPlanner \<Rightarrow> 'r MembershipBatchPlanner" where
  "refill_cycle R feasible_cap p =
     (let extremes = mbp_extremes_only p;
          values = (if extremes \<and> 1 < feasible_cap then [feasible_cap, 1] else [1..<Suc feasible_cap]);
          (mixed, s) = (if extremes then (values, mbp_rng p) else shuffle R values (mbp_rng p));
          cycle = (if 1 < feasible_cap \<and> \<not> extremes then list_swap 0 (position_or_zero feasible_cap mixed) mixed else mixed)
      in p\<lparr>mbp_rng := s, mbp_cycle := cycle, mbp_cycle_cap := feasible_cap\<rparr>)"

definition planner_next_batch ::
  "'r rng_api \<Rightarrow> nat \<Rightarrow> nat \<Rightarrow> string \<Rightarrow> 'r MembershipBatchPlanner \<Rightarrow> MembershipBatchDecision \<times> 'r MembershipBatchPlanner" where
  "planner_next_batch R current_group_size max_allowed source p =
     (if max_allowed = 0 then
        (\<lparr>mbd_requested = 0, mbd_effective = 0, mbd_group_cap = 0, mbd_transition_cap = 0, mbd_source = source\<rparr>, p)
      else
        (let group_cap = membership_batch_group_cap current_group_size;
             feasible_cap = min group_cap max_allowed;
             p1 = (if mbp_cycle p = [] \<or> mbp_cycle_cap p \<noteq> feasible_cap then refill_cycle R feasible_cap p else p);
             requested = (case mbp_cycle p1 of [] \<Rightarrow> 1 | x # _ \<Rightarrow> x)
         in (\<lparr>mbd_requested = requested, mbd_effective = requested, mbd_group_cap = group_cap,
              mbd_transition_cap = max_allowed, mbd_source = source\<rparr>,
             p1\<lparr>mbp_cycle := tl (mbp_cycle p1)\<rparr>)))"

text \<open>The FNV-1a hash of a name.\<close>

definition stable_string_seed :: "string \<Rightarrow> u64" where
  "stable_string_seed value =
     foldl (\<lambda>hash byte. (hash XOR of_nat (of_char byte)) * 0x100000001B3) 0xCBF29CE484222325 value"

record 'r MembershipBatchPlans =
  mbps_regular :: "'r MembershipBatchPlanner"
  mbps_external :: "string \<rightharpoonup> 'r MembershipBatchPlanner"
  mbps_external_seed :: u64
  mbps_extremes_only :: bool

definition plans_new :: "'r rng_api \<Rightarrow> u64 \<Rightarrow> bool \<Rightarrow> 'r MembershipBatchPlans" where
  "plans_new R seed extremes_only =
     \<lparr>mbps_regular = planner_new R seed extremes_only, mbps_external = Map.empty,
      mbps_external_seed = seed XOR EXTERNAL_BATCH_SEED_DOMAIN, mbps_extremes_only = extremes_only\<rparr>"

definition external_planner :: "'r rng_api \<Rightarrow> string \<Rightarrow> 'r MembershipBatchPlans \<Rightarrow> 'r MembershipBatchPlanner" where
  "external_planner R actor_id ps =
     (case mbps_external ps actor_id of
        Some p \<Rightarrow> p
      | None \<Rightarrow> planner_new R (mbps_external_seed ps XOR stable_string_seed actor_id) (mbps_extremes_only ps))"

definition plans_next_batch ::
  "'r rng_api \<Rightarrow> nat \<Rightarrow> nat \<Rightarrow> string option \<Rightarrow> 'r MembershipBatchPlans \<Rightarrow> MembershipBatchDecision \<times> 'r MembershipBatchPlans" where
  "plans_next_batch R current_group_size max_allowed external_actor_id ps =
     (case external_actor_id of
        Some actor_id \<Rightarrow>
          (case planner_next_batch R current_group_size max_allowed
                  (if mbps_extremes_only ps then ''extremes_external'' else ''balanced_seeded_external'')
                  (external_planner R actor_id ps) of
             (decision, p) \<Rightarrow> (decision, ps\<lparr>mbps_external := (mbps_external ps)(actor_id \<mapsto> p)\<rparr>))
      | None \<Rightarrow>
          (case planner_next_batch R current_group_size max_allowed
                  (if mbps_extremes_only ps then ''extremes_regular'' else ''balanced_seeded_regular'') (mbps_regular ps) of
             (decision, p) \<Rightarrow> (decision, ps\<lparr>mbps_regular := p\<rparr>)))"

section \<open>A cycle\<close>

text \<open>Every size up to the cap once, the cap first.\<close>

definition fair_cycle :: "nat \<Rightarrow> nat list \<Rightarrow> bool" where
  "fair_cycle c xs = (mset xs = mset [1..<Suc c] \<and> xs \<noteq> [] \<and> hd xs = c)"

lemma position_nth: "x \<in> set xs \<Longrightarrow> position_or_zero x xs < length xs \<and> xs ! position_or_zero x xs = x"
  by (induction xs) (auto simp: position_or_zero_def)

lemma list_swap_mset: "i < length xs \<Longrightarrow> j < length xs \<Longrightarrow> mset (list_swap i j xs) = mset xs"
  by (simp add: list_swap_def mset_swap)

lemma refill_simps [simp]:
  "mbp_cycle_cap (refill_cycle R c p) = c" "mbp_extremes_only (refill_cycle R c p) = mbp_extremes_only p"
  by (simp_all add: refill_cycle_def Let_def case_prod_beta)

lemma refill_fair:
  assumes "rng_ok R" and "0 < c" and "\<not> mbp_extremes_only p"
  shows "fair_cycle c (mbp_cycle (refill_cycle R c p))"
proof -
  obtain xs s where sh: "shuffle R [1..<Suc c] (mbp_rng p) = (xs, s)" by (cases "shuffle R [1..<Suc c] (mbp_rng p)")
  have m: "mset xs = mset [1..<Suc c]" using shuffle_mset [OF assms(1), of "[1..<Suc c]" "mbp_rng p"] sh by simp
  then have "set xs = {1..<Suc c}" using set_mset_mset set_upt by metis
  then have c: "c \<in> set xs" using assms(2) by simp
  have cyc: "mbp_cycle (refill_cycle R c p) = (if 1 < c then list_swap 0 (position_or_zero c xs) xs else xs)"
    using assms(3) sh by (simp add: refill_cycle_def)
  show ?thesis
  proof (cases "1 < c")
    case True
    note i = position_nth [OF c]
    have "list_swap 0 (position_or_zero c xs) xs \<noteq> []" "hd (list_swap 0 (position_or_zero c xs) xs) = c"
      using i c by (cases xs; auto simp: list_swap_def nth_Cons' split: nat.splits)+
    moreover have "mset (list_swap 0 (position_or_zero c xs) xs) = mset [1..<Suc c]"
      using list_swap_mset [of 0 xs "position_or_zero c xs"] i m by (metis gr_implies_not_zero gr_zeroI)
    ultimately show ?thesis unfolding fair_cycle_def cyc by (simp only: True if_True simp_thms)
  next
    case False
    then have "c = 1" using assms(2) by simp
    then show ?thesis using m cyc by (simp add: fair_cycle_def)
  qed
qed

lemma refill_extreme:
  "0 < c \<Longrightarrow> mbp_extremes_only p \<Longrightarrow> mbp_cycle (refill_cycle R c p) = (if 1 < c then [c, 1] else [1])"
  by (auto simp: refill_cycle_def Let_def case_prod_beta upt_conv_Cons)


section \<open>One planner\<close>

definition batch_cap :: "nat \<Rightarrow> nat" where
  "batch_cap max_allowed = min MAX_RANDOM_MEMBERSHIP_BATCH_SIZE max_allowed"

definition planner_ok :: "'r MembershipBatchPlanner \<Rightarrow> bool" where
  "planner_ok p = (set (mbp_cycle p) \<subseteq> {1..mbp_cycle_cap p})"

lemma planner_new_simps [simp]:
  "planner_ok (planner_new R seed e)" "mbp_cycle (planner_new R seed e) = []" "mbp_extremes_only (planner_new R seed e) = e"
  by (simp_all add: planner_ok_def planner_new_def)

lemma fair_cycle_set: "fair_cycle c xs \<Longrightarrow> set xs = {1..c}"
proof -
  assume "fair_cycle c xs"
  then have "mset xs = mset [1..<Suc c]" by (simp add: fair_cycle_def)
  then have "set xs = set [1..<Suc c]" by (metis set_mset_mset)
  then show ?thesis by auto
qed

lemma refill_ok:
  assumes "rng_ok R" and "0 < c"
  shows "planner_ok (refill_cycle R c p)" and "mbp_cycle (refill_cycle R c p) \<noteq> []"
proof -
  have "planner_ok (refill_cycle R c p) \<and> mbp_cycle (refill_cycle R c p) \<noteq> []"
  proof (cases "mbp_extremes_only p")
    case True
    then show ?thesis using assms(2) by (auto simp: planner_ok_def refill_extreme)
  next
    case False
    note f = refill_fair [OF assms False]
    show ?thesis using fair_cycle_set [OF f] f by (simp add: planner_ok_def fair_cycle_def)
  qed
  then show "planner_ok (refill_cycle R c p)" "mbp_cycle (refill_cycle R c p) \<noteq> []" by auto
qed

text \<open>What a request that may be granted takes from the planner.\<close>

lemma planner_next:
  assumes "rng_ok R" and "0 < m"
  obtains x xs p1 where "planner_next_batch R n m source p =
      (\<lparr>mbd_requested = x, mbd_effective = x, mbd_group_cap = MAX_RANDOM_MEMBERSHIP_BATCH_SIZE, mbd_transition_cap = m, mbd_source = source\<rparr>,
       p1\<lparr>mbp_cycle := xs\<rparr>)"
    "mbp_cycle p1 = x # xs" "mbp_cycle_cap p1 = batch_cap m"
    "p1 = (if mbp_cycle p = [] \<or> mbp_cycle_cap p \<noteq> batch_cap m then refill_cycle R (batch_cap m) p else p)"
proof -
  define p1 where "p1 = (if mbp_cycle p = [] \<or> mbp_cycle_cap p \<noteq> batch_cap m then refill_cycle R (batch_cap m) p else p)"
  have pos: "0 < batch_cap m" using assms(2) by (simp add: batch_cap_def MAX_RANDOM_MEMBERSHIP_BATCH_SIZE_def)
  have "mbp_cycle p1 \<noteq> []" using refill_ok(2) [OF assms(1) pos] by (simp add: p1_def)
  then obtain x xs where x: "mbp_cycle p1 = x # xs" by (cases "mbp_cycle p1") auto
  have cap: "mbp_cycle_cap p1 = batch_cap m" by (simp add: p1_def)
  show ?thesis
    by (rule that [OF _ x cap p1_def])
      (use assms(2) x in \<open>unfold planner_next_batch_def Let_def membership_batch_group_cap_def batch_cap_def [symmetric] p1_def [symmetric], simp\<close>)
qed

lemma planner_next_ok:
  assumes "rng_ok R" and "planner_ok p"
  shows "planner_ok (snd (planner_next_batch R n m source p))"
    and "0 < m \<Longrightarrow> mbd_requested (fst (planner_next_batch R n m source p)) \<in> {1..batch_cap m}"
proof -
  have *: "planner_ok (snd (planner_next_batch R n m source p)) \<and>
      mbd_requested (fst (planner_next_batch R n m source p)) \<in> {1..batch_cap m}" if m: "0 < m"
  proof -
    obtain x xs p1 where x: "planner_next_batch R n m source p =
        (\<lparr>mbd_requested = x, mbd_effective = x, mbd_group_cap = MAX_RANDOM_MEMBERSHIP_BATCH_SIZE, mbd_transition_cap = m, mbd_source = source\<rparr>,
         p1\<lparr>mbp_cycle := xs\<rparr>)" "mbp_cycle p1 = x # xs" "mbp_cycle_cap p1 = batch_cap m"
      "p1 = (if mbp_cycle p = [] \<or> mbp_cycle_cap p \<noteq> batch_cap m then refill_cycle R (batch_cap m) p else p)"
      by (rule planner_next [OF assms(1) m])
    have "0 < batch_cap m" using m by (simp add: batch_cap_def MAX_RANDOM_MEMBERSHIP_BATCH_SIZE_def)
    then have "planner_ok p1" using x(4) refill_ok(1) [OF assms(1)] assms(2) by simp
    then show ?thesis using x(1-3) by (simp add: planner_ok_def)
  qed
  show "planner_ok (snd (planner_next_batch R n m source p))"
    using * assms(2) by (cases "m = 0") (simp_all add: planner_next_batch_def)
  show "mbd_requested (fst (planner_next_batch R n m source p)) \<in> {1..batch_cap m}" if "0 < m" using * that by blast
qed

fun planner_sizes :: "'r rng_api \<Rightarrow> 'r MembershipBatchPlanner \<Rightarrow> (nat \<times> nat) list \<Rightarrow> nat list" where
  "planner_sizes R p [] = []"
| "planner_sizes R p ((n, m) # calls) =
     (case planner_next_batch R n m [] p of
        (d, p1) \<Rightarrow> (if m = 0 then [] else [mbd_requested d]) @ planner_sizes R p1 calls)"

lemma planner_zero [simp]: "snd (planner_next_batch R n 0 source p) = p"
  by (simp add: planner_next_batch_def)

lemma planner_sizes_fair:
  assumes "rng_ok R" and "\<And>n m. (n, m) \<in> set calls \<Longrightarrow> 0 < m \<Longrightarrow> batch_cap m = c" and "\<not> mbp_extremes_only p"
  shows "\<exists>cycles. list_all (fair_cycle c) cycles \<and>
    prefix (planner_sizes R p calls) ((if mbp_cycle_cap p = c then mbp_cycle p else []) @ concat cycles)"
  using assms(2,3)
proof (induction calls arbitrary: p)
  case Nil
  show ?case by (rule exI [of _ "[]"]) simp
next
  case (Cons call calls)
  obtain n m where call: "call = (n, m)" by (cases call)
  show ?case
  proof (cases "m = 0")
    case True
    obtain d where "planner_next_batch R n m [] p = (d, p)" using True planner_zero by (metis prod.collapse)
    then have "planner_sizes R p (call # calls) = planner_sizes R p calls" using call True by simp
    moreover have "\<exists>cycles. list_all (fair_cycle c) cycles \<and>
        prefix (planner_sizes R p calls) ((if mbp_cycle_cap p = c then mbp_cycle p else []) @ concat cycles)"
      by (rule Cons.IH) (use Cons.prems in auto)
    ultimately show ?thesis by (simp only:)
  next
    case False
    then have m: "0 < m" by simp
    have cap: "batch_cap m = c" using Cons.prems(1) call m by auto
    then have pos: "0 < c" using m by (auto simp: batch_cap_def MAX_RANDOM_MEMBERSHIP_BATCH_SIZE_def)
    obtain x xs p1 where x: "planner_next_batch R n m [] p =
        (\<lparr>mbd_requested = x, mbd_effective = x, mbd_group_cap = MAX_RANDOM_MEMBERSHIP_BATCH_SIZE, mbd_transition_cap = m, mbd_source = []\<rparr>,
         p1\<lparr>mbp_cycle := xs\<rparr>)" "mbp_cycle p1 = x # xs" "mbp_cycle_cap p1 = batch_cap m"
      "p1 = (if mbp_cycle p = [] \<or> mbp_cycle_cap p \<noteq> batch_cap m then refill_cycle R (batch_cap m) p else p)"
      by (rule planner_next [OF assms(1) m])
    have "\<not> mbp_extremes_only (p1\<lparr>mbp_cycle := xs\<rparr>)" using Cons.prems(2) x(4) by simp
    from Cons.IH [OF _ this] Cons.prems(1) obtain cycles where c: "list_all (fair_cycle c) cycles"
      "prefix (planner_sizes R (p1\<lparr>mbp_cycle := xs\<rparr>) calls) (xs @ concat cycles)"
      using x(3) cap by auto
    have sizes: "planner_sizes R p (call # calls) = x # planner_sizes R (p1\<lparr>mbp_cycle := xs\<rparr>) calls"
      using x(1) m call by simp
    show ?thesis
    proof (cases "mbp_cycle p = [] \<or> mbp_cycle_cap p \<noteq> c")
      case True
      then have "fair_cycle c (x # xs)" using refill_fair [OF assms(1) pos Cons.prems(2)] x(2,4) cap by simp
      then show ?thesis using c True unfolding sizes by (intro exI [of _ "(x # xs) # cycles"]) auto
    next
      case False
      then show ?thesis using c x(2,4) cap unfolding sizes by (intro exI [of _ cycles]) auto
    qed
  qed
qed

section \<open>Several planners side by side\<close>

definition batch_request ::
  "'r rng_api \<Rightarrow> 'r MembershipBatchPlans \<Rightarrow> nat \<times> nat \<times> string option \<Rightarrow> MembershipBatchDecision \<times> 'r MembershipBatchPlans" where
  "batch_request R ps call = (case call of (n, m, actor) \<Rightarrow> plans_next_batch R n m actor ps)"

lemma batch_request_call: "batch_request R ps (n, m, actor) = plans_next_batch R n m actor ps"
  by (simp add: batch_request_def)

definition lane :: "'r rng_api \<Rightarrow> string option \<Rightarrow> 'r MembershipBatchPlans \<Rightarrow> 'r MembershipBatchPlanner" where
  "lane R actor ps = (case actor of None \<Rightarrow> mbps_regular ps | Some a \<Rightarrow> external_planner R a ps)"

text \<open>The sizes granted to one lane of a sequence of requests.\<close>

definition lane_sizes :: "string option \<Rightarrow> ((nat \<times> nat \<times> string option) \<times> MembershipBatchDecision) list \<Rightarrow> nat list" where
  "lane_sizes actor rs = map (\<lambda>(_, d). mbd_requested d) (filter (\<lambda>((n, m, a), d). a = actor \<and> 0 < m) rs)"

lemma planner_next_source:
  "snd (planner_next_batch R n m source p) = snd (planner_next_batch R n m [] p)"
  "mbd_requested (fst (planner_next_batch R n m source p)) = mbd_requested (fst (planner_next_batch R n m [] p))"
  by (simp_all add: planner_next_batch_def Let_def)

lemma lane_after:
  "lane R b (snd (plans_next_batch R n m a ps)) = (if b = a then snd (planner_next_batch R n m [] (lane R a ps)) else lane R b ps)"
  "mbd_requested (fst (plans_next_batch R n m a ps)) = mbd_requested (fst (planner_next_batch R n m [] (lane R a ps)))"
proof -
  let ?r = "if mbps_extremes_only ps then ''extremes_regular'' else ''balanced_seeded_regular''"
  let ?e = "if mbps_extremes_only ps then ''extremes_external'' else ''balanced_seeded_external''"
  note src = planner_next_source [of R n m ?r] planner_next_source [of R n m ?e]
  show "lane R b (snd (plans_next_batch R n m a ps)) = (if b = a then snd (planner_next_batch R n m [] (lane R a ps)) else lane R b ps)"
    by (cases a; cases b) (simp_all only: lane_def plans_next_batch_def external_planner_def case_prod_beta src option.case snd_conv, auto split: option.split)
  show "mbd_requested (fst (plans_next_batch R n m a ps)) = mbd_requested (fst (planner_next_batch R n m [] (lane R a ps)))"
    by (cases a) (simp_all only: lane_def plans_next_batch_def case_prod_beta src option.case fst_conv)
qed

lemma lanes_apart:
  "lane_sizes a (fst (serve_all (batch_request R) ps calls)) =
     planner_sizes R (lane R a ps) (map (\<lambda>(n, m, _). (n, m)) (filter (\<lambda>(_, _, b). b = a) calls))"
proof (induction calls arbitrary: ps)
  case (Cons call calls)
  obtain n m b where call: "call = (n, m, b)" by (cases call)
  obtain d ps1 where d: "plans_next_batch R n m b ps = (d, ps1)" by (cases "plans_next_batch R n m b ps")
  have l: "lane R a ps1 = (if a = b then snd (planner_next_batch R n m [] (lane R b ps)) else lane R a ps)"
    "mbd_requested d = mbd_requested (fst (planner_next_batch R n m [] (lane R b ps)))"
    using lane_after(1) [of R a n m b ps] lane_after(2) [of R n m b ps] d by simp_all
  show ?case using Cons [of ps1] l by (auto simp: call batch_request_call d lane_sizes_def case_prod_beta apfst_def map_prod_def)
qed (simp add: lane_sizes_def)

lemma plans_feasible:
  assumes "rng_ok R" and "\<And>a. planner_ok (lane R a ps)"
    and "((n, m, a), d) \<in> set (fst (serve_all (batch_request R) ps calls))" and "0 < m"
  shows "mbd_requested d \<in> {1..batch_cap m}"
  using assms(2,3)
proof (induction calls arbitrary: ps)
  case (Cons call calls)
  obtain n' m' b where call: "call = (n', m', b)" by (cases call)
  obtain d' ps1 where d: "plans_next_batch R n' m' b ps = (d', ps1)" by (cases "plans_next_batch R n' m' b ps")
  have l: "lane R a ps1 = (if a = b then snd (planner_next_batch R n' m' [] (lane R b ps)) else lane R a ps)"
    "mbd_requested d' = mbd_requested (fst (planner_next_batch R n' m' [] (lane R b ps)))" for a
    using lane_after(1) [of R a n' m' b ps] lane_after(2) [of R n' m' b ps] d by simp_all
  have ok: "planner_ok (lane R a ps1)" for a using l(1) planner_next_ok(1) [OF assms(1)] Cons.prems(1) by simp
  consider "((n, m, a), d) \<in> set (fst (serve_all (batch_request R) ps1 calls))" | "(n, m, a) = (n', m', b)" "d = d'"
    using Cons.prems(2) by (auto simp: call batch_request_call d apfst_def map_prod_def case_prod_beta)
  then show ?case
  proof cases
    case 1
    then show ?thesis using Cons.IH [OF ok] by blast
  next
    case 2
    then show ?thesis using l(2) planner_next_ok(2) [OF assms(1) Cons.prems(1) assms(4)] by simp
  qed
qed simp


definition demo_calls :: "(nat \<times> nat \<times> string option) list" where
  "demo_calls = [(5, 3, None), (8, 9, Some ''p''), (9, 3, None), (10, 3, None), (12, 3, None)]"


end
