(* ===== verification/Fanout_Control.thy ===== *)
theory Fanout_Control
  imports Prelude Complex_Main "HOL-Library.Log_Nat"
begin

text \<open>
  The parallelism of the runner's requests (\<^verbatim>\<open>FanoutController\<close> of \<^verbatim>\<open>src/OpenMLS_containerized/src/staircase_runner.rs\<close> and
  its settings). The error rate is a quotient of two counts in double precision: a finite \<^verbatim>\<open>f64\<close> is the rational number
  it stands for, and a conversion or quotient is rounded to 53 bits, half to even. The counts stay far away from the
  exponents at which doubles overflow or lose precision.
\<close>

section \<open>Double precision\<close>

text \<open>The exponent \<open>e\<close> of a positive number \<open>x\<close>: the largest with \<open>2 ^ e \<le> x\<close>.\<close>

definition binary_exponent :: "rat \<Rightarrow> int" where
  "binary_exponent x =
     (if 1 \<le> x then int (floorlog 2 (nat \<lfloor>x\<rfloor>)) - 1 else - int (floorlog 2 (nat (\<lceil>1 / x\<rceil> - 1))))"

definition round_half_even :: "rat \<Rightarrow> int" where
  "round_half_even x =
     (let n = \<lfloor>x\<rfloor>; f = x - of_int n
      in if f < 1 / 2 then n else if 1 / 2 < f then n + 1 else if even n then n else n + 1)"

definition f64_round :: "rat \<Rightarrow> rat" where
  "f64_round x = (if x = 0 then 0 else let ulp = 2 powi (binary_exponent x - 52) in of_int (round_half_even (x / ulp)) * ulp)"

definition f64_of_usize :: "nat \<Rightarrow> rat" where
  "f64_of_usize n = f64_round (of_nat n)"

definition f64_div :: "rat \<Rightarrow> rat \<Rightarrow> rat" where
  "f64_div a b = f64_round (a / b)"

lemma round_half_even_int [simp]: "round_half_even (of_int k) = k"
  by (simp add: round_half_even_def)

text \<open>Counts below \<open>2 ^ 53\<close> are converted exactly.\<close>

lemma f64_of_usize_exact:
  assumes "n < 2 ^ 53"
  shows "f64_of_usize n = of_nat n"
proof (cases "n = 0")
  case False
  define e where "e = floorlog 2 n"
  have e: "0 < e" "e \<le> 53" using False assms floorlog_le_iff [of 2 n 53] by (auto simp: e_def floorlog_def)
  have x: "binary_exponent (of_nat n) = int e - 1" using False by (simp add: binary_exponent_def e_def)
  have u: "2 powi (binary_exponent (of_nat n) - 52) = inverse (2 ^ (53 - e) :: rat)"
    using e by (simp add: x power_int_def nat_diff_distrib' power_one_over inverse_eq_divide)
  have "of_nat n / inverse (2 ^ (53 - e)) = (of_int (int n * 2 ^ (53 - e)) :: rat)" by (simp add: field_simps)
  then show ?thesis using False by (simp add: f64_of_usize_def f64_round_def Let_def u del: of_int_mult of_int_power) (simp add: field_simps)
qed (simp add: f64_of_usize_def f64_round_def)

section \<open>Settings\<close>

definition DEFAULT_MAX_FANOUT_PARALLELISM :: nat where
  "DEFAULT_MAX_FANOUT_PARALLELISM = 32"

definition DEFAULT_MIN_FANOUT_PARALLELISM :: nat where
  "DEFAULT_MIN_FANOUT_PARALLELISM = 1"

definition ADAPTIVE_FANOUT_START :: nat where
  "ADAPTIVE_FANOUT_START = 16"

definition FANOUT_LATENCY_SPIKE_P95_MS :: nat where
  "FANOUT_LATENCY_SPIKE_P95_MS = 5000"

definition FANOUT_STABLE_INCREASE_AFTER :: nat where
  "FANOUT_STABLE_INCREASE_AFTER = 20"

definition DEFAULT_FANOUT_ERROR_RATE_THRESHOLD :: rat where
  "DEFAULT_FANOUT_ERROR_RATE_THRESHOLD = f64_round (2 / 100)"

definition effective_max_fanout_parallelism :: "nat \<Rightarrow> nat" where
  "effective_max_fanout_parallelism configured = (if 0 < configured then configured else DEFAULT_MAX_FANOUT_PARALLELISM)"

definition effective_min_fanout_parallelism :: "nat \<Rightarrow> nat \<Rightarrow> nat" where
  "effective_min_fanout_parallelism configured max_parallelism =
     clamp_nat (if 0 < configured then configured else DEFAULT_MIN_FANOUT_PARALLELISM) 1 (max max_parallelism 1)"

definition effective_fanout_adaptive :: "bool option \<Rightarrow> nat \<Rightarrow> bool" where
  "effective_fanout_adaptive configured worker_count = (case configured of Some b \<Rightarrow> b | None \<Rightarrow> 256 \<le> worker_count)"

text \<open>An infinite value or a NaN is \<open>None\<close>.\<close>

definition effective_fanout_error_rate_threshold :: "rat option \<Rightarrow> rat" where
  "effective_fanout_error_rate_threshold configured =
     (case configured of
        Some t \<Rightarrow> if 0 < t then t else DEFAULT_FANOUT_ERROR_RATE_THRESHOLD
      | None \<Rightarrow> DEFAULT_FANOUT_ERROR_RATE_THRESHOLD)"

definition effective_fanout_p95_threshold_ms :: "nat \<Rightarrow> nat" where
  "effective_fanout_p95_threshold_ms configured = (if 0 < configured then configured else FANOUT_LATENCY_SPIKE_P95_MS)"

section \<open>The controller\<close>

text \<open>The fields of a summary that the controller reads.\<close>

record FanoutSummary =
  fs_request_count :: nat
  fs_failure_count :: nat
  fs_latency_p95_ms :: "nat option"

record FanoutController =
  fc_max_parallelism :: nat
  fc_min_parallelism :: nat
  fc_current_parallelism :: nat
  fc_adaptive :: bool
  fc_stable_successes :: nat
  fc_error_rate_threshold :: rat
  fc_p95_threshold_ms :: nat

definition fanout_new :: "nat \<Rightarrow> nat \<Rightarrow> bool \<Rightarrow> rat \<Rightarrow> nat \<Rightarrow> FanoutController" where
  "fanout_new max_p min_p adaptive error_rate_threshold p95_threshold_ms =
     (let max_parallelism = max max_p 1; min_parallelism = clamp_nat min_p 1 max_parallelism
      in \<lparr>fc_max_parallelism = max_parallelism, fc_min_parallelism = min_parallelism,
          fc_current_parallelism = (if adaptive then max (min ADAPTIVE_FANOUT_START max_parallelism) min_parallelism else max_parallelism),
          fc_adaptive = adaptive, fc_stable_successes = 0, fc_error_rate_threshold = error_rate_threshold,
          fc_p95_threshold_ms = p95_threshold_ms\<rparr>)"

definition parallelism :: "FanoutController \<Rightarrow> nat" where
  "parallelism c = max (fc_current_parallelism c) 1"

definition should_reduce :: "FanoutController \<Rightarrow> FanoutSummary \<Rightarrow> bool" where
  "should_reduce c summary =
     (let p95 = (case fs_latency_p95_ms summary of Some ms \<Rightarrow> ms | None \<Rightarrow> 0);
          error_rate = (if fs_request_count summary = 0 then 0
                        else f64_div (f64_of_usize (fs_failure_count summary)) (f64_of_usize (fs_request_count summary)));
          latency_spike = fc_p95_threshold_ms c \<le> p95;
          error_spike = fc_error_rate_threshold c \<le> error_rate \<and> 0 < fs_failure_count summary
      in latency_spike \<or> error_spike)"

definition fanout_record :: "FanoutSummary \<Rightarrow> FanoutController \<Rightarrow> FanoutController" where
  "fanout_record summary c =
     (if \<not> fc_adaptive c then c
      else if should_reduce c summary then
        c\<lparr>fc_current_parallelism := max (fc_current_parallelism c div 2) (fc_min_parallelism c), fc_stable_successes := 0\<rparr>
      else
        (let c1 = c\<lparr>fc_stable_successes := fc_stable_successes c + 1\<rparr>
         in if FANOUT_STABLE_INCREASE_AFTER \<le> fc_stable_successes c1 \<and> fc_current_parallelism c1 < fc_max_parallelism c1
            then c1\<lparr>fc_current_parallelism := min (fc_current_parallelism c1 + 4) (fc_max_parallelism c1), fc_stable_successes := 0\<rparr>
            else c1))"

section \<open>Bounds and recovery\<close>

definition fanout_ok :: "FanoutController \<Rightarrow> bool" where
  "fanout_ok c = (1 \<le> fc_min_parallelism c \<and> fc_min_parallelism c \<le> fc_current_parallelism c \<and>
     fc_current_parallelism c \<le> fc_max_parallelism c \<and> (fc_current_parallelism c < fc_max_parallelism c \<longrightarrow> fc_stable_successes c < 20))"

lemma fanout_new_ok: "fanout_ok (fanout_new mx mn a t p)"
  by (auto simp: fanout_ok_def fanout_new_def Let_def clamp_nat_def)

lemma fanout_record_ok: "fanout_ok c \<Longrightarrow> fanout_ok (fanout_record s c)"
  by (auto simp: fanout_ok_def fanout_record_def Let_def FANOUT_STABLE_INCREASE_AFTER_def)

lemma fanout_record_frame [simp]:
  "fc_max_parallelism (fanout_record s c) = fc_max_parallelism c" "fc_min_parallelism (fanout_record s c) = fc_min_parallelism c"
  "fc_adaptive (fanout_record s c) = fc_adaptive c" "should_reduce (fanout_record s c) = should_reduce c"
  by (auto simp: fanout_record_def Let_def should_reduce_def fun_eq_iff)

lemma fold_record_frame [simp]:
  "fc_max_parallelism (fold fanout_record ss c) = fc_max_parallelism c" "fc_min_parallelism (fold fanout_record ss c) = fc_min_parallelism c"
  "fc_adaptive (fold fanout_record ss c) = fc_adaptive c" "should_reduce (fold fanout_record ss c) = should_reduce c"
  by (induction ss arbitrary: c) auto

lemma fold_record_ok: "fanout_ok c \<Longrightarrow> fanout_ok (fold fanout_record ss c)"
  by (induction ss arbitrary: c) (auto intro: fanout_record_ok)

lemma stable_growth:
  assumes "fanout_ok c" and "fc_adaptive c" and "\<And>s. s \<in> set ss \<Longrightarrow> \<not> should_reduce c s"
  shows "fc_current_parallelism (fold fanout_record ss c) =
    min (fc_max_parallelism c) (fc_current_parallelism c + 4 * ((fc_stable_successes c + length ss) div 20))"
  using assms
proof (induction ss arbitrary: c)
  case Nil
  then show ?case by (auto simp: fanout_ok_def)
next
  case (Cons s ss)
  have keep: "\<not> should_reduce c s" using Cons.prems(3) by simp
  have "fc_current_parallelism (fold fanout_record ss (fanout_record s c)) =
      min (fc_max_parallelism c) (fc_current_parallelism (fanout_record s c) + 4 * ((fc_stable_successes (fanout_record s c) + length ss) div 20))"
    using Cons.IH [OF fanout_record_ok [OF Cons.prems(1)]] Cons.prems by simp
  also have "\<dots> = min (fc_max_parallelism c) (fc_current_parallelism c + 4 * ((fc_stable_successes c + length (s # ss)) div 20))"
  proof (cases "20 \<le> fc_stable_successes c + 1 \<and> fc_current_parallelism c < fc_max_parallelism c")
    case True
    then have "fc_stable_successes c = 19" using Cons.prems(1) by (auto simp: fanout_ok_def)
    then show ?thesis using True keep Cons.prems(2) by (auto simp: fanout_record_def FANOUT_STABLE_INCREASE_AFTER_def Let_def)
  next
    case False
    then show ?thesis using keep Cons.prems(1,2) by (auto simp: fanout_record_def FANOUT_STABLE_INCREASE_AFTER_def Let_def fanout_ok_def)
  qed
  finally show ?case by simp
qed

text \<open>
  After any history the parallelism lies between the effective minimum and maximum. A summary with a latency or error
  spike halves it, down to the minimum; and however far it has been reduced, twenty calm summaries for every four
  missing units of parallelism restore the maximum.
\<close>

theorem fanout_recovers:
  assumes "c = fold fanout_record history (fanout_new max_p min_p True threshold p95)"
    and "list_all (\<lambda>s. \<not> should_reduce c s) calm"
    and "20 * div_ceil (fc_max_parallelism c - fc_min_parallelism c) 4 \<le> length calm"
  shows "fc_min_parallelism c \<le> parallelism c \<and> parallelism c \<le> fc_max_parallelism c \<and> fc_max_parallelism c = max max_p 1 \<and>
    (\<forall>s. should_reduce c s \<longrightarrow> parallelism (fanout_record s c) = max (parallelism c div 2) (fc_min_parallelism c)) \<and>
    parallelism (fold fanout_record calm c) = fc_max_parallelism c"
proof -
  have ok: "fanout_ok c" unfolding assms(1) by (intro fold_record_ok fanout_new_ok)
  have ad: "fc_adaptive c" and mx: "fc_max_parallelism c = max max_p 1" unfolding assms(1) by (simp_all add: fanout_new_def Let_def)
  have p: "parallelism c = fc_current_parallelism c" using ok by (simp add: parallelism_def fanout_ok_def)
  have "fc_current_parallelism (fold fanout_record calm c) =
      min (fc_max_parallelism c) (fc_current_parallelism c + 4 * ((fc_stable_successes c + length calm) div 20))"
    by (rule stable_growth [OF ok ad]) (use assms(2) in \<open>simp add: list_all_iff\<close>)
  moreover have "fc_max_parallelism c - fc_min_parallelism c \<le> 4 * ((fc_stable_successes c + length calm) div 20)"
  proof -
    have "div_ceil (fc_max_parallelism c - fc_min_parallelism c) 4 \<le> (fc_stable_successes c + length calm) div 20"
      using assms(3) by linarith
    then show ?thesis by (simp add: div_ceil_le_iff)
  qed
  ultimately have "fc_current_parallelism (fold fanout_record calm c) = fc_max_parallelism c" using ok unfolding fanout_ok_def by linarith
  moreover have "parallelism (fanout_record s c) = max (parallelism c div 2) (fc_min_parallelism c)" if "should_reduce c s" for s
    using that ad ok p by (simp add: fanout_record_def parallelism_def fanout_ok_def) linarith
  ultimately show ?thesis using ok p mx by (auto simp: fanout_ok_def parallelism_def)
qed


definition demo_history :: "FanoutSummary list" where
  "demo_history = [\<lparr>fs_request_count = 100, fs_failure_count = 2, fs_latency_p95_ms = None\<rparr>,
                   \<lparr>fs_request_count = 10, fs_failure_count = 0, fs_latency_p95_ms = Some 5000\<rparr>]"

definition demo_fanout :: FanoutController where
  "demo_fanout = fold fanout_record demo_history (fanout_new 8 1 True DEFAULT_FANOUT_ERROR_RATE_THRESHOLD 5000)"

definition demo_calm :: FanoutSummary where
  "demo_calm = \<lparr>fs_request_count = 100, fs_failure_count = 0, fs_latency_p95_ms = Some 4999\<rparr>"

text \<open>Two failures in a hundred requests reach the default threshold.\<close>

lemma demo_spikes:
  "should_reduce (fanout_new 8 1 True DEFAULT_FANOUT_ERROR_RATE_THRESHOLD 5000) s \<longleftrightarrow>
     (s = demo_history ! 0 \<or> s = demo_history ! 1)" if "s = demo_calm \<or> s = demo_history ! 0 \<or> s = demo_history ! 1" for s
  using that by (auto simp: should_reduce_def fanout_new_def Let_def demo_history_def demo_calm_def f64_of_usize_exact f64_div_def
      DEFAULT_FANOUT_ERROR_RATE_THRESHOLD_def)

lemma demo_fanout_reduced:
  "fc_current_parallelism demo_fanout = 2" "fc_max_parallelism demo_fanout = 8" "fc_min_parallelism demo_fanout = 1"
  "\<not> should_reduce demo_fanout demo_calm" "should_reduce demo_fanout (demo_history ! 0)"
proof -
  let ?c = "fanout_new 8 1 True DEFAULT_FANOUT_ERROR_RATE_THRESHOLD 5000"
  have h: "demo_history = [demo_history ! 0, demo_history ! 1]" by (simp add: demo_history_def)
  have f: "demo_fanout = fanout_record (demo_history ! 1) (fanout_record (demo_history ! 0) ?c)"
    unfolding demo_fanout_def by (subst h) simp
  have sr: "should_reduce demo_fanout = should_reduce ?c" unfolding f by simp
  show "\<not> should_reduce demo_fanout demo_calm" "should_reduce demo_fanout (demo_history ! 0)"
    unfolding sr using demo_spikes [of demo_calm] demo_spikes [of "demo_history ! 0"] by (auto simp: demo_calm_def demo_history_def)
  show "fc_max_parallelism demo_fanout = 8" "fc_min_parallelism demo_fanout = 1"
    unfolding f by (simp_all add: fanout_new_def Let_def clamp_nat_def)
  have "fc_adaptive ?c" "fc_current_parallelism ?c = 8" "fc_min_parallelism ?c = 1"
    by (simp_all add: fanout_new_def Let_def clamp_nat_def ADAPTIVE_FANOUT_START_def)
  then show "fc_current_parallelism demo_fanout = 2"
    using demo_spikes [of "demo_history ! 0"] demo_spikes [of "demo_history ! 1"] unfolding f
    by (simp add: fanout_record_def should_reduce_def)
qed

theorem fanout_recovers_witness:
  "parallelism demo_fanout = 2 \<and> parallelism (fanout_record (demo_history ! 0) demo_fanout) = 1 \<and>
   parallelism (fold fanout_record (replicate 40 demo_calm) demo_fanout) = 8"
  using fanout_recovers [OF demo_fanout_def, of "replicate 40 demo_calm"] demo_fanout_reduced
  by (simp add: list_all_iff div_ceil_def parallelism_def)

end
