(* ===== verification/Member_Selection.thy ===== *)
theory Member_Selection
  imports Staircase_Config "HOL-Library.Product_Lexorder"
begin

text \<open>
  Which members act, which are removed and how much work a plateau takes
  (\<^verbatim>\<open>src/OpenMLS_containerized/src/staircase_runner.rs\<close>): the choice of the member that removes others and of those it
  may remove, the pairs of external devices for the remove-and-rejoin phase, the members sampled for an operation, and
  the estimate of the number of operations of a run.
\<close>

section \<open>Groups of workers\<close>

definition active_external_indices :: "WorkerSpec list \<Rightarrow> nat list" where
  "active_external_indices active =
     filter (\<lambda>idx. ws_profile_enabled (active ! idx) \<and> is_external_device (active ! idx)) [0..<length active]"

definition active_profiled_indices :: "WorkerSpec list \<Rightarrow> nat list" where
  "active_profiled_indices active = filter (\<lambda>idx. ws_profile_enabled (active ! idx)) [0..<length active]"

definition active_profiled_non_external_indices :: "WorkerSpec list \<Rightarrow> nat list" where
  "active_profiled_non_external_indices active =
     filter (\<lambda>idx. ws_profile_enabled (active ! idx) \<and> \<not> is_external_device (active ! idx)) [0..<length active]"

definition measured_active_clients :: "WorkerSpec list \<Rightarrow> WorkerSpec list" where
  "measured_active_clients active = filter ws_profile_enabled active"

definition any_profile_enabled_remaining :: "WorkerSpec list \<Rightarrow> WorkerSpec list \<Rightarrow> bool" where
  "any_profile_enabled_remaining active idle = list_ex ws_profile_enabled (active @ idle)"

definition frontload_profile_enabled_singletons_in_idle :: "WorkerSpec list \<Rightarrow> WorkerSpec list" where
  "frontload_profile_enabled_singletons_in_idle idle =
     (let singleton = (\<lambda>w. ws_profile_enabled w \<and> ws_container_mode w = Singleton)
      in filter is_external_device idle @ filter (\<lambda>w. \<not> is_external_device w \<and> singleton w) idle @
         filter (\<lambda>w. \<not> is_external_device w \<and> \<not> singleton w) idle)"

definition physical_groups :: "WorkerSpec list \<Rightarrow> string \<rightharpoonup> WorkerSpec list" where
  "physical_groups workers =
     foldl (\<lambda>groups w. groups(ws_physical_worker_id w \<mapsto>
              (case groups (ws_physical_worker_id w) of Some ws \<Rightarrow> ws | None \<Rightarrow> []) @ [w])) Map.empty workers"

section \<open>Removals\<close>

definition removable_member_indices :: "WorkerSpec list \<Rightarrow> nat \<Rightarrow> bool \<Rightarrow> bool \<Rightarrow> nat list" where
  "removable_member_indices active actor_idx protect_external_members protect_profile_enabled_members =
     filter (\<lambda>idx. idx \<noteq> actor_idx \<and> (\<not> protect_external_members \<or> \<not> is_external_device (active ! idx)) \<and>
                   (\<not> protect_profile_enabled_members \<or> \<not> ws_profile_enabled (active ! idx))) [0..<length active]"

definition find_position :: "('a \<Rightarrow> bool) \<Rightarrow> 'a list \<Rightarrow> nat option" where
  "find_position P xs = (if list_ex P xs then Some (length (takeWhile (\<lambda>x. \<not> P x) xs)) else None)"

definition pick :: "'r rng_api \<Rightarrow> 'a list \<Rightarrow> 'r \<Rightarrow> 'a \<times> 'r" where
  "pick R xs s = apfst ((!) xs) (gen_range R 0 (length xs - 1) s)"

definition choose_remove_actor_and_removable_indices ::
  "'r rng_api \<Rightarrow> WorkerSpec list \<Rightarrow> string option \<Rightarrow> bool \<Rightarrow> bool \<Rightarrow> nat \<Rightarrow> 'r \<Rightarrow> (nat \<times> nat list) result \<times> 'r" where
  "choose_remove_actor_and_removable_indices R active forced_actor_id protect_external protect_profiled requested_batch_size s =
     (let removable = (\<lambda>actor_idx. removable_member_indices active actor_idx protect_external protect_profiled)
      in case Option.bind forced_actor_id (\<lambda>actor_id. find_position (\<lambda>w. ws_id w = actor_id) active) of
        Some actor_idx \<Rightarrow> (Inr (actor_idx, removable actor_idx), s)
      | None \<Rightarrow>
          (let candidates = map (\<lambda>actor_idx. (actor_idx, removable actor_idx)) [0..<length active];
               capable = filter (\<lambda>(_, r). requested_batch_size \<le> length r) candidates
           in if capable \<noteq> [] then apfst Inr (pick R capable s)
              else
                (let max_removable = foldl max 0 (map (\<lambda>(_, r). length r) candidates);
                     best = filter (\<lambda>(_, r). length r = max_removable) candidates
                 in if best = [] then (Inl ''No active removal actor candidates'', s) else apfst Inr (pick R best s))))"

definition external_remove_rejoin_pairs :: "WorkerSpec list \<Rightarrow> (string \<times> string) list" where
  "external_remove_rejoin_pairs active =
     (let external_ids = sort (map ws_id (filter (\<lambda>w. ws_profile_enabled w \<and> is_external_device w) active))
      in if length external_ids < 2 then []
         else map (\<lambda>idx. (external_ids ! idx, external_ids ! ((idx + 1) mod length external_ids))) [0..<length external_ids])"

section \<open>Actors\<close>

definition use_count :: "(string \<rightharpoonup> nat) \<Rightarrow> string \<Rightarrow> nat" where
  "use_count counts worker = (case counts worker of Some n \<Rightarrow> n | None \<Rightarrow> 0)"

definition least_used_external_actor_id ::
  "'r rng_api \<Rightarrow> WorkerSpec list \<Rightarrow> (string \<rightharpoonup> nat) \<Rightarrow> 'r \<Rightarrow> string option \<times> 'r" where
  "least_used_external_actor_id R active actor_use_counts s =
     (let external = filter is_external_device active
      in if external = [] then (None, s)
         else
           (let minimum = Min (set (map (\<lambda>w. use_count actor_use_counts (ws_id w)) external));
                candidates = map ws_id (filter (\<lambda>w. is_external_device w \<and> use_count actor_use_counts (ws_id w) = minimum) active)
            in case shuffle R candidates s of (mixed, s1) \<Rightarrow> (if mixed = [] then None else Some (last mixed), s1)))"

definition least_sampled_active_external_id :: "WorkerSpec list \<Rightarrow> (string \<rightharpoonup> nat) \<Rightarrow> nat \<Rightarrow> string option" where
  "least_sampled_active_external_id active success_counts required =
     (let open_workers = filter (\<lambda>w. use_count success_counts (ws_id w) < required)
                           (filter (\<lambda>w. ws_profile_enabled w \<and> is_external_device w) active)
      in if open_workers = [] then None
         else Some (ws_id (arg_min_list (\<lambda>w. (use_count success_counts (ws_id w), ws_id w)) open_workers)))"

text \<open>The expectation that a second external device is active is a panic otherwise: \<open>None\<close>.\<close>

definition select_supplemental_remove_receiver_roles ::
  "WorkerSpec list \<Rightarrow> string list \<Rightarrow> (string \<rightharpoonup> nat) \<Rightarrow> (string \<rightharpoonup> nat) \<Rightarrow> nat \<Rightarrow> nat \<Rightarrow> (string \<times> string \<times> string) option result option" where
  "select_supplemental_remove_receiver_roles active external_ids actor_counts receiver_counts required plateau_size =
     (let receivers = filter (\<lambda>i. use_count receiver_counts i < required) external_ids
      in if receivers = [] then Some (Inr None)
         else
           (let receiver_id = arg_min_list (\<lambda>i. (use_count receiver_counts i, i)) receivers;
                actors = filter (\<lambda>i. i \<noteq> receiver_id) external_ids
            in if actors = [] then None
               else
                 (let actor_id = arg_min_list (\<lambda>i. (use_count actor_counts i, i)) actors;
                      victims = filter (\<lambda>w. ws_id w \<noteq> actor_id \<and> ws_id w \<noteq> receiver_id) (filter (\<lambda>w. \<not> is_external_device w) active)
                  in if victims = [] then
                       Some (Inl (''remove/rejoin receiver density at plateau '' @ show_nat plateau_size @
                                  '' needs a non-external victim after external attrition''))
                     else Some (Inr (Some (actor_id, ws_id (arg_min_list (\<lambda>w. (ws_profile_enabled w, ws_id w)) victims), receiver_id))))))"

text \<open>The assertions panic: \<open>None\<close>. The product is computed in 128 bits and does not overflow.\<close>

definition sampled_member_index :: "nat \<Rightarrow> nat \<Rightarrow> nat \<Rightarrow> nat option" where
  "sampled_member_index member_count sample_count seq_no =
     (if member_count = 0 \<or> sample_count = 0 then None
      else if member_count \<le> sample_count then Some (seq_no mod member_count)
      else Some ((seq_no mod sample_count + 1) * member_count div sample_count - 1))"

section \<open>Amount of work\<close>

definition cap_count :: "nat \<Rightarrow> nat \<Rightarrow> nat" where
  "cap_count raw cap = (if cap = 0 then 0 else min raw cap)"

definition update_ops_for_plateau :: "nat \<Rightarrow> nat \<Rightarrow> nat \<Rightarrow> nat" where
  "update_ops_for_plateau group_size update_rounds max_update_samples_per_plateau =
     cap_count (usize_saturating_mul update_rounds group_size) max_update_samples_per_plateau"

definition app_sends_per_payload_for_plateau :: "nat \<Rightarrow> nat \<Rightarrow> nat \<Rightarrow> nat" where
  "app_sends_per_payload_for_plateau group_size app_rounds max_app_samples_per_payload =
     (if group_size < 2 then 0 else cap_count (usize_saturating_mul app_rounds group_size) max_app_samples_per_payload)"

definition app_ops_for_plateau :: "nat \<Rightarrow> nat \<Rightarrow> nat \<Rightarrow> nat \<Rightarrow> nat" where
  "app_ops_for_plateau group_size app_rounds max_app_samples_per_payload payload_count =
     usize_saturating_mul (app_sends_per_payload_for_plateau group_size app_rounds max_app_samples_per_payload) payload_count"

text \<open>One turn of the loop over the plateaus; the plain product of the coverage lane wraps around.\<close>

definition estimate_step ::
  "nat \<Rightarrow> nat \<Rightarrow> nat \<Rightarrow> nat \<Rightarrow> nat \<Rightarrow> nat \<Rightarrow> bool \<Rightarrow> nat \<Rightarrow> nat \<times> nat \<Rightarrow> nat \<Rightarrow> nat \<times> nat" where
  "estimate_step update_rounds app_rounds max_update max_app payload_count external_device_count external_coverage_lane
       min_profiled st target =
     (let (total, current_size) = st;
          total = usize_saturating_add total (if current_size \<le> target then target - current_size else current_size - target);
          update_ops = update_ops_for_plateau target update_rounds max_update;
          app_ops = app_ops_for_plateau target app_rounds max_app payload_count;
          per_payload = app_sends_per_payload_for_plateau target app_rounds max_app;
          (total, update_ops, app_ops) =
            (if 0 < external_device_count \<and> 2 \<le> target then
               (let active_external = min external_device_count (target - 1);
                    profiled_actor_count = active_external + (if active_external < target then 1 else 0);
                    required = usize_saturating_mul profiled_actor_count (max min_profiled 1)
                in if external_coverage_lane then
                     (if 0 < min_profiled then
                        usize_saturating_add total (usize_saturating_mul (usize_saturating_mul active_external min_profiled) 18)
                      else total,
                      max update_ops required,
                      max app_ops ((max per_payload required * payload_count) mod 2 ^ 64))
                   else if per_payload = 1 then (usize_saturating_add total payload_count, update_ops, app_ops)
                   else (total, update_ops, app_ops))
             else (total, update_ops, app_ops))
      in (usize_saturating_add (usize_saturating_add total update_ops) app_ops, target))"

definition estimate_total_units ::
  "nat list \<Rightarrow> nat \<Rightarrow> nat \<Rightarrow> nat \<Rightarrow> nat \<Rightarrow> nat \<Rightarrow> nat \<Rightarrow> bool \<Rightarrow> nat \<Rightarrow> nat" where
  "estimate_total_units plateau_sequence update_rounds app_rounds max_update max_app payload_count external_device_count
       external_coverage_lane min_profiled =
     fst (foldl (estimate_step update_rounds app_rounds max_update max_app payload_count external_device_count
                   external_coverage_lane min_profiled) (1, 1) plateau_sequence)"

text \<open>
  \<^verbatim>\<open>truncate\<close> panics inside a multi-byte character: the byte at the cut is then a continuation byte.
\<close>

definition is_char_boundary :: "nat \<Rightarrow> string \<Rightarrow> bool" where
  "is_char_boundary i s = (i = length s \<or> (i < length s \<and> \<not> (128 \<le> (of_char (s ! i) :: nat) \<and> (of_char (s ! i) :: nat) < 192)))"

definition payload_seed :: "nat \<Rightarrow> nat \<Rightarrow> nat \<Rightarrow> string \<Rightarrow> string" where
  "payload_seed plateau_size payload_size seq_no actor_id =
     ''plateau='' @ show_nat plateau_size @ '';payload='' @ show_nat payload_size @ '';seq='' @ show_nat seq_no @
     '';actor='' @ actor_id @ '';''"

partial_function (option) fill_loop :: "nat \<Rightarrow> string \<Rightarrow> string \<Rightarrow> string option" where
  "fill_loop len seed out = (if length out < len then fill_loop len seed (out @ seed) else Some out)"

declare fill_loop.simps [simp del]

definition deterministic_payload :: "nat \<Rightarrow> nat \<Rightarrow> nat \<Rightarrow> nat \<Rightarrow> string \<Rightarrow> string option" where
  "deterministic_payload len plateau_size payload_size seq_no actor_id =
     (if len = 0 then Some []
      else case fill_loop len (payload_seed plateau_size payload_size seq_no actor_id) [] of
             None \<Rightarrow> None
           | Some out \<Rightarrow> if is_char_boundary len out then Some (take len out) else None)"

section \<open>Removals spare the protected members\<close>

lemma removable_indices:
  "i \<in> set (removable_member_indices active actor pe pp) \<longleftrightarrow>
     i < length active \<and> i \<noteq> actor \<and> (pe \<longrightarrow> \<not> is_external_device (active ! i)) \<and> (pp \<longrightarrow> \<not> ws_profile_enabled (active ! i))"
  by (auto simp: removable_member_indices_def)

lemma pick_member: "rng_ok R \<Longrightarrow> xs \<noteq> [] \<Longrightarrow> fst (pick R xs s) \<in> set xs"
proof -
  assume "rng_ok R" "xs \<noteq> []"
  then have "fst (gen_range R 0 (length xs - 1) s) \<le> length xs - 1" by (simp add: rng_ok_def)
  then have "fst (gen_range R 0 (length xs - 1) s) < length xs" using \<open>xs \<noteq> []\<close> by (cases xs) auto
  then show ?thesis by (simp add: pick_def)
qed

lemma find_position_Some: "find_position P xs = Some i \<Longrightarrow> i < length xs \<and> P (xs ! i)"
  by (induction xs arbitrary: i) (auto simp: find_position_def split: if_splits)

lemma foldl_max_upper: "x \<in> set xs \<Longrightarrow> x \<le> foldl max (a :: nat) xs"
proof (induction xs rule: rev_induct)
  case (snoc y xs)
  then show ?case by (auto simp: max_def)
qed simp

lemma foldl_max_in: "xs \<noteq> [] \<Longrightarrow> foldl max (0 :: nat) xs \<in> set xs"
proof (induction xs rule: rev_induct)
  case (snoc x xs)
  then show ?case by (cases "xs = []") (auto simp: max_def)
qed simp

lemma choose_free_actor:
  assumes "rng_ok R" and "active \<noteq> []" and "Option.bind forced (\<lambda>a. find_position (\<lambda>w. ws_id w = a) active) = None"
  shows "\<exists>i s'. choose_remove_actor_and_removable_indices R active forced pe pp n s =
      (Inr (i, removable_member_indices active i pe pp), s') \<and> i < length active \<and>
      (\<forall>other < length active. min n (length (removable_member_indices active other pe pp)) \<le> length (removable_member_indices active i pe pp))"
proof -
  let ?rem = "\<lambda>i. removable_member_indices active i pe pp"
  let ?cands = "map (\<lambda>i. (i, ?rem i)) [0..<length active]"
  let ?capable = "filter (\<lambda>(_, r). n \<le> length r) ?cands"
  define m where "m = foldl max 0 (map (\<lambda>(_, r). length r) ?cands)"
  let ?best = "filter (\<lambda>(_, r). length r = m) ?cands"
  have choice: "choose_remove_actor_and_removable_indices R active forced pe pp n s =
      (if ?capable \<noteq> [] then apfst Inr (pick R ?capable s)
       else if ?best = [] then (Inl ''No active removal actor candidates'', s) else apfst Inr (pick R ?best s))"
    unfolding choose_remove_actor_and_removable_indices_def Let_def assms(3) option.case m_def [symmetric] ..
  show ?thesis
  proof (cases "?capable = []")
    case False
    obtain x s' where p: "pick R ?capable s = (x, s')" by (cases "pick R ?capable s")
    then have "x \<in> set ?capable" using pick_member [OF assms(1) False, of s] by simp
    then obtain i where i: "x = (i, ?rem i)" "i < length active" "n \<le> length (?rem i)" by auto
    then have "choose_remove_actor_and_removable_indices R active forced pe pp n s = (Inr (i, ?rem i), s')"
      using False p by (simp only: choice if_True not_False_eq_True apfst_conv)
    then show ?thesis using i by auto
  next
    case True
    have "m \<in> set (map (\<lambda>(_, r). length r) ?cands)" unfolding m_def by (rule foldl_max_in) (use assms(2) in simp)
    then have ne: "?best \<noteq> []" by (auto simp: filter_empty_conv)
    obtain x s' where p: "pick R ?best s = (x, s')" by (cases "pick R ?best s")
    then have "x \<in> set ?best" using pick_member [OF assms(1) ne, of s] by simp
    then obtain i where i: "x = (i, ?rem i)" "i < length active" "length (?rem i) = m" by auto
    have "length (?rem other) \<le> m" if "other < length active" for other
      unfolding m_def by (rule foldl_max_upper) (use that in auto)
    moreover have "choose_remove_actor_and_removable_indices R active forced pe pp n s = (Inr (i, ?rem i), s')"
      using True ne p i(1) by (simp only: choice if_False not_True_eq_False simp_thms apfst_conv)
    ultimately show ?thesis using i by (auto simp: min.coboundedI2)
  qed
qed

text \<open>
  The member chosen to remove others is active and is not among those it may remove, and no protected member is. If no
  actor is prescribed and some member could remove the requested number, the chosen one can; otherwise it can remove as
  many as any. Only an empty group has nobody to choose.
\<close>

theorem removal_spares_protected:
  assumes "rng_ok R" and "active \<noteq> []"
  shows "\<exists>actor removable s'. choose_remove_actor_and_removable_indices R active forced pe pp n s = (Inr (actor, removable), s') \<and>
    actor < length active \<and> sorted_wrt (<) removable \<and>
    set removable = {i. i < length active \<and> i \<noteq> actor \<and> (pe \<longrightarrow> \<not> is_external_device (active ! i)) \<and> (pp \<longrightarrow> \<not> ws_profile_enabled (active ! i))} \<and>
    (case Option.bind forced (\<lambda>a. find_position (\<lambda>w. ws_id w = a) active) of
       Some i \<Rightarrow> actor = i \<and> forced = Some (ws_id (active ! i))
     | None \<Rightarrow> \<forall>other < length active. min n (length (removable_member_indices active other pe pp)) \<le> length removable)"
proof -
  let ?rem = "\<lambda>i. removable_member_indices active i pe pp"
  have rem: "sorted_wrt (<) (?rem i)"
    "set (?rem i) = {j. j < length active \<and> j \<noteq> i \<and> (pe \<longrightarrow> \<not> is_external_device (active ! j)) \<and> (pp \<longrightarrow> \<not> ws_profile_enabled (active ! j))}" for i
    by (auto simp: removable_member_indices_def sorted_wrt_filter)
  show ?thesis
  proof (cases "Option.bind forced (\<lambda>a. find_position (\<lambda>w. ws_id w = a) active)")
    case (Some i)
    then have "i < length active \<and> forced = Some (ws_id (active ! i))"
      by (cases forced) (auto dest: find_position_Some)
    then show ?thesis using Some rem by (simp add: choose_remove_actor_and_removable_indices_def Let_def)
  next
    case None
    from choose_free_actor [OF assms None, of pe pp n s] show ?thesis using None rem by auto
  qed
qed


definition demo_active :: "WorkerSpec list" where
  "demo_active =
     [(worker_spec_legacy ''a'' ''u'')\<lparr>ws_device_kind := ''phone''\<rparr>, worker_spec_legacy ''b'' ''u'',
      (worker_spec_legacy ''c'' ''u'')\<lparr>ws_profile_enabled := False\<rparr>]"

theorem removal_spares_protected_witness:
  "\<exists>actor removable s'.
     choose_remove_actor_and_removable_indices plain_rng demo_active (Some ''a'') True False 2 () = (Inr (actor, removable), s') \<and>
     actor = 0 \<and> set removable = {1, 2}"
proof -
  have pos: "Option.bind (Some ''a'') (\<lambda>a. find_position (\<lambda>w. ws_id w = a) demo_active) = Some 0"
    by (simp add: demo_active_def worker_spec_legacy_def find_position_def)
  have "demo_active \<noteq> []" by (simp add: demo_active_def)
  from removal_spares_protected [OF plain_rng_ok this, of "Some ''a''" True False 2 "()"] pos
  obtain removable s' where r: "choose_remove_actor_and_removable_indices plain_rng demo_active (Some ''a'') True False 2 () = (Inr (0, removable), s')"
    "set removable = {i. i < length demo_active \<and> i \<noteq> 0 \<and> \<not> is_external_device (demo_active ! i)}" by auto
  have "{i. i < length demo_active \<and> i \<noteq> 0 \<and> \<not> is_external_device (demo_active ! i)} = {1, 2}"
    by (auto simp: demo_active_def is_external_device_def worker_spec_legacy_def nth_Cons' split: if_splits)
  then show ?thesis using r by blast
qed

section \<open>Sampled members and pairs of devices\<close>

lemma sampled_step:
  fixes m s k :: nat
  assumes "0 < s" and "s \<le> m"
  shows "(k + 1) * m div s < (k + 2) * m div s" and "(k + 2) * m div s \<le> (k + 1) * m div s + div_ceil m s"
proof -
  have e: "(k + 2) * m = (k + 1) * m + m" by simp
  have "((k + 1) * m + s) div s \<le> (k + 2) * m div s" unfolding e using assms(2) by (intro div_le_mono) simp
  moreover have "((k + 1) * m + s) div s = (k + 1) * m div s + 1" using assms(1) by (intro div_add_self2) simp
  ultimately show "(k + 1) * m div s < (k + 2) * m div s" by linarith
  have "m \<le> s * div_ceil m s" using div_ceil_le_iff [OF assms(1), of m "div_ceil m s"] by simp
  then have "(k + 2) * m div s \<le> ((k + 1) * m + s * div_ceil m s) div s" unfolding e by (intro div_le_mono) simp
  then show "(k + 2) * m div s \<le> (k + 1) * m div s + div_ceil m s" using assms(1) by simp
qed

text \<open>
  The member sampled for an operation always exists. Over one round of samples the members are distinct and spread
  evenly: neighbours are at most the rounded-up quotient apart and the last member is among them; with at least as many
  samples as members, every member is sampled.
\<close>

theorem sampled_members_spread:
  assumes "0 < m" and "0 < s"
  shows "\<exists>f. (\<forall>k. sampled_member_index m s k = Some (f k) \<and> f k < m) \<and>
    (s \<le> m \<longrightarrow> f (s - 1) = m - 1 \<and> (\<forall>k. Suc k < s \<longrightarrow> f k < f (Suc k) \<and> f (Suc k) \<le> f k + div_ceil m s)) \<and>
    (m \<le> s \<longrightarrow> f ` {..<s} = {..<m})"
proof (cases "m \<le> s")
  case True
  have "(\<lambda>k. k mod m) ` {..<s} = {..<m}"
  proof (intro equalityI subsetI)
    fix x
    assume "x \<in> {..<m}"
    then show "x \<in> (\<lambda>k. k mod m) ` {..<s}" using True by (intro image_eqI [of _ _ x]) auto
  qed (use assms(1) in auto)
  then show ?thesis using True assms
    by (intro exI [of _ "\<lambda>k. k mod m"]) (auto simp: sampled_member_index_def div_ceil_def)
next
  case False
  let ?g = "\<lambda>k. (k mod s + 1) * m div s"
  have pos: "0 < ?g k" for k
  proof -
    have "1 * s \<le> (k mod s + 1) * m" by (intro mult_le_mono) (use False in auto)
    then show ?thesis using assms(2) by (simp add: div_greater_zero_iff)
  qed
  have le: "?g k \<le> m" for k
  proof -
    have "(k mod s + 1) * m \<le> s * m" using assms(2) by (intro mult_le_mono1) (simp add: Suc_leI)
    then have "?g k \<le> s * m div s" by (rule div_le_mono)
    then show ?thesis using assms(2) by simp
  qed
  have step: "?g k < ?g (Suc k) \<and> ?g (Suc k) \<le> ?g k + div_ceil m s" if "Suc k < s" for k
    using sampled_step [OF assms(2), of m k] that False by simp
  have "?g (s - 1) = m" using assms(2) by simp
  moreover have "sampled_member_index m s k = Some (?g k - 1) \<and> ?g k - 1 < m" for k
    using assms False pos [of k] le [of k] by (simp add: sampled_member_index_def)
  moreover have "?g k - 1 < ?g (Suc k) - 1 \<and> ?g (Suc k) - 1 \<le> ?g k - 1 + div_ceil m s" if "Suc k < s" for k
    using step [OF that] pos [of k] by linarith
  ultimately show ?thesis using False by (intro exI [of _ "\<lambda>k. ?g k - 1"]) simp
qed


theorem sampled_members_spread_witness:
  "\<exists>f. (\<forall>k. sampled_member_index 10 4 k = Some (f k)) \<and> f 3 = 9 \<and> f 0 < f 1 \<and> f 1 \<le> f 0 + 3"
proof -
  obtain f where f: "\<forall>k. sampled_member_index 10 4 k = Some (f k) \<and> f k < 10" "f 3 = 9"
    "\<forall>k. Suc k < 4 \<longrightarrow> f k < f (Suc k) \<and> f (Suc k) \<le> f k + 3"
    using sampled_members_spread [of 10 4] by (auto simp: div_ceil_def)
  have "f 0 < f 1 \<and> f 1 \<le> f 0 + 3" using f(3) [rule_format, of 0] by simp
  then show ?thesis using f(1,2) by blast
qed

text \<open>
  In the remove-and-rejoin phase every profiled external device is removed exactly once and removes exactly once, and
  none removes itself, when there are at least two.
\<close>

theorem rejoin_pairs_cycle:
  assumes "ids = map ws_id (filter (\<lambda>w. ws_profile_enabled w \<and> is_external_device w) active)" and "distinct ids" and "2 \<le> length ids"
  shows "mset (map fst (external_remove_rejoin_pairs active)) = mset ids \<and>
    map snd (external_remove_rejoin_pairs active) = rotate1 (map fst (external_remove_rejoin_pairs active)) \<and>
    list_all (\<lambda>(victim, actor). victim \<noteq> actor) (external_remove_rejoin_pairs active)"
proof -
  define xs where "xs = sort ids"
  have xs: "mset xs = mset ids" "distinct xs" "2 \<le> length xs" using assms(2,3) by (simp_all add: xs_def)
  have pairs: "external_remove_rejoin_pairs active = map (\<lambda>i. (xs ! i, xs ! ((i + 1) mod length xs))) [0..<length xs]"
    using xs(3) unfolding external_remove_rejoin_pairs_def Let_def assms(1) [symmetric] xs_def [symmetric] by simp
  have fst: "map fst (external_remove_rejoin_pairs active) = xs"
    unfolding pairs by (simp add: comp_def map_nth)
  have "map snd (external_remove_rejoin_pairs active) = rotate1 xs"
    unfolding pairs by (rule nth_equalityI) (simp_all add: nth_rotate1)
  moreover have "xs ! i \<noteq> xs ! ((i + 1) mod length xs)" if "i < length xs" for i
  proof -
    have "(i + 1) mod length xs < length xs" by (rule mod_less_divisor) (use xs(3) in linarith)
    moreover have "i \<noteq> (i + 1) mod length xs" using that xs(3) by (cases "i + 1 = length xs") auto
    ultimately show ?thesis using xs(2) that by (simp add: nth_eq_iff_index_eq)
  qed
  then have "list_all (\<lambda>(victim, actor). victim \<noteq> actor) (external_remove_rejoin_pairs active)"
    unfolding pairs by (auto simp: list_all_iff)
  ultimately show ?thesis using xs(1) fst by simp
qed

definition demo_devices :: "WorkerSpec list" where
  "demo_devices = map (\<lambda>i. (worker_spec_legacy i ''u'')\<lparr>ws_device_kind := ''phone''\<rparr>) [''b'', ''a'', ''c'']"

theorem rejoin_pairs_cycle_witness:
  "mset (map fst (external_remove_rejoin_pairs demo_devices)) = mset [''b'', ''a'', ''c'']"
  using rejoin_pairs_cycle [of "[''b'', ''a'', ''c'']" demo_devices]
  by (simp add: demo_devices_def is_external_device_def worker_spec_legacy_def)

section \<open>Amounts\<close>

lemma fill_loop_fills:
  assumes "seed \<noteq> []"
  shows "\<exists>n. fill_loop len seed out = Some (out @ concat (replicate n seed)) \<and> len \<le> length (out @ concat (replicate n seed))"
proof (induction "len - length out" arbitrary: out rule: less_induct)
  case less
  show ?case
  proof (cases "length out < len")
    case True
    have "len - length (out @ seed) < len - length out" using True assms by (cases seed) auto
    from less [OF this] obtain n where "fill_loop len seed (out @ seed) = Some ((out @ seed) @ concat (replicate n seed))"
      "len \<le> length ((out @ seed) @ concat (replicate n seed))" by blast
    then show ?thesis using True by (subst fill_loop.simps) (auto intro!: exI [of _ "Suc n"])
  next
    case False
    then show ?thesis by (subst fill_loop.simps) (auto intro!: exI [of _ 0])
  qed
qed

lemma show_nat_ascii: "c \<in> set (show_nat n) \<Longrightarrow> (of_char c :: nat) < 128"
  using show_nat_digits [of n] by (auto simp: list_all_iff is_ascii_digit_def)

text \<open>A payload for an actor with an ASCII name has exactly the requested length.\<close>

theorem payload_length_exact:
  assumes "list_all (\<lambda>c. (of_char c :: nat) < 128) actor_id"
  shows "\<exists>out. deterministic_payload len plateau_size payload_size seq_no actor_id = Some out \<and> length out = len"
proof -
  let ?seed = "payload_seed plateau_size payload_size seq_no actor_id"
  have ascii: "(of_char c :: nat) < 128" if "c \<in> set ?seed" for c
    using that assms show_nat_ascii by (auto simp: payload_seed_def list_all_iff)
  have "?seed \<noteq> []" by (simp add: payload_seed_def)
  from fill_loop_fills [OF this, of len "[]"] obtain n where
    n: "fill_loop len ?seed [] = Some (concat (replicate n ?seed))" "len \<le> length (concat (replicate n ?seed))" by auto
  have "is_char_boundary len (concat (replicate n ?seed))"
  proof (cases "len = length (concat (replicate n ?seed))")
    case False
    then have "concat (replicate n ?seed) ! len \<in> set (concat (replicate n ?seed))" using n(2) by (intro nth_mem) simp
    then have "concat (replicate n ?seed) ! len \<in> set ?seed" by (cases n) auto
    then show ?thesis using ascii False n(2) unfolding is_char_boundary_def by fastforce
  qed (simp add: is_char_boundary_def)
  then show ?thesis using n by (cases "len = 0") (simp_all add: deterministic_payload_def del: length_concat)
qed

theorem payload_length_exact_witness:
  "\<exists>out. deterministic_payload 100 8 100 3 ''client-1'' = Some out \<and> length out = 100"
  using payload_length_exact [of "''client-1''" 100 8 100 3] by simp

lemma saturated_add: "usize_saturating_add (min a usize_max) b = min (a + b) usize_max"
  by (simp add: usize_saturating_add_def min_def)

fun planned_units :: "nat \<Rightarrow> nat \<Rightarrow> nat \<Rightarrow> nat \<Rightarrow> nat \<Rightarrow> nat \<Rightarrow> nat list \<Rightarrow> nat" where
  "planned_units ur ar mu ma pc cur [] = 0"
| "planned_units ur ar mu ma pc cur (t # ts) =
     (if cur \<le> t then t - cur else cur - t) + update_ops_for_plateau t ur mu + app_ops_for_plateau t ar ma pc +
     planned_units ur ar mu ma pc t ts"

text \<open>
  Without external devices the estimate of a run is one unit for the group, one for every member that joins or leaves,
  and the updates and messages of every plateau, cut off at the largest \<^verbatim>\<open>usize\<close>.
\<close>

theorem estimate_counts_operations:
  "estimate_total_units sizes ur ar mu ma pc 0 lane mp = min (1 + planned_units ur ar mu ma pc 1 sizes) usize_max"
proof -
  have "fst (foldl (estimate_step ur ar mu ma pc 0 lane mp) (min n usize_max, cur) sizes) =
      min (n + planned_units ur ar mu ma pc cur sizes) usize_max" for n cur
  proof (induction sizes arbitrary: n cur)
    case (Cons t ts)
    have "estimate_step ur ar mu ma pc 0 lane mp (min n usize_max, cur) t =
        (min (n + (if cur \<le> t then t - cur else cur - t) + update_ops_for_plateau t ur mu + app_ops_for_plateau t ar ma pc) usize_max, t)"
      by (simp add: estimate_step_def Let_def saturated_add)
    then show ?case using Cons by (simp add: add.assoc)
  qed simp
  from this [of 1 1] show ?thesis by (simp add: estimate_total_units_def usize_max_def)
qed

end
