(* ===== verification/Spec2Isabelle.thy ===== *)
theory Spec2Isabelle
  imports Delivery_Http Delivery_Concurrency Delivery_Modes Lossy_Network Command_Cache Heap_Report Allocation_Counter Tree_Math Sender_Ratchet Sender_Key_Worker Key_Repository Group_Life Staircase_Plan Commit_Sampling Membership_Batches Fanout_Control Member_Selection
begin

text \<open>
  Verification of the message and commit delivery of the OpenMLS and Signal benchmark.
\<close>

end
